theory Spec2Isabelle
  imports Complex_Main "HOL-Library.Monad_Syntax" "HOL-Library.Multiset"
begin

section \<open>Data model of the solver (\<open>src/cadical.cc\<close>)\<close>

text \<open>
  Literals are nonzero C \<open>int\<close>s (here \<open>int\<close>), variable indices and decision levels
  are non-negative and modelled as \<open>nat\<close>. Values of type \<open>double\<close> are modelled as
  exact \<open>real\<close> numbers. A \<open>Clause *\<close> is an address into an explicit clause memory.
\<close>

type_synonym cref = nat

record Clause =
  c_redundant :: bool
  c_garbage :: bool
  c_reason :: bool
  c_size :: nat
  c_glue :: int
  c_resolved :: int
  c_literals :: "int list"

record Var =
  v_seen :: bool
  v_minimized :: bool
  v_poison :: bool
  v_level :: nat
  v_bumped :: int
  v_prev :: nat
  v_next :: nat
  v_reason :: "cref option"

record Watch =
  w_blit :: int
  w_size :: nat
  w_clause :: cref

record Level =
  l_decision :: int
  l_seen :: nat

record EMA =
  e_value :: real
  e_alpha :: real
  e_beta :: real
  e_wait :: int
  e_period :: int

record Options =
  emagluefast :: real
  emaglueslow :: real
  emajump :: real
  emaresolved :: real
  opt_reduce :: bool
  reducedynamic :: bool
  reduceinc :: int
  reduceinit :: int
  opt_restart :: bool
  restartdelay :: bool
  restartdelaylim :: real
  restartint :: int
  restartmargin :: real
  opt_reusetrail :: bool

text \<open>The constructor \<open>EMA (double a = 0)\<close>.\<close>

definition EMA_init :: "real \<Rightarrow> EMA" where
  "EMA_init a = \<lparr>e_value = 0, e_alpha = a, e_beta = 1, e_wait = 0, e_period = 0\<rparr>"

text \<open>
  \<open>EMA::update\<close>. The test \<open>beta <= alpha || wait--\<close> reads the old \<open>wait\<close> and
  decrements it afterwards, and only when \<open>beta <= alpha\<close> is false.
\<close>

definition EMA_update :: "EMA \<Rightarrow> real \<Rightarrow> EMA" where
  "EMA_update e y =
     (let e1 = e\<lparr>e_value := e_value e + e_beta e * (y - e_value e)\<rparr> in
      if e_beta e1 \<le> e_alpha e1 then e1
      else if e_wait e1 \<noteq> 0 then e1\<lparr>e_wait := e_wait e1 - 1\<rparr>
      else
        (let p = 2 * (e_period e1 + 1) - 1;
             b = e_beta e1 * (1/2)
         in e1\<lparr>e_wait := p, e_period := p,
                e_beta := (if b < e_alpha e1 then e_alpha e1 else b)\<rparr>))"

text \<open>A sequence of updates, oldest observation first.\<close>

definition EMA_updates :: "EMA \<Rightarrow> real list \<Rightarrow> EMA" where
  "EMA_updates e ys = foldl EMA_update e ys"

subsection \<open>Clause normalisation while parsing\<close>

text \<open>\<open>lit_less_than\<close>: by variable index, the negative literal first.\<close>

definition lit_less_than :: "int \<Rightarrow> int \<Rightarrow> bool" where
  "lit_less_than a b = (let s = \<bar>a\<bar>; t = \<bar>b\<bar> in s < t \<or> (s = t \<and> a < b))"

text \<open>
  \<open>std::sort\<close> with a comparator, as insertion sort. Where the comparator is a
  strict linear order (as \<open>lit_less_than\<close> is) the result does not depend on the
  sorting algorithm.
\<close>

fun insort_by :: "('a \<Rightarrow> 'a \<Rightarrow> bool) \<Rightarrow> 'a \<Rightarrow> 'a list \<Rightarrow> 'a list" where
  "insort_by lt x [] = [x]"
| "insort_by lt x (y # ys) = (if lt y x then y # insort_by lt x ys else x # y # ys)"

definition sort_by :: "('a \<Rightarrow> 'a \<Rightarrow> bool) \<Rightarrow> 'a list \<Rightarrow> 'a list" where
  "sort_by lt xs = foldr (insort_by lt) xs []"

text \<open>
  The loop of \<open>tautological\<close> over the sorted clause: \<open>out\<close> is \<open>clause[0..j)\<close>.
  The source never assigns \<open>prev\<close> inside the loop, so the loop carries it unchanged.
  The result is \<open>None\<close> for \<open>return true\<close> and the resized clause otherwise.
\<close>

fun taut_loop :: "int \<Rightarrow> int list \<Rightarrow> int list \<Rightarrow> int list option" where
  "taut_loop prev out [] = Some out"
| "taut_loop prev out (lit # rest) =
     (if lit = - prev then None
      else taut_loop prev (if lit \<noteq> prev then out @ [lit] else out) rest)"

definition tautological :: "int list \<Rightarrow> bool \<times> int list" where
  "tautological cl =
     (let sorted_cl = sort_by lit_less_than cl in
      case taut_loop 0 [] sorted_cl of
        None \<Rightarrow> (True, sorted_cl)
      | Some out \<Rightarrow> (False, out))"

subsection \<open>Solver state\<close>

text \<open>
  The static variables of the source, grouped as the source groups them. Counters that
  only feed the statistics printout (bytes, reports, timers) and the proof file are left out.
  The arrays \<open>vars\<close>, \<open>vals\<close>, \<open>phases\<close> and the watch lists are total functions of the
  variable index respectively the literal; \<open>std::vector\<close>s are lists, and reading a vector
  out of range or dereferencing a clause address that is not allocated makes the
  operation fail (\<open>None\<close>). Assertions of the source are not branches of the model.
\<close>

record Queue =
  q_first :: nat
  q_last :: nat
  q_next :: nat

record Stats =
  conflicts :: int
  decisions :: int
  restarts :: int
  reused :: int
  delayed :: int
  propagations :: int
  bumped :: int
  searched :: int
  reduce_count :: int
  reduce_clauses :: int
  learned_units :: int
  fixed_count :: int

record Ema =
  resolved_glue :: EMA
  resolved_size :: EMA
  learned_glue_fast :: EMA
  learned_glue_slow :: EMA
  jump :: EMA

record Limits =
  lim_reduce_conflicts :: int
  lim_reduce_resolved :: int
  lim_reduce_fixed :: int
  lim_restart_conflicts :: int

record Solver =
  max_var :: nat
  vars :: "nat \<Rightarrow> Var"
  vals :: "nat \<Rightarrow> int"
  phases :: "nat \<Rightarrow> int"
  all_literal_watches :: "int \<Rightarrow> Watch list"
  queue :: Queue
  unsat :: bool
  level :: nat
  levels :: "Level list"
  propagate_next :: nat
  trail :: "int list"
  clause :: "int list"
  irredundant :: "cref list"
  redundant :: "cref list"
  iterating :: bool
  seen_literals :: "int list"
  seen_levels :: "nat list"
  conflict :: "cref option"
  stats :: Stats
  ema :: Ema
  limits :: Limits
  inc_reduce_conflicts :: int
  opts :: Options
  heap :: "cref \<rightharpoonup> Clause"
  next_cref :: cref

definition vidx :: "int \<Rightarrow> nat" where
  "vidx lit = nat \<bar>lit\<bar>"

definition val :: "Solver \<Rightarrow> int \<Rightarrow> int" where
  "val s lit = (let res = vals s (vidx lit) in if lit < 0 then - res else res)"

definition fixed :: "Solver \<Rightarrow> int \<Rightarrow> int" where
  "fixed s lit =
     (let idx = vidx lit; res = vals s idx;
          res = (if res \<noteq> 0 \<and> v_level (vars s idx) \<noteq> 0 then 0 else res)
      in if lit < 0 then - res else res)"

definition sign :: "int \<Rightarrow> int" where
  "sign lit = (if lit < 0 then - 1 else 1)"

definition watches :: "Solver \<Rightarrow> int \<Rightarrow> Watch list" where
  "watches s lit = all_literal_watches s lit"

definition var :: "Solver \<Rightarrow> int \<Rightarrow> Var" where
  "var s lit = vars s (vidx lit)"

subsection \<open>Initialisation\<close>

text \<open>The default values of the \<open>OPTIONS\<close> table; the program has no way to change them.\<close>

definition default_opts :: Options where
  "default_opts = \<lparr>emagluefast = 3/100, emaglueslow = 1/100000, emajump = 1/1000000,
      emaresolved = 1/1000000, opt_reduce = True, reducedynamic = True, reduceinc = 300,
      reduceinit = 2000, opt_restart = True, restartdelay = True, restartdelaylim = 1/2,
      restartint = 10, restartmargin = 2/10, opt_reusetrail = True\<rparr>"

text \<open>
  Static storage is zero-initialised. \<open>Var ()\<close> clears the marks, \<open>bumped\<close> and the links;
  \<open>level\<close> and \<open>reason\<close>, which the constructor leaves alone, are taken as 0 and null.
\<close>

definition Var_init :: Var where
  "Var_init = \<lparr>v_seen = False, v_minimized = False, v_poison = False, v_level = 0,
      v_bumped = 0, v_prev = 0, v_next = 0, v_reason = None\<rparr>"

definition static_init :: "Options \<Rightarrow> Solver" where
  "static_init os = \<lparr>max_var = 0, vars = (\<lambda>_. Var_init), vals = (\<lambda>_. 0), phases = (\<lambda>_. 0),
      all_literal_watches = (\<lambda>_. []),
      queue = \<lparr>q_first = 0, q_last = 0, q_next = 0\<rparr>,
      unsat = False, level = 0, levels = [], propagate_next = 0, trail = [], clause = [],
      irredundant = [], redundant = [], iterating = False, seen_literals = [],
      seen_levels = [], conflict = None,
      stats = \<lparr>conflicts = 0, decisions = 0, restarts = 0, reused = 0, delayed = 0,
        propagations = 0, bumped = 0, searched = 0, reduce_count = 0, reduce_clauses = 0,
        learned_units = 0, fixed_count = 0\<rparr>,
      ema = \<lparr>resolved_glue = EMA_init 0, resolved_size = EMA_init 0,
        learned_glue_fast = EMA_init 0, learned_glue_slow = EMA_init 0, jump = EMA_init 0\<rparr>,
      limits = \<lparr>lim_reduce_conflicts = 0, lim_reduce_resolved = 0, lim_reduce_fixed = 0,
        lim_restart_conflicts = 0\<rparr>,
      inc_reduce_conflicts = 0, opts = os, heap = Map.empty, next_cref = 0\<rparr>"

text \<open>One round of the loop of \<open>init_vmtf_queue\<close>, carrying \<open>prev\<close>.\<close>

definition vmtf_link :: "nat \<Rightarrow> nat \<times> Solver \<Rightarrow> nat \<times> Solver" where
  "vmtf_link i ps =
     (let prev = fst ps; s = snd ps;
          s1 = s\<lparr>vars := (vars s)(i := (vars s i)\<lparr>v_prev := prev\<rparr>)\<rparr>;
          s2 = (if prev \<noteq> 0
                then s1\<lparr>vars := (vars s1)(prev := (vars s1 prev)\<lparr>v_next := i\<rparr>)\<rparr>
                else s1\<lparr>queue := (queue s1)\<lparr>q_first := i\<rparr>\<rparr>);
          b = bumped (stats s2) + 1;
          s3 = s2\<lparr>stats := (stats s2)\<lparr>bumped := b\<rparr>,
                  vars := (vars s2)(i := (vars s2 i)\<lparr>v_bumped := b\<rparr>)\<rparr>
      in (i, s3))"

definition init_vmtf_queue :: "Solver \<Rightarrow> Solver" where
  "init_vmtf_queue s =
     (let ps = fold vmtf_link [1 ..< max_var s + 1] (0, s)
      in (snd ps)\<lparr>queue := (queue (snd ps))\<lparr>q_last := fst ps, q_next := fst ps\<rparr>\<rparr>)"

text \<open>\<open>init_variables\<close>, after the header gave \<open>max_var\<close>.\<close>

definition init_variables :: "Solver \<Rightarrow> nat \<Rightarrow> Solver" where
  "init_variables s n =
     (let s1 = s\<lparr>max_var := n, vals := (\<lambda>_. 0), phases := (\<lambda>_. - 1)\<rparr>;
          s2 = init_vmtf_queue s1
      in s2\<lparr>levels := levels s2 @ [\<lparr>l_decision = 0, l_seen = 0\<rparr>]\<rparr>)"

definition init_solving :: "Solver \<Rightarrow> Solver" where
  "init_solving s =
     s\<lparr>limits := (limits s)\<lparr>lim_restart_conflicts := restartint (opts s),
                              lim_reduce_conflicts := reduceinit (opts s)\<rparr>,
       inc_reduce_conflicts := reduceinit (opts s),
       ema := \<lparr>resolved_glue = EMA_init (emaresolved (opts s)),
               resolved_size = EMA_init (emaresolved (opts s)),
               learned_glue_fast = EMA_init (emagluefast (opts s)),
               learned_glue_slow = EMA_init (emaglueslow (opts s)),
               jump = EMA_init (emajump (opts s))\<rparr>\<rparr>"

subsection \<open>Trail and assignment\<close>

definition assign :: "Solver \<Rightarrow> int \<Rightarrow> cref option \<Rightarrow> Solver" where
  "assign s lit reason =
     (let idx = vidx lit;
          s1 = (if level s = 0
                then s\<lparr>stats := (stats s)\<lparr>fixed_count := fixed_count (stats s) + 1\<rparr>,
                       iterating := True\<rparr>
                else s)
      in s1\<lparr>vars := (vars s1)(idx := (vars s1 idx)\<lparr>v_level := level s, v_reason := reason\<rparr>),
             vals := (vals s1)(idx := sign lit),
             phases := (phases s1)(idx := sign lit),
             trail := trail s1 @ [lit]\<rparr>)"

definition unassign :: "Solver \<Rightarrow> int \<Rightarrow> Solver" where
  "unassign s lit =
     (let idx = vidx lit;
          s1 = s\<lparr>vals := (vals s)(idx := 0)\<rparr>
      in if v_bumped (var s1 (int (q_next (queue s1)))) \<ge> v_bumped (vars s1 idx) then s1
         else s1\<lparr>queue := (queue s1)\<lparr>q_next := idx\<rparr>\<rparr>)"

text \<open>
  The \<open>do ... while (lit != decision)\<close> loop of \<open>backtrack\<close>; \<open>trail.back ()\<close> on an
  empty trail fails.
\<close>

function backtrack_loop :: "int \<Rightarrow> Solver \<Rightarrow> Solver option" where
  "backtrack_loop decision s =
     (if trail s = [] then None
      else
        (let lit = last (trail s);
             s1 = (unassign s lit)\<lparr>trail := butlast (trail s)\<rparr>
         in if lit \<noteq> decision then backtrack_loop decision s1 else Some s1))"
  by pat_completeness auto
termination
  by (relation "measure (\<lambda>(d, s). length (trail s))") (auto simp: unassign_def Let_def)

declare backtrack_loop.simps [simp del]

definition backtrack :: "Solver \<Rightarrow> nat \<Rightarrow> Solver option" where
  "backtrack s target_level =
     (if target_level = level s then Some s
      else if target_level + 1 < length (levels s) then
        do {
          s1 \<leftarrow> backtrack_loop (l_decision (levels s ! (target_level + 1))) s;
          let s2 = (if length (trail s1) < propagate_next s1
                    then s1\<lparr>propagate_next := length (trail s1)\<rparr> else s1);
          Some (s2\<lparr>levels := take (target_level + 1) (levels s2), level := target_level\<rparr>)
        }
      else None)"

subsection \<open>Double-precision arithmetic\<close>

text \<open>
  The source computes the restart limit in \<open>double\<close>. A finite double is modelled by the
  real number it denotes; the result of an operation is the exact result rounded to the
  nearest double, ties to the even significand (IEEE 754 binary64, each operation rounded
  on its own): 53 significant bits, gradual underflow below \<open>2 ^ -1022\<close>, and an infinity
  when the rounded magnitude reaches \<open>2 ^ 1024\<close>. The sign of a zero is not modelled; no
  operation used here depends on it.
\<close>

definition round_even :: "real \<Rightarrow> int" where
  "round_even x =
     (let f = \<lfloor>x\<rfloor>; d = x - of_int f
      in if d < 1 / 2 then f else if d > 1 / 2 then f + 1 else if even f then f else f + 1)"

text \<open>
  The binade of a magnitude \<open>a\<close>: the least \<open>e\<close> from \<open>-1022\<close> on with \<open>a < 2 ^ (e + 1)\<close>, found by
  a search that ends at \<open>1024\<close>. The unit in the last place of the doubles next to \<open>x\<close> is
  \<open>2\<close> to the power \<open>ulp_exp x\<close>; it is \<open>2 ^ -1074\<close> for all \<open>x\<close> below \<open>2 ^ -1021\<close>.
\<close>

fun binade_from :: "real \<Rightarrow> int \<Rightarrow> nat \<Rightarrow> int" where
  "binade_from a e 0 = e"
| "binade_from a e (Suc n) = (if a < 2 powi (e + 1) then e else binade_from a (e + 1) n)"

definition ulp_exp :: "real \<Rightarrow> int" where
  "ulp_exp x = binade_from \<bar>x\<bar> (- 1022) 2046 - 52"

definition round_binary64 :: "real \<Rightarrow> real" where
  "round_binary64 x = of_int (round_even (x / 2 powi ulp_exp x)) * 2 powi ulp_exp x"

datatype double = Finite real | PlusInf | MinusInf | NaN

text \<open>The double for an exact result, and for a real held by a \<open>double\<close> field.\<close>

definition to_double :: "real \<Rightarrow> double" where
  "to_double x =
     (let r = round_binary64 x
      in if r \<ge> 2 ^ 1024 then PlusInf else if r \<le> - (2 ^ 1024) then MinusInf else Finite r)"

definition double_sign :: "double \<Rightarrow> int" where
  "double_sign x =
     (case x of Finite a \<Rightarrow> (if a > 0 then 1 else if a < 0 then - 1 else 0)
      | PlusInf \<Rightarrow> 1 | MinusInf \<Rightarrow> - 1 | NaN \<Rightarrow> 0)"

fun double_add :: "double \<Rightarrow> double \<Rightarrow> double" where
  "double_add (Finite a) (Finite b) = to_double (a + b)"
| "double_add NaN y = NaN"
| "double_add x NaN = NaN"
| "double_add PlusInf MinusInf = NaN"
| "double_add MinusInf PlusInf = NaN"
| "double_add PlusInf y = PlusInf"
| "double_add x PlusInf = PlusInf"
| "double_add MinusInf y = MinusInf"
| "double_add x MinusInf = MinusInf"

fun double_mul :: "double \<Rightarrow> double \<Rightarrow> double" where
  "double_mul (Finite a) (Finite b) = to_double (a * b)"
| "double_mul NaN y = NaN"
| "double_mul x NaN = NaN"
| "double_mul x y =
     (if double_sign x * double_sign y > 0 then PlusInf
      else if double_sign x * double_sign y < 0 then MinusInf else NaN)"

text \<open>\<open>x < y\<close> on doubles; every comparison with a NaN is false.\<close>

fun double_less :: "double \<Rightarrow> double \<Rightarrow> bool" where
  "double_less (Finite a) (Finite b) = (a < b)"
| "double_less NaN y = False"
| "double_less x NaN = False"
| "double_less PlusInf y = False"
| "double_less x PlusInf = True"
| "double_less MinusInf MinusInf = False"
| "double_less MinusInf y = True"
| "double_less x MinusInf = False"

subsection \<open>Restart policy\<close>

text \<open>\<open>restarting\<close> returns its result together with the updated state.\<close>

definition restarting :: "Solver \<Rightarrow> bool \<times> Solver" where
  "restarting s =
     (if \<not> opt_restart (opts s) then (False, s)
      else if conflicts (stats s) \<le> lim_restart_conflicts (limits s) then (False, s)
      else
        (let slow = to_double (e_value (learned_glue_slow (ema s)));
             fast = to_double (e_value (learned_glue_fast (ema s)));
             limit = double_mul (double_add (Finite 1) (to_double (restartmargin (opts s)))) slow
         in if double_less fast limit then
              (False, s\<lparr>limits := (limits s)\<lparr>lim_restart_conflicts :=
                          conflicts (stats s) + restartint (opts s)\<rparr>\<rparr>)
            else if restartdelay (opts s) \<and>
                    double_less (to_double (real (level s)))
                      (double_mul (to_double (restartdelaylim (opts s)))
                                  (to_double (e_value (jump (ema s))))) then
              (False, s\<lparr>limits := (limits s)\<lparr>lim_restart_conflicts :=
                          conflicts (stats s) + restartint (opts s)\<rparr>,
                        stats := (stats s)\<lparr>delayed := delayed (stats s) + 1\<rparr>\<rparr>)
            else (True, s)))"

text \<open>
  \<open>next_decision_variable\<close> walks the \<open>prev\<close> links from \<open>queue.next\<close>. Nothing in the
  loop bounds the walk, so it is a partial function; reaching index 0 (no variable) fails.
\<close>

partial_function (option) next_decision_variable :: "Solver \<Rightarrow> (nat \<times> Solver) option" where
  "next_decision_variable s =
     (let res = q_next (queue s) in
      if res = 0 then None
      else if val s (int res) \<noteq> 0 then
        next_decision_variable
          (s\<lparr>queue := (queue s)\<lparr>q_next := v_prev (var s (int (q_next (queue s))))\<rparr>,
             stats := (stats s)\<lparr>searched := searched (stats s) + 1\<rparr>\<rparr>)
      else Some (res, s))"

text \<open>The \<open>while\<close> loop of \<open>reusetrail\<close>; \<open>levels[res + 1]\<close> is in range when \<open>res < level\<close>
  only if the level stack is as long as \<open>level\<close> says, otherwise the read fails.\<close>

function reuse_loop :: "Solver \<Rightarrow> int \<Rightarrow> nat \<Rightarrow> nat option" where
  "reuse_loop s limit res =
     (if res < level s then
        (if res + 1 < length (levels s) then
           (if v_bumped (var s (l_decision (levels s ! (res + 1)))) > limit
            then reuse_loop s limit (res + 1) else Some res)
         else None)
      else Some res)"
  by pat_completeness auto
termination
  by (relation "measure (\<lambda>(s, limit, res). level s - res)") auto

declare reuse_loop.simps [simp del]

definition reusetrail :: "Solver \<Rightarrow> (nat \<times> Solver) option" where
  "reusetrail s =
     (if \<not> opt_reusetrail (opts s) then Some (0, s)
      else do {
        (idx, s1) \<leftarrow> next_decision_variable s;
        res \<leftarrow> reuse_loop s1 (v_bumped (var s1 (int idx))) 0;
        Some (res, if res \<noteq> 0
                   then s1\<lparr>stats := (stats s1)\<lparr>reused := reused (stats s1) + 1\<rparr>\<rparr>
                   else s1)
      })"

definition restart :: "Solver \<Rightarrow> Solver option" where
  "restart s =
     do {
       let s0 = s\<lparr>stats := (stats s)\<lparr>restarts := restarts (stats s) + 1\<rparr>\<rparr>;
       (r, s1) \<leftarrow> reusetrail s0;
       s2 \<leftarrow> backtrack s1 r;
       Some (s2\<lparr>limits := (limits s2)\<lparr>lim_restart_conflicts :=
                  conflicts (stats s2) + restartint (opts s2)\<rparr>\<rparr>)
     }"

text \<open>
  The warm-up schedule after \<open>n\<close> updates of a fresh average with target \<open>a\<close>:
  with \<open>2 ^ k \<le> n + 1 < 2 ^ (k + 1)\<close>, \<open>beta\<close> is \<open>2 ^ -k\<close> clamped up to \<open>a\<close>,
  and while it is above \<open>a\<close>, \<open>period\<close> and \<open>wait\<close> are determined by \<open>n\<close>.
\<close>

definition warm :: "real \<Rightarrow> nat \<Rightarrow> EMA \<Rightarrow> bool" where
  "warm a n e \<longleftrightarrow> e_alpha e = a \<and>
     (\<forall>k. 2 ^ k \<le> n + 1 \<and> n + 1 < 2 ^ (k + 1) \<longrightarrow>
        e_beta e = max a ((1/2) ^ k) \<and>
        (a < e_beta e \<longrightarrow> e_period e = 2 ^ k - 1 \<and> e_wait e = 2 ^ (k + 1) - 2 - int n))"

subsection \<open>Example states\<close>

text \<open>
  A state of a three-variable solver after initialisation, with the given values of the
  fast and slow learned-glue averages and of the jump average, conflict count and level.
\<close>

definition ema_state :: "real \<Rightarrow> real \<Rightarrow> real \<Rightarrow> int \<Rightarrow> nat \<Rightarrow> Solver" where
  "ema_state fast slow j c l =
     (let s = init_solving (init_variables (static_init default_opts) 3) in
      s\<lparr>ema := (ema s)\<lparr>learned_glue_fast := (learned_glue_fast (ema s))\<lparr>e_value := fast\<rparr>,
                       learned_glue_slow := (learned_glue_slow (ema s))\<lparr>e_value := slow\<rparr>,
                       jump := (jump (ema s))\<lparr>e_value := j\<rparr>\<rparr>,
        stats := (stats s)\<lparr>conflicts := c\<rparr>,
        level := l\<rparr>)"

subsection \<open>Specification predicates\<close>

text \<open>
  \<open>reusable s limit r\<close>: the decisions of the levels \<open>1..r\<close> all have a bump time stamp
  greater than \<open>limit\<close>.
\<close>

definition reusable :: "Solver \<Rightarrow> int \<Rightarrow> nat \<Rightarrow> bool" where
  "reusable s limit r \<longleftrightarrow>
     r \<le> level s \<and> (\<forall>l \<in> {1..r}. v_bumped (var s (l_decision (levels s ! l))) > limit)"

text \<open>
  An example for trail reuse: three variables, decisions \<open>-3\<close> and \<open>-1\<close> on the levels 1 and 2,
  variable 2 unassigned, the queue cursor on variable 3.
\<close>

definition reuse_state :: Solver where
  "reuse_state =
     (let s = init_solving (init_variables (static_init default_opts) 3) in
      s\<lparr>vals := (\<lambda>_. 0)(3 := - 1, 1 := - 1),
        trail := [- 3, - 1],
        propagate_next := 2,
        level := 2,
        levels := [\<lparr>l_decision = 0, l_seen = 0\<rparr>, \<lparr>l_decision = - 3, l_seen = 0\<rparr>,
                   \<lparr>l_decision = - 1, l_seen = 0\<rparr>],
        vars := (vars s)(3 := (vars s 3)\<lparr>v_level := 1\<rparr>, 1 := (vars s 1)\<lparr>v_level := 2\<rparr>)\<rparr>)"

subsection \<open>Reduce policy\<close>

definition reducing :: "Solver \<Rightarrow> bool" where
  "reducing s = (if \<not> opt_reduce (opts s) then False
                 else conflicts (stats s) \<ge> lim_reduce_conflicts (limits s))"

text \<open>
  \<open>protect_reasons\<close> and \<open>unprotect_reasons\<close> differ only in the flag they write;
  \<open>set_reasons b\<close> is the loop over the trail. Writing through a reason pointer that is not
  allocated fails.
\<close>

fun set_reasons :: "bool \<Rightarrow> int list \<Rightarrow> Solver \<Rightarrow> Solver option" where
  "set_reasons b [] s = Some s"
| "set_reasons b (lit # rest) s =
     (let v = var s lit in
      if v_level v \<noteq> 0 \<and> v_reason v \<noteq> None then
        (case heap s (the (v_reason v)) of
           None \<Rightarrow> None
         | Some c \<Rightarrow> set_reasons b rest (s\<lparr>heap := (heap s)(the (v_reason v) \<mapsto> c\<lparr>c_reason := b\<rparr>)\<rparr>))
      else set_reasons b rest s)"

definition protect_reasons :: "Solver \<Rightarrow> Solver option" where
  "protect_reasons s = set_reasons True (trail s) s"

definition unprotect_reasons :: "Solver \<Rightarrow> Solver option" where
  "unprotect_reasons s = set_reasons False (trail s) s"

text \<open>The literal array of a clause holds exactly \<open>size\<close> literals.\<close>

definition clause_root_level_satisfied :: "Solver \<Rightarrow> Clause \<Rightarrow> bool" where
  "clause_root_level_satisfied s c = list_ex (\<lambda>lit. fixed s lit > 0) (c_literals c)"

fun mark_satisfied_clauses :: "cref list \<Rightarrow> Solver \<Rightarrow> Solver option" where
  "mark_satisfied_clauses [] s = Some s"
| "mark_satisfied_clauses (r # rest) s =
     (case heap s r of
        None \<Rightarrow> None
      | Some c \<Rightarrow>
          mark_satisfied_clauses rest
            (if \<not> c_reason c \<and> clause_root_level_satisfied s c
             then s\<lparr>heap := (heap s)(r \<mapsto> c\<lparr>c_garbage := True\<rparr>)\<rparr> else s))"

definition reduce_less_than :: "Clause \<Rightarrow> Clause \<Rightarrow> bool" where
  "reduce_less_than c d =
     (if c_resolved c < c_resolved d then True
      else if c_resolved c > c_resolved d then False
      else if c_glue c > c_glue d then True
      else if c_glue c < c_glue d then False
      else if c_size c > c_size d then True
      else if c_size c < c_size d then False
      else False)"

text \<open>The test of the first loop of \<open>mark_redundant_clauses\<close>: true when the clause is
  pushed on \<open>work\<close>.\<close>

definition reduce_candidate :: "Solver \<Rightarrow> Clause \<Rightarrow> bool" where
  "reduce_candidate s c =
     (if c_reason c then False
      else if c_garbage c then False
      else if c_glue c \<le> 2 then False
      else if c_size c \<le> 3 then False
      else if c_resolved c > lim_reduce_resolved (limits s) then False
      else if reducedynamic (opts s)
              \<and> real_of_int (c_glue c) < e_value (resolved_glue (ema s))
              \<and> real (c_size c) < e_value (resolved_size (ema s)) then False
      else True)"

fun reduce_work :: "Solver \<Rightarrow> cref list \<Rightarrow> cref list option" where
  "reduce_work s [] = Some []"
| "reduce_work s (r # rest) =
     (case heap s r of
        None \<Rightarrow> None
      | Some c \<Rightarrow>
          (case reduce_work s rest of
             None \<Rightarrow> None
           | Some work \<Rightarrow> Some (if reduce_candidate s c then r # work else work)))"

fun mark_garbage :: "cref list \<Rightarrow> Solver \<Rightarrow> Solver" where
  "mark_garbage [] s = s"
| "mark_garbage (r # rest) s =
     mark_garbage rest (s\<lparr>heap := (heap s)(r \<mapsto> (the (heap s r))\<lparr>c_garbage := True\<rparr>)\<rparr>)"

text \<open>
  \<open>mark_redundant_clauses\<close>. \<open>std::sort\<close> on the clause pointers of \<open>work\<close> compares the
  clauses they point to; every pointer on \<open>work\<close> was dereferenced when it was pushed.
  Where two clauses agree in all three keys \<open>std::sort\<close> may leave them in either order;
  the model keeps their order.
\<close>

definition mark_redundant_clauses :: "Solver \<Rightarrow> Solver option" where
  "mark_redundant_clauses s =
     (case reduce_work s (redundant s) of
        None \<Rightarrow> None
      | Some work \<Rightarrow>
          (let sorted_work = sort_by (\<lambda>c d. reduce_less_than (the (heap s c)) (the (heap s d))) work;
               target = length sorted_work div 2
           in Some (mark_garbage (take target sorted_work) s)))"

text \<open>The inner loop of \<open>flush_watches\<close> on one watch list.\<close>

fun flush_list :: "Solver \<Rightarrow> Watch list \<Rightarrow> Watch list option" where
  "flush_list s [] = Some []"
| "flush_list s (w # ws) =
     (case heap s (w_clause w) of
        None \<Rightarrow> None
      | Some c \<Rightarrow>
          (case flush_list s ws of
             None \<Rightarrow> None
           | Some ws' \<Rightarrow> Some (if c_garbage c then ws' else w # ws')))"

definition flush_var :: "nat \<Rightarrow> Solver \<Rightarrow> Solver option" where
  "flush_var idx s =
     (if fixed s (int idx) \<noteq> 0
      then Some (s\<lparr>all_literal_watches := (all_literal_watches s)(int idx := [], - int idx := [])\<rparr>)
      else
        (case flush_list s (watches s (- int idx)) of
           None \<Rightarrow> None
         | Some neg \<Rightarrow>
             (let s1 = s\<lparr>all_literal_watches := (all_literal_watches s)(- int idx := neg)\<rparr> in
              case flush_list s1 (watches s1 (int idx)) of
                None \<Rightarrow> None
              | Some pos \<Rightarrow>
                  Some (s1\<lparr>all_literal_watches := (all_literal_watches s1)(int idx := pos)\<rparr>))))"

fun flush_vars :: "nat list \<Rightarrow> Solver \<Rightarrow> Solver option" where
  "flush_vars [] s = Some s"
| "flush_vars (idx # rest) s =
     (case flush_var idx s of None \<Rightarrow> None | Some s1 \<Rightarrow> flush_vars rest s1)"

definition flush_watches :: "Solver \<Rightarrow> Solver option" where
  "flush_watches s = flush_vars [1 ..< max_var s + 1] s"

text \<open>
  \<open>collect_clauses\<close> on one of the two clause vectors: returns the compacted vector.
  \<open>delete_clause\<close> releases the clause's memory.
\<close>

fun collect_clauses :: "cref list \<Rightarrow> Solver \<Rightarrow> (cref list \<times> Solver) option" where
  "collect_clauses [] s = Some ([], s)"
| "collect_clauses (r # rest) s =
     (case heap s r of
        None \<Rightarrow> None
      | Some c \<Rightarrow>
          if \<not> c_garbage c then
            (case collect_clauses rest s of
               None \<Rightarrow> None
             | Some (kept, s') \<Rightarrow> Some (r # kept, s'))
          else
            collect_clauses rest
              (s\<lparr>stats := (stats s)\<lparr>reduce_clauses := reduce_clauses (stats s) + 1\<rparr>,
                 heap := (heap s)(r := None)\<rparr>))"

definition reduce :: "Solver \<Rightarrow> Solver option" where
  "reduce s =
     do {
       let s0 = s\<lparr>stats := (stats s)\<lparr>reduce_count := reduce_count (stats s) + 1\<rparr>\<rparr>;
       s1 \<leftarrow> protect_reasons s0;
       s2 \<leftarrow> (if lim_reduce_fixed (limits s1) < fixed_count (stats s1)
              then do { t \<leftarrow> mark_satisfied_clauses (irredundant s1) s1;
                        mark_satisfied_clauses (redundant t) t }
              else Some s1);
       s3 \<leftarrow> mark_redundant_clauses s2;
       s4 \<leftarrow> unprotect_reasons s3;
       s5 \<leftarrow> flush_watches s4;
       s6 \<leftarrow> (if lim_reduce_fixed (limits s5) < fixed_count (stats s5)
              then do { (kept, t) \<leftarrow> collect_clauses (irredundant s5) s5;
                        Some (t\<lparr>irredundant := kept\<rparr>) }
              else Some s5);
       (kept, s7) \<leftarrow> collect_clauses (redundant s6) s6;
       let s8 = s7\<lparr>redundant := kept\<rparr>;
       let s9 = s8\<lparr>inc_reduce_conflicts := inc_reduce_conflicts s8 + reduceinc (opts s8)\<rparr>;
       Some (s9\<lparr>limits := (limits s9)\<lparr>
                  lim_reduce_conflicts := conflicts (stats s9) + inc_reduce_conflicts s9,
                  lim_reduce_resolved := conflicts (stats s9),
                  lim_reduce_fixed := fixed_count (stats s9)\<rparr>\<rparr>)
     }"

text \<open>
  The order of the reduce candidates in words: \<open>resolved\<close> ascending, then \<open>glue\<close> descending,
  then \<open>size\<close> descending.
\<close>

definition reduce_order_le :: "Clause \<Rightarrow> Clause \<Rightarrow> bool" where
  "reduce_order_le c d \<longleftrightarrow>
     c_resolved c < c_resolved d
     \<or> (c_resolved c = c_resolved d
        \<and> (c_glue c > c_glue d \<or> (c_glue c = c_glue d \<and> c_size c \<ge> c_size d)))"

text \<open>
  The deletion candidates as the specification words them: with \<open>reducedynamic\<close> enabled a
  candidate has both its glue below the resolved-glue average and its size below the
  resolved-size average.
\<close>

definition claimed_candidate :: "Solver \<Rightarrow> Clause \<Rightarrow> bool" where
  "claimed_candidate s c \<longleftrightarrow>
     \<not> c_reason c \<and> \<not> c_garbage c \<and> c_glue c > 2 \<and> c_size c > 3
     \<and> c_resolved c \<le> lim_reduce_resolved (limits s)
     \<and> (reducedynamic (opts s) \<longrightarrow>
          real_of_int (c_glue c) < e_value (resolved_glue (ema s))
          \<and> real (c_size c) < e_value (resolved_size (ema s)))"

text \<open>
  An example for reduce: six variables, two learned clauses at the addresses 0 and 1 (glue 5
  and size 6, glue 7 and size 4), and the given values of the resolved-glue and
  resolved-size averages.
\<close>

definition red_state :: "real \<Rightarrow> real \<Rightarrow> Solver" where
  "red_state g z =
     (let s = init_solving (init_variables (static_init default_opts) 6) in
      s\<lparr>heap := [0 \<mapsto> \<lparr>c_redundant = True, c_garbage = False, c_reason = False, c_size = 6,
                        c_glue = 5, c_resolved = 0, c_literals = [1, 2, 3, 4, 5, 6]\<rparr>,
                  1 \<mapsto> \<lparr>c_redundant = True, c_garbage = False, c_reason = False, c_size = 4,
                        c_glue = 7, c_resolved = 0, c_literals = [- 1, - 2, 3, 4]\<rparr>],
        next_cref := 2,
        redundant := [0, 1],
        ema := (ema s)\<lparr>resolved_glue := (resolved_glue (ema s))\<lparr>e_value := g\<rparr>,
                       resolved_size := (resolved_size (ema s))\<lparr>e_value := z\<rparr>\<rparr>\<rparr>)"

text \<open>
  The first steps of \<open>reduce\<close>, up to and including \<open>unprotect_reasons\<close>: the state whose
  garbage flags \<open>flush_watches\<close> and \<open>collect_clauses\<close> then read.
\<close>

definition reduce_marked :: "Solver \<Rightarrow> Solver option" where
  "reduce_marked s =
     do {
       let s0 = s\<lparr>stats := (stats s)\<lparr>reduce_count := reduce_count (stats s) + 1\<rparr>\<rparr>;
       s1 \<leftarrow> protect_reasons s0;
       s2 \<leftarrow> (if lim_reduce_fixed (limits s1) < fixed_count (stats s1)
              then do { t \<leftarrow> mark_satisfied_clauses (irredundant s1) s1;
                        mark_satisfied_clauses (redundant t) t }
              else Some s1);
       s3 \<leftarrow> mark_redundant_clauses s2;
       unprotect_reasons s3
     }"

text \<open>
  An example for the flushing of watches: variable 4 is fixed to true at level 0 and was
  counted by an earlier reduce; the original clause \<open>-4 2 1\<close> at address 0 is watched on \<open>-4\<close>
  and \<open>2\<close>; the learned binary clause \<open>2 3\<close> at address 1 is flagged garbage.
\<close>

definition flush_state :: Solver where
  "flush_state =
     (let s = init_solving (init_variables (static_init default_opts) 4) in
      s\<lparr>heap := [0 \<mapsto> \<lparr>c_redundant = False, c_garbage = False, c_reason = False, c_size = 3,
                        c_glue = 0, c_resolved = 0, c_literals = [- 4, 2, 1]\<rparr>,
                  1 \<mapsto> \<lparr>c_redundant = True, c_garbage = True, c_reason = False, c_size = 2,
                        c_glue = 2, c_resolved = 0, c_literals = [2, 3]\<rparr>],
        next_cref := 2,
        irredundant := [0],
        redundant := [1],
        vals := (\<lambda>_. 0)(4 := 1),
        trail := [4],
        propagate_next := 1,
        stats := (stats s)\<lparr>fixed_count := 1\<rparr>,
        limits := (limits s)\<lparr>lim_reduce_fixed := 1\<rparr>,
        all_literal_watches := (\<lambda>_. [])
          (- 4 := [\<lparr>w_blit = 2, w_size = 3, w_clause = 0\<rparr>],
           2 := [\<lparr>w_blit = 3, w_size = 2, w_clause = 1\<rparr>, \<lparr>w_blit = - 4, w_size = 3, w_clause = 0\<rparr>],
           3 := [\<lparr>w_blit = 2, w_size = 2, w_clause = 1\<rparr>])\<rparr>)"

subsection \<open>Watches and clauses\<close>

text \<open>\<open>Watch (b, c)\<close> caches the size of the clause.\<close>

definition watch_literal :: "Solver \<Rightarrow> int \<Rightarrow> int \<Rightarrow> cref \<Rightarrow> Solver option" where
  "watch_literal s lit blit c =
     (case heap s c of
        None \<Rightarrow> None
      | Some cl \<Rightarrow>
          Some (s\<lparr>all_literal_watches := (all_literal_watches s)
                  (lit := watches s lit @ [\<lparr>w_blit = blit, w_size = c_size cl, w_clause = c\<rparr>])\<rparr>))"

definition watch_clause :: "Solver \<Rightarrow> cref \<Rightarrow> Solver option" where
  "watch_clause s c =
     (case heap s c of
        None \<Rightarrow> None
      | Some cl \<Rightarrow>
          if length (c_literals cl) < 2 then None
          else do {
            let l0 = c_literals cl ! 0;
            let l1 = c_literals cl ! 1;
            s1 \<leftarrow> watch_literal s l0 l1 c;
            watch_literal s1 l1 l0 c
          })"

text \<open>\<open>new_clause\<close> copies the temporary \<open>clause\<close>; the allocator hands out a fresh address.\<close>

definition new_clause :: "Solver \<Rightarrow> bool \<Rightarrow> int \<Rightarrow> cref \<times> Solver" where
  "new_clause s red glue =
     (let res = next_cref s;
          cl = \<lparr>c_redundant = red, c_garbage = False, c_reason = False,
                c_size = length (clause s), c_glue = glue,
                c_resolved = conflicts (stats s), c_literals = clause s\<rparr>;
          s1 = s\<lparr>heap := (heap s)(res \<mapsto> cl), next_cref := res + 1\<rparr>
      in (res, if red then s1\<lparr>redundant := redundant s1 @ [res]\<rparr>
               else s1\<lparr>irredundant := irredundant s1 @ [res]\<rparr>))"

definition learn_empty_clause :: "Solver \<Rightarrow> Solver" where
  "learn_empty_clause s = s\<lparr>unsat := True\<rparr>"

definition add_new_original_clause :: "Solver \<Rightarrow> Solver option" where
  "add_new_original_clause s =
     (let sz = length (clause s) in
      if sz = 0 then Some (s\<lparr>unsat := True\<rparr>)
      else if sz = 1 then
        (let unit = clause s ! 0; tmp = val s unit in
         if tmp = 0 then Some (assign s unit None)
         else if tmp < 0 then Some (if \<not> unsat s then learn_empty_clause s else s)
         else Some s)
      else (let (c, s1) = new_clause s False 0 in watch_clause s1 c))"

definition new_learned_clause :: "Solver \<Rightarrow> int \<Rightarrow> (cref \<times> Solver) option" where
  "new_learned_clause s g =
     (let (c, s1) = new_clause s True g in
      case watch_clause s1 c of None \<Rightarrow> None | Some s2 \<Rightarrow> Some (c, s2))"

subsection \<open>Propagation\<close>

definition swap_lits :: "nat \<Rightarrow> nat \<Rightarrow> int list \<Rightarrow> int list" where
  "swap_lits i j xs = xs[i := xs ! j, j := xs ! i]"

text \<open>
  The scan \<open>for (k = 2; k < w.size && (v = val (lits[k])) < 0; k++)\<close>, started with
  \<open>k = 2\<close> and \<open>v = 0\<close>; returns the final \<open>k\<close> and \<open>v\<close>. Reading past the end of the literal
  array fails.
\<close>

function scan_lits :: "Solver \<Rightarrow> int list \<Rightarrow> nat \<Rightarrow> nat \<Rightarrow> int \<Rightarrow> (nat \<times> int) option" where
  "scan_lits s lits sz k v =
     (if k < sz then
        (if k < length lits then
           (let v' = val s (lits ! k) in
            if v' < 0 then scan_lits s lits sz (k + 1) v' else Some (k, v'))
         else None)
      else Some (k, v))"
  by pat_completeness auto
termination
  by (relation "measure (\<lambda>(s, lits, sz, k, v). sz - k)") auto

declare scan_lits.simps [simp del]

text \<open>
  The body of the inner loop of \<open>propagate\<close> for the watch \<open>w = ws[i]\<close> of \<open>-lit\<close>. The
  source compacts \<open>ws\<close> in place: \<open>ws[0..j)\<close> are the watches kept so far, \<open>ws[i..)\<close> those
  still to visit. The result is the list that the visit adds to the kept watches (the
  watch itself, possibly with a new blocking literal, or nothing when the watch moves),
  the list it appends to \<open>ws\<close> (only when the new watch is pushed on \<open>ws\<close> itself), and the
  new state, in which the list of \<open>-lit\<close> is left as it was.
\<close>

definition visit_watch :: "int \<Rightarrow> Watch \<Rightarrow> Solver \<Rightarrow> (Watch list \<times> Watch list \<times> Solver) option" where
  "visit_watch lit w s =
     (let b = val s (w_blit w) in
      if b > 0 then Some ([w], [], s)
      else if w_size w = 2 then
        (if b < 0 then Some ([w], [], s\<lparr>conflict := Some (w_clause w)\<rparr>)
         else Some ([w], [], assign s (w_blit w) (Some (w_clause w))))
      else
        (case heap s (w_clause w) of
           None \<Rightarrow> None
         | Some c \<Rightarrow>
             if length (c_literals c) < 2 then None
             else
               (let lits = (if c_literals c ! 1 \<noteq> - lit then swap_lits 0 1 (c_literals c)
                            else c_literals c);
                    s1 = s\<lparr>heap := (heap s)(w_clause w \<mapsto> c\<lparr>c_literals := lits\<rparr>)\<rparr>;
                    u = val s1 (lits ! 0)
                in if u > 0 then Some ([w\<lparr>w_blit := lits ! 0\<rparr>], [], s1)
                   else
                     (case scan_lits s1 lits (w_size w) 2 0 of
                        None \<Rightarrow> None
                      | Some (k, v) \<Rightarrow>
                          if v > 0 then Some ([w\<lparr>w_blit := lits ! k\<rparr>], [], s1)
                          else if v = 0 then
                            (if k < length lits then
                               (let lits' = swap_lits 1 k lits;
                                    s2 = s1\<lparr>heap := (heap s1)(w_clause w \<mapsto> c\<lparr>c_literals := lits'\<rparr>)\<rparr>;
                                    nw = \<lparr>w_blit = - lit, w_size = c_size c, w_clause = w_clause w\<rparr>
                                in if lits' ! 1 = - lit then Some ([], [nw], s2)
                                   else Some ([], [], s2\<lparr>all_literal_watches := (all_literal_watches s2)
                                            (lits' ! 1 := watches s2 (lits' ! 1) @ [nw])\<rparr>))
                             else None)
                          else if u = 0 then Some ([w], [], assign s1 (lits ! 0) (Some (w_clause w)))
                          else Some ([w], [], s1\<lparr>conflict := Some (w_clause w)\<rparr>)))))"

text \<open>
  The inner loop: it stops at a conflict or when all of \<open>ws\<close> is visited, then moves the
  unvisited rest down and resizes, which stores \<open>kept @ todo\<close> as the list of \<open>-lit\<close>.
\<close>

partial_function (option) propagate_watches ::
    "int \<Rightarrow> Watch list \<Rightarrow> Watch list \<Rightarrow> Solver \<Rightarrow> Solver option" where
  "propagate_watches lit kept todo s =
     (if conflict s \<noteq> None \<or> todo = []
      then Some (s\<lparr>all_literal_watches := (all_literal_watches s)(- lit := kept @ todo)\<rparr>)
      else
        (case visit_watch lit (hd todo) s of
           None \<Rightarrow> None
         | Some (k, a, s') \<Rightarrow> propagate_watches lit (kept @ k) (tl todo @ a) s'))"

partial_function (option) propagate_loop :: "Solver \<Rightarrow> Solver option" where
  "propagate_loop s =
     (if conflict s = None \<and> propagate_next s < length (trail s) then
        (let lit = trail s ! propagate_next s;
             s1 = s\<lparr>stats := (stats s)\<lparr>propagations := propagations (stats s) + 1\<rparr>,
                    propagate_next := propagate_next s + 1\<rparr>
         in case propagate_watches lit [] (watches s1 (- lit)) s1 of
              None \<Rightarrow> None
            | Some s2 \<Rightarrow> propagate_loop s2)
      else Some s)"

text \<open>\<open>propagate\<close> returns \<open>!conflict\<close> and the new state.\<close>

definition propagate :: "Solver \<Rightarrow> (bool \<times> Solver) option" where
  "propagate s =
     (case propagate_loop s of
        None \<Rightarrow> None
      | Some s1 \<Rightarrow>
          Some (if conflict s1 \<noteq> None
                then (False, s1\<lparr>stats := (stats s1)\<lparr>conflicts := conflicts (stats s1) + 1\<rparr>\<rparr>)
                else (True, s1)))"

text \<open>
  An example for the visit of a watch: three variables, 1 true and 2 false, 3 unassigned,
  and the clause \<open>-1 2 3\<close> at address 0.
\<close>

definition visit_state :: Solver where
  "visit_state =
     (let s = init_solving (init_variables (static_init default_opts) 3) in
      s\<lparr>heap := [0 \<mapsto> \<lparr>c_redundant = False, c_garbage = False, c_reason = False, c_size = 3,
                        c_glue = 0, c_resolved = 0, c_literals = [- 1, 2, 3]\<rparr>],
        next_cref := 1,
        irredundant := [0],
        vals := (\<lambda>_. 0)(1 := 1, 2 := - 1)\<rparr>)"

subsection \<open>VMTF queue\<close>

text \<open>\<open>dequeue (v)\<close> and \<open>enqueue (v, idx)\<close>, for the variable \<open>v = vars[idx]\<close>.\<close>

definition dequeue :: "Solver \<Rightarrow> nat \<Rightarrow> Solver" where
  "dequeue s idx =
     (let v = vars s idx;
          s1 = (if v_prev v \<noteq> 0
                then s\<lparr>vars := (vars s)(v_prev v := (vars s (v_prev v))\<lparr>v_next := v_next v\<rparr>)\<rparr>
                else s\<lparr>queue := (queue s)\<lparr>q_first := v_next v\<rparr>\<rparr>)
      in if v_next v \<noteq> 0
         then s1\<lparr>vars := (vars s1)(v_next v := (vars s1 (v_next v))\<lparr>v_prev := v_prev v\<rparr>)\<rparr>
         else s1\<lparr>queue := (queue s1)\<lparr>q_last := v_prev v\<rparr>\<rparr>)"

definition enqueue :: "Solver \<Rightarrow> nat \<Rightarrow> Solver" where
  "enqueue s idx =
     (let s1 = s\<lparr>vars := (vars s)(idx := (vars s idx)\<lparr>v_prev := q_last (queue s)\<rparr>)\<rparr>;
          s2 = (if q_last (queue s) \<noteq> 0
                then s1\<lparr>vars := (vars s1)(q_last (queue s) :=
                            (vars s1 (q_last (queue s)))\<lparr>v_next := idx\<rparr>)\<rparr>
                else s1\<lparr>queue := (queue s1)\<lparr>q_first := idx\<rparr>\<rparr>);
          s3 = s2\<lparr>queue := (queue s2)\<lparr>q_last := idx\<rparr>\<rparr>
      in s3\<lparr>vars := (vars s3)(idx := (vars s3 idx)\<lparr>v_next := 0\<rparr>)\<rparr>)"

text \<open>One round of the loop of \<open>bump_and_clear_seen_literals\<close>; \<open>uip\<close> is already the
  variable index.\<close>

definition bump_literal :: "nat \<Rightarrow> int \<Rightarrow> Solver \<Rightarrow> Solver" where
  "bump_literal uip lit s =
     (let idx = vidx lit;
          s1 = s\<lparr>vars := (vars s)(idx := (vars s idx)\<lparr>v_seen := False, v_minimized := False,
                                                       v_poison := False\<rparr>)\<rparr>
      in if v_next (vars s1 idx) = 0 then s1
         else
           (let s2 = (if q_next (queue s1) = idx
                      then s1\<lparr>queue := (queue s1)\<lparr>q_next :=
                             (if v_prev (vars s1 idx) \<noteq> 0 then v_prev (vars s1 idx)
                              else v_next (vars s1 idx))\<rparr>\<rparr>
                      else s1);
                s3 = enqueue (dequeue s2 idx) idx;
                b = bumped (stats s3) + 1;
                s4 = s3\<lparr>stats := (stats s3)\<lparr>bumped := b\<rparr>,
                        vars := (vars s3)(idx := (vars s3 idx)\<lparr>v_bumped := b\<rparr>)\<rparr>
            in if idx \<noteq> uip \<and> vals s4 idx = 0
               then s4\<lparr>queue := (queue s4)\<lparr>q_next := idx\<rparr>\<rparr> else s4))"

definition bumped_earlier :: "Solver \<Rightarrow> int \<Rightarrow> int \<Rightarrow> bool" where
  "bumped_earlier s a b = (v_bumped (var s a) < v_bumped (var s b))"

definition bump_and_clear_seen_literals :: "Solver \<Rightarrow> int \<Rightarrow> Solver" where
  "bump_and_clear_seen_literals s uip =
     (let sorted_seen = sort_by (bumped_earlier s) (seen_literals s);
          s1 = s\<lparr>seen_literals := sorted_seen\<rparr>;
          s2 = fold (bump_literal (vidx uip)) sorted_seen s1
      in s2\<lparr>seen_literals := []\<rparr>)"

text \<open>
  \<open>clear_levels\<close> runs after \<open>backtrack\<close> has cut the level stack down, so it also
  writes to entries above the new size of the vector. Those lie in the spare capacity
  of the vector (which never shrinks) and are constructed anew by the next \<open>push_back\<close>:
  in the model such a write has no effect.
\<close>

fun clear_levels_loop :: "nat list \<Rightarrow> Solver \<Rightarrow> Solver" where
  "clear_levels_loop [] s = s"
| "clear_levels_loop (l # ls) s =
     clear_levels_loop ls
       (if l < length (levels s)
        then s\<lparr>levels := (levels s)[l := (levels s ! l)\<lparr>l_seen := 0\<rparr>]\<rparr>
        else s)"

definition clear_levels :: "Solver \<Rightarrow> Solver" where
  "clear_levels s = (clear_levels_loop (seen_levels s) s)\<lparr>seen_levels := []\<rparr>"

subsection \<open>Conflict analysis\<close>

definition bump_clause :: "Solver \<Rightarrow> cref \<Rightarrow> Solver option" where
  "bump_clause s r =
     (case heap s r of
        None \<Rightarrow> None
      | Some c \<Rightarrow>
          if \<not> c_redundant c then Some s
          else Some (s\<lparr>heap := (heap s)(r \<mapsto> c\<lparr>c_resolved := conflicts (stats s)\<rparr>),
                       ema := (ema s)\<lparr>
                         resolved_size := EMA_update (resolved_size (ema s)) (real (c_size c)),
                         resolved_glue := EMA_update (resolved_glue (ema s))
                                            (real_of_int (c_glue c))\<rparr>\<rparr>))"

definition level_greater_than :: "Solver \<Rightarrow> int \<Rightarrow> int \<Rightarrow> bool" where
  "level_greater_than s a b = (v_level (var s a) > v_level (var s b))"

text \<open>\<open>analyze_literal\<close> returns its result and the new state.\<close>

definition analyze_literal :: "Solver \<Rightarrow> int \<Rightarrow> (bool \<times> Solver) option" where
  "analyze_literal s lit =
     (let v = var s lit in
      if v_seen v then Some (False, s)
      else if v_level v = 0 then Some (False, s)
      else if v_level v < length (levels s) then
        (let s1 = (if v_level v < level s then s\<lparr>clause := clause s @ [lit]\<rparr> else s);
             old = l_seen (levels s1 ! v_level v);
             s2 = s1\<lparr>levels := (levels s1)[v_level v := (levels s1 ! v_level v)\<lparr>l_seen := old + 1\<rparr>]\<rparr>;
             s3 = (if old = 0 then s2\<lparr>seen_levels := seen_levels s2 @ [v_level v]\<rparr> else s2);
             s4 = s3\<lparr>vars := (vars s3)(vidx lit := (vars s3 (vidx lit))\<lparr>v_seen := True\<rparr>),
                     seen_literals := seen_literals s3 @ [lit]\<rparr>
         in Some (v_level v = level s, s4))
      else None)"

text \<open>The loop over the literals of the current reason; \<open>opn\<close> is the counter \<open>open\<close>.\<close>

fun analyze_reason :: "int list \<Rightarrow> nat \<Rightarrow> Solver \<Rightarrow> (nat \<times> Solver) option" where
  "analyze_reason [] opn s = Some (opn, s)"
| "analyze_reason (lit # rest) opn s =
     (case analyze_literal s lit of
        None \<Rightarrow> None
      | Some (b, s1) \<Rightarrow> analyze_reason rest (if b then opn + 1 else opn) s1)"

text \<open>\<open>while (!var (uip = trail[--i]).seen)\<close>: returns the new \<open>i\<close>; running below the
  start of the trail fails.\<close>

fun find_seen :: "Solver \<Rightarrow> nat \<Rightarrow> nat option" where
  "find_seen s 0 = None"
| "find_seen s (Suc i) =
     (if i < length (trail s)
      then (if v_seen (var s (trail s ! i)) then Some i else find_seen s i)
      else None)"

text \<open>
  The \<open>for (;;)\<close> loop of \<open>analyze\<close>, entered with the address of the current reason;
  returns the first UIP. The counter \<open>open\<close> is an \<open>int\<close>.
\<close>

function analyze_loop :: "cref \<Rightarrow> int \<Rightarrow> nat \<Rightarrow> Solver \<Rightarrow> (int \<times> Solver) option" where
  "analyze_loop reason opn i s =
     (case heap s reason of
        None \<Rightarrow> None
      | Some c \<Rightarrow>
          (case analyze_reason (c_literals c) 0 s of
             None \<Rightarrow> None
           | Some (n, s1) \<Rightarrow>
               (case find_seen s1 i of
                  None \<Rightarrow> None
                | Some i' \<Rightarrow>
                    (let uip = trail s1 ! i'; opn' = opn + int n - 1 in
                     if opn' = 0 then Some (uip, s1)
                     else
                       (case v_reason (var s1 uip) of
                          None \<Rightarrow> None
                        | Some r \<Rightarrow> analyze_loop r opn' i' s1)))))"
  by pat_completeness auto

lemma find_seen_less: "find_seen s i = Some j \<Longrightarrow> j < i"
  by (induction i) (auto split: if_splits)

termination analyze_loop
proof (relation "measure (\<lambda>(reason, opn, i, s). i)", goal_cases)
  case 1
  show ?case by simp
next
  case (2 reason opn i s c x n s1 i' uip opn' r)
  then show ?case using find_seen_less by simp
qed

declare analyze_loop.simps [simp del]

text \<open>
  \<open>analyze\<close>. \<open>conflict\<close> must be set (the source dereferences it). \<open>std::sort\<close> with
  \<open>level_greater_than\<close> may order literals of one level either way; the model keeps
  their order. \<open>minimize_clause\<close> and \<open>check_clause\<close> do nothing.
\<close>

definition analyze :: "Solver \<Rightarrow> Solver option" where
  "analyze s =
     (case conflict s of
        None \<Rightarrow> None
      | Some confl \<Rightarrow>
          if level s = 0 then Some ((learn_empty_clause s)\<lparr>conflict := None\<rparr>)
          else do {
            s1 \<leftarrow> bump_clause s confl;
            (uip, s2) \<leftarrow> analyze_loop confl 0 (length (trail s1)) s1;
            let s3 = s2\<lparr>clause := clause s2 @ [- uip]\<rparr>;
            let sz = length (clause s3);
            let glue = int (length (seen_levels s3));
            let s4 = s3\<lparr>ema := (ema s3)\<lparr>learned_glue_slow :=
                          EMA_update (learned_glue_slow (ema s3)) (real_of_int glue)\<rparr>\<rparr>;
            let s5 = s4\<lparr>ema := (ema s4)\<lparr>learned_glue_fast :=
                          EMA_update (learned_glue_fast (ema s4)) (real_of_int glue)\<rparr>\<rparr>;
            (driving_clause, jmp, s6) \<leftarrow>
              (if sz = 1
               then Some (None, 0,
                      s5\<lparr>stats := (stats s5)\<lparr>learned_units := learned_units (stats s5) + 1\<rparr>\<rparr>)
               else do {
                 let t = s5\<lparr>clause := sort_by (level_greater_than s5) (clause s5)\<rparr>;
                 (c, t1) \<leftarrow> new_learned_clause t glue;
                 Some (Some c, v_level (var t1 (clause t1 ! 1)), t1)
               });
            let s7 = s6\<lparr>ema := (ema s6)\<lparr>jump := EMA_update (jump (ema s6)) (real jmp)\<rparr>\<rparr>;
            s8 \<leftarrow> backtrack s7 jmp;
            let s9 = assign s8 (- uip) driving_clause;
            let s10 = bump_and_clear_seen_literals s9 uip;
            let s11 = s10\<lparr>clause := []\<rparr>;
            let s12 = clear_levels s11;
            Some (s12\<lparr>conflict := None\<rparr>)
          })"

subsection \<open>Search\<close>

definition satisfied :: "Solver \<Rightarrow> bool" where
  "satisfied s = (length (trail s) = max_var s)"

definition decide :: "Solver \<Rightarrow> Solver option" where
  "decide s =
     do {
       let s1 = s\<lparr>level := level s + 1,
                  stats := (stats s)\<lparr>decisions := decisions (stats s) + 1\<rparr>\<rparr>;
       (idx, s2) \<leftarrow> next_decision_variable s1;
       let decision = phases s2 idx * int idx;
       let s3 = s2\<lparr>levels := levels s2 @ [\<lparr>l_decision = decision, l_seen = 0\<rparr>]\<rparr>;
       Some (assign s3 decision None)
     }"

definition iterate :: "Solver \<Rightarrow> Solver" where
  "iterate s = s\<lparr>iterating := False\<rparr>"

text \<open>
  One round of the loop of \<open>search\<close>: \<open>Inl\<close> when the loop sets \<open>res\<close> and ends (with
  \<open>res\<close> and the final state), \<open>Inr\<close> the state for the next round.
\<close>

definition search_step :: "Solver \<Rightarrow> ((int \<times> Solver) + Solver) option" where
  "search_step s =
     (if unsat s then Some (Inl (20, s))
      else
        (case propagate s of
           None \<Rightarrow> None
         | Some (ok, s1) \<Rightarrow>
             if \<not> ok then map_option Inr (analyze s1)
             else if iterating s1 then Some (Inr (iterate s1))
             else if satisfied s1 then Some (Inl (10, s1))
             else
               (let (r, s2) = restarting s1 in
                if r then map_option Inr (restart s2)
                else if reducing s2 then map_option Inr (reduce s2)
                else map_option Inr (decide s2))))"

text \<open>The loop of \<open>search\<close>, which nothing bounds: a partial function.\<close>

partial_function (option) search_loop :: "Solver \<Rightarrow> (int \<times> Solver) option" where
  "search_loop s =
     (case search_step s of
        None \<Rightarrow> None
      | Some (Inl r) \<Rightarrow> Some r
      | Some (Inr s') \<Rightarrow> search_loop s')"

definition solve :: "Solver \<Rightarrow> (int \<times> Solver) option" where
  "solve s = search_loop (init_solving s)"

subsection \<open>Reading the formula\<close>

text \<open>
  The part of \<open>parse_dimacs\<close> after the header, on the formula as a list of clauses, each
  the list of its literals before the terminating 0. A literal whose variable
  exceeds \<open>max_var\<close> is a parse error; a literal 0 cannot occur inside a clause.
\<close>

definition parse_clause :: "int list \<Rightarrow> Solver \<Rightarrow> Solver option" where
  "parse_clause lits s =
     (if \<exists>lit \<in> set lits. lit = 0 \<or> \<bar>lit\<bar> > int (max_var s) then None
      else
        (let s1 = s\<lparr>clause := lits\<rparr>;
             (taut, cl) = tautological (clause s1);
             s2 = s1\<lparr>clause := cl\<rparr>
         in case (if \<not> taut then add_new_original_clause s2 else Some s2) of
              None \<Rightarrow> None
            | Some s3 \<Rightarrow> Some (s3\<lparr>clause := []\<rparr>)))"

fun parse_clauses :: "int list list \<Rightarrow> Solver \<Rightarrow> Solver option" where
  "parse_clauses [] s = Some s"
| "parse_clauses (lits # rest) s =
     (case parse_clause lits s of None \<Rightarrow> None | Some s1 \<Rightarrow> parse_clauses rest s1)"

definition parse_dimacs :: "nat \<Rightarrow> int list list \<Rightarrow> Solver option" where
  "parse_dimacs n cls = parse_clauses cls (init_variables (static_init default_opts) n)"

text \<open>\<open>print_witness\<close>: the literal printed for each variable.\<close>

definition witness :: "Solver \<Rightarrow> int list" where
  "witness s = map (\<lambda>i. if val s (int i) < 0 then - int i else int i) [1 ..< max_var s + 1]"

text \<open>\<open>main\<close>, from the parsed header on: the exit code and, for 10, the witness.\<close>

definition cadical :: "nat \<Rightarrow> int list list \<Rightarrow> (int \<times> int list) option" where
  "cadical n cls =
     do {
       s \<leftarrow> parse_dimacs n cls;
       (res, s') \<leftarrow> solve s;
       Some (res, if res = 10 then witness s' else [])
     }"

subsection \<open>Invariants of the solver state\<close>

definition valid_lit :: "Solver \<Rightarrow> int \<Rightarrow> bool" where
  "valid_lit s l \<longleftrightarrow> l \<noteq> 0 \<and> vidx l \<le> max_var s"

text \<open>The position of a literal on a list (its length when the literal is not on it).\<close>

definition pos_of :: "int list \<Rightarrow> int \<Rightarrow> nat" where
  "pos_of xs x = length (takeWhile (\<lambda>y. y \<noteq> x) xs)"

definition lvl :: "Solver \<Rightarrow> int \<Rightarrow> nat" where
  "lvl s l = v_level (var s l)"

definition clauses_of :: "Solver \<Rightarrow> cref list" where
  "clauses_of s = irredundant s @ redundant s"

definition lits_of :: "Solver \<Rightarrow> cref \<Rightarrow> int list" where
  "lits_of s r = c_literals (the (heap s r))"

text \<open>
  The assignment: the literals of the trail are valid, true and distinct, and every
  assigned variable is on the trail.
\<close>

definition assignment_inv :: "Solver \<Rightarrow> bool" where
  "assignment_inv s \<longleftrightarrow>
     (\<forall>l \<in> set (trail s). valid_lit s l \<and> val s l = 1)
     \<and> distinct (trail s)
     \<and> (\<forall>idx \<in> {1..max_var s}. vals s idx \<noteq> 0 \<longrightarrow>
           (vals s idx = 1 \<and> int idx \<in> set (trail s))
           \<or> (vals s idx = - 1 \<and> - int idx \<in> set (trail s)))"

text \<open>
  Levels do not decrease along the trail and stay below the current level; the level
  stack has one entry per level.
\<close>

definition levels_inv :: "Solver \<Rightarrow> bool" where
  "levels_inv s \<longleftrightarrow>
     length (levels s) = level s + 1
     \<and> sorted (map (lvl s) (trail s))
     \<and> (\<forall>l \<in> set (trail s). lvl s l \<le> level s)"

text \<open>The decision of each level is on the trail, the first literal of its level.\<close>

definition decisions_inv :: "Solver \<Rightarrow> bool" where
  "decisions_inv s \<longleftrightarrow>
     (\<forall>k \<in> {1..level s}.
           l_decision (levels s ! k) \<in> set (trail s)
           \<and> lvl s (l_decision (levels s ! k)) = k
           \<and> (\<forall>l \<in> set (take (pos_of (trail s) (l_decision (levels s ! k))) (trail s)).
                 lvl s l < k))"

definition trail_inv :: "Solver \<Rightarrow> bool" where
  "trail_inv s \<longleftrightarrow> assignment_inv s \<and> levels_inv s \<and> decisions_inv s"

text \<open>The literals not yet propagated are those of the current level's tail.\<close>

definition pending_inv :: "Solver \<Rightarrow> bool" where
  "pending_inv s \<longleftrightarrow>
     propagate_next s \<le> length (trail s)
     \<and> (\<forall>l \<in> set (drop (propagate_next s) (trail s)). lvl s l = level s)"

text \<open>
  The decision heuristics: the links of the queue stay within the variables, and every
  saved phase is a sign.
\<close>

definition queue_inv :: "Solver \<Rightarrow> bool" where
  "queue_inv s \<longleftrightarrow>
     q_next (queue s) \<le> max_var s \<and> q_last (queue s) \<le> max_var s
     \<and> q_first (queue s) \<le> max_var s
     \<and> (\<forall>idx \<in> {1..max_var s}.
           v_prev (vars s idx) \<le> max_var s \<and> v_next (vars s idx) \<le> max_var s)
     \<and> (\<forall>idx. phases s idx = 1 \<or> phases s idx = - 1)"

definition root_sat :: "Solver \<Rightarrow> int list \<Rightarrow> bool" where
  "root_sat s lits \<longleftrightarrow> (\<exists>l \<in> set lits. val s l > 0 \<and> lvl s l = 0)"

text \<open>The number of watches of the clause \<open>r\<close> on the list of the literal \<open>l\<close>.\<close>

definition wcount :: "Solver \<Rightarrow> int \<Rightarrow> cref \<Rightarrow> nat" where
  "wcount s l r = length (filter (\<lambda>w. w_clause w = r) (watches s l))"

definition wanted :: "int list \<Rightarrow> int \<Rightarrow> nat" where
  "wanted lits l = (if l = lits ! 0 then 1 else 0) + (if l = lits ! 1 then 1 else 0)"

text \<open>
  The clause store: the two clause vectors hold distinct allocated addresses and nothing
  else is allocated; every clause has its size, at least two literals, all valid, and is
  not flagged garbage.
\<close>

definition store_inv :: "Solver \<Rightarrow> bool" where
  "store_inv s \<longleftrightarrow>
     distinct (clauses_of s)
     \<and> dom (heap s) = set (clauses_of s)
     \<and> (\<forall>r \<in> set (clauses_of s). r < next_cref s)
     \<and> (\<forall>r \<in> set (clauses_of s).
           c_size (the (heap s r)) = length (lits_of s r)
           \<and> 2 \<le> length (lits_of s r)
           \<and> (\<forall>l \<in> set (lits_of s r). valid_lit s l)
           \<and> \<not> c_garbage (the (heap s r)))"

text \<open>
  One watch on the list of \<open>l\<close>: it belongs to a clause in the store and caches its size;
  the blocking literal is in the clause and, in a binary clause, is the other literal.
\<close>

definition watch_ok :: "Solver \<Rightarrow> int \<Rightarrow> Watch \<Rightarrow> bool" where
  "watch_ok s l w \<longleftrightarrow>
     w_clause w \<in> set (clauses_of s)
     \<and> w_size w = c_size (the (heap s (w_clause w)))
     \<and> w_blit w \<in> set (lits_of s (w_clause w))
     \<and> (w_size w = 2 \<longrightarrow>
          (l = lits_of s (w_clause w) ! 0 \<and> w_blit w = lits_of s (w_clause w) ! 1)
          \<or> (l = lits_of s (w_clause w) ! 1 \<and> w_blit w = lits_of s (w_clause w) ! 0))"

text \<open>
  Every watch is in order, a clause has at most one watch for each of its first two
  literals, and exactly those unless a literal of the clause is true at level 0.
\<close>

definition watches_inv :: "Solver \<Rightarrow> bool" where
  "watches_inv s \<longleftrightarrow>
     (\<forall>l. \<forall>w \<in> set (watches s l). watch_ok s l w)
     \<and> (\<forall>r \<in> set (clauses_of s). \<forall>l.
           wcount s l r \<le> wanted (lits_of s r) l
           \<and> (\<not> root_sat s (lits_of s r) \<longrightarrow> wcount s l r = wanted (lits_of s r) l))"

text \<open>
  The watched literals, for the trail up to position \<open>n\<close>: when one of the first two
  literals of a clause is false and its complement lies on the trail before \<open>n\<close>, the
  clause has a true literal of no higher level (or a literal true at level 0).
\<close>

definition watched_inv :: "Solver \<Rightarrow> nat \<Rightarrow> bool" where
  "watched_inv s n \<longleftrightarrow>
     (\<forall>r \<in> set (clauses_of s). \<not> root_sat s (lits_of s r) \<longrightarrow>
        (\<forall>p \<in> {0, 1}.
           val s (lits_of s r ! p) < 0 \<and> pos_of (trail s) (- (lits_of s r ! p)) < n \<longrightarrow>
           (\<exists>t \<in> set (lits_of s r). val s t > 0 \<and> lvl s t \<le> lvl s (lits_of s r ! p))))"

text \<open>
  Reasons: a literal assigned above level 0 without a reason is the decision of its level;
  otherwise its reason is a clause of the store that contains it and whose other
  literals are false and were assigned before it.
\<close>

definition reasons_inv :: "Solver \<Rightarrow> bool" where
  "reasons_inv s \<longleftrightarrow>
     (\<forall>l \<in> set (trail s). lvl s l > 0 \<longrightarrow>
        (case v_reason (var s l) of
           None \<Rightarrow> l = l_decision (levels s ! lvl s l)
         | Some r \<Rightarrow>
             r \<in> set (clauses_of s) \<and> l \<in> set (lits_of s r)
             \<and> (\<forall>l' \<in> set (lits_of s r). l' \<noteq> l \<longrightarrow>
                   val s l' < 0 \<and> pos_of (trail s) (- l') < pos_of (trail s) l)))"

text \<open>The working storage of \<open>analyze\<close> is clear.\<close>

definition scratch_inv :: "Solver \<Rightarrow> bool" where
  "scratch_inv s \<longleftrightarrow>
     clause s = [] \<and> seen_literals s = [] \<and> seen_levels s = []
     \<and> (\<forall>idx. \<not> v_seen (vars s idx))
     \<and> (\<forall>lv \<in> set (levels s). l_seen lv = 0)"

text \<open>The invariant of the states between the operations of \<open>search\<close>.\<close>

definition solver_inv :: "Solver \<Rightarrow> bool" where
  "solver_inv s \<longleftrightarrow>
     trail_inv s \<and> pending_inv s \<and> queue_inv s \<and> store_inv s \<and> watches_inv s
     \<and> watched_inv s (propagate_next s) \<and> reasons_inv s \<and> scratch_inv s
     \<and> conflict s = None"

text \<open>
  \<open>backtracked s t s'\<close>: \<open>s'\<close> is \<open>s\<close> with the trail cut before the decision of level
  \<open>t + 1\<close>, the cut-off variables unassigned, the level stack cut to \<open>t + 1\<close> entries, and
  the queue cursor possibly moved to one of the unassigned variables.
\<close>

definition backtracked :: "Solver \<Rightarrow> nat \<Rightarrow> Solver \<Rightarrow> bool" where
  "backtracked s t s' \<longleftrightarrow>
     l_decision (levels s ! (t + 1)) \<in> set (trail s)
     \<and> (\<exists>qn. s' = s\<lparr>vals := (\<lambda>idx. if idx \<in> vidx ` set (drop (pos_of (trail s)
                                   (l_decision (levels s ! (t + 1)))) (trail s))
                                  then 0 else vals s idx),
                   queue := (queue s)\<lparr>q_next := qn\<rparr>,
                   trail := take (pos_of (trail s) (l_decision (levels s ! (t + 1)))) (trail s),
                   propagate_next := min (propagate_next s)
                      (pos_of (trail s) (l_decision (levels s ! (t + 1)))),
                   levels := take (t + 1) (levels s),
                   level := t\<rparr>
          \<and> (qn = q_next (queue s)
             \<or> qn \<in> vidx ` set (drop (pos_of (trail s) (l_decision (levels s ! (t + 1))))
                                   (trail s))))"

text \<open>The defining equations of the unbounded loops serve to run the solver on an input.\<close>

declare search_loop.simps [code] propagate_loop.simps [code] propagate_watches.simps [code]
  next_decision_variable.simps [code]

subsection \<open>Invariants of conflict analysis\<close>

text \<open>
  \<open>seen_frame s s1\<close>: the loop of \<open>analyze\<close> has led from \<open>s\<close> to \<open>s1\<close>; only the learned
  clause under construction, the seen flags and counters and the two seen stacks differ.
\<close>

definition seen_frame :: "Solver \<Rightarrow> Solver \<Rightarrow> bool" where
  "seen_frame s s1 \<longleftrightarrow>
     s1\<lparr>clause := clause s, seen_levels := seen_levels s, seen_literals := seen_literals s,
        levels := levels s, vars := vars s\<rparr> = s
     \<and> length (levels s1) = length (levels s)
     \<and> (\<forall>k < length (levels s). l_decision (levels s1 ! k) = l_decision (levels s ! k))
     \<and> (\<forall>idx. (vars s1 idx)\<lparr>v_seen := v_seen (vars s idx)\<rparr> = vars s idx)"

text \<open>
  The invariant of the loop of \<open>analyze\<close>, with \<open>i\<close> the trail position and \<open>opn\<close> the
  counter \<open>open\<close>: the seen literals are distinct false literals above level 0, the seen
  flags mark their variables, the clause collects those below the current level, the
  seen levels are their levels, once each, and \<open>open\<close> counts the seen literals of the
  current level whose complements lie on the trail before \<open>i\<close>.
\<close>

definition an_inv :: "Solver \<Rightarrow> nat \<Rightarrow> int \<Rightarrow> Solver \<Rightarrow> bool" where
  "an_inv s i opn s1 \<longleftrightarrow>
     seen_frame s s1
     \<and> distinct (seen_literals s1)
     \<and> (\<forall>idx. v_seen (vars s1 idx) \<longleftrightarrow> idx \<in> vidx ` set (seen_literals s1))
     \<and> (\<forall>l \<in> set (seen_literals s1). valid_lit s l \<and> val s l < 0 \<and> 0 < lvl s l)
     \<and> clause s1 = filter (\<lambda>l. lvl s l < level s) (seen_literals s1)
     \<and> distinct (seen_levels s1)
     \<and> set (seen_levels s1) = lvl s ` set (seen_literals s1)
     \<and> (\<forall>k < length (levels s). l_seen (levels s1 ! k) = 0 \<longleftrightarrow> k \<notin> set (seen_levels s1))
     \<and> opn = int (length (filter (\<lambda>l. lvl s l = level s \<and> pos_of (trail s) (- l) < i)
                           (seen_literals s1)))"

text \<open>
  The conflict, when there is one, is a clause of the store all of whose literals are false,
  one of them at the current level.
\<close>

definition conflict_ok :: "Solver \<Rightarrow> bool" where
  "conflict_ok s \<longleftrightarrow>
     (case conflict s of
        None \<Rightarrow> True
      | Some r \<Rightarrow> r \<in> set (clauses_of s) \<and> (\<forall>l \<in> set (lits_of s r). val s l < 0)
          \<and> (\<exists>l \<in> set (lits_of s r). lvl s l = level s))"

text \<open>
  \<open>same_core s s'\<close>: the two states agree on everything the invariants of the assignment,
  the store and the watches read; flags, counters, averages, the queue and the working
  storage of \<open>analyze\<close> may differ.
\<close>

definition same_core :: "Solver \<Rightarrow> Solver \<Rightarrow> bool" where
  "same_core s s' \<longleftrightarrow>
     trail s' = trail s \<and> vals s' = vals s \<and> level s' = level s \<and> max_var s' = max_var s
     \<and> irredundant s' = irredundant s \<and> redundant s' = redundant s
     \<and> all_literal_watches s' = all_literal_watches s
     \<and> propagate_next s' = propagate_next s \<and> next_cref s' = next_cref s
     \<and> dom (heap s') = dom (heap s)
     \<and> (\<forall>r. c_literals (the (heap s' r)) = c_literals (the (heap s r))
           \<and> c_size (the (heap s' r)) = c_size (the (heap s r))
           \<and> c_garbage (the (heap s' r)) = c_garbage (the (heap s r)))
     \<and> (\<forall>idx. v_level (vars s' idx) = v_level (vars s idx)
           \<and> v_reason (vars s' idx) = v_reason (vars s idx))
     \<and> length (levels s') = length (levels s)
     \<and> (\<forall>k < length (levels s). l_decision (levels s' ! k) = l_decision (levels s ! k))"

text \<open>
  \<open>learnt s2 uip drv jmp s7\<close>: the part of \<open>analyze\<close> between its loop and \<open>backtrack\<close> has
  led from \<open>s2\<close> to \<open>s7\<close>. The learned literals are in \<open>clause\<close>; unless there is only
  one, they are sorted, stored as a new redundant clause \<open>drv\<close> at the next free address
  and watched on the first two, and \<open>jmp\<close> is the level of the second.
\<close>

definition learnt :: "Solver \<Rightarrow> int \<Rightarrow> cref option \<Rightarrow> nat \<Rightarrow> Solver \<Rightarrow> bool" where
  "learnt s2 uip drv jmp s7 \<longleftrightarrow>
     (let lits = sort_by (level_greater_than s2) (clause s2 @ [- uip]);
          r = next_cref s2
      in clause s7 = lits
         \<and> trail s7 = trail s2 \<and> vals s7 = vals s2 \<and> vars s7 = vars s2
         \<and> levels s7 = levels s2 \<and> level s7 = level s2 \<and> queue s7 = queue s2
         \<and> propagate_next s7 = propagate_next s2 \<and> max_var s7 = max_var s2
         \<and> irredundant s7 = irredundant s2 \<and> conflict s7 = conflict s2
         \<and> seen_literals s7 = seen_literals s2 \<and> seen_levels s7 = seen_levels s2
         \<and> unsat s7 = unsat s2
         \<and> (if length lits = 1
             then drv = None \<and> jmp = 0 \<and> heap s7 = heap s2 \<and> redundant s7 = redundant s2
                  \<and> next_cref s7 = r \<and> all_literal_watches s7 = all_literal_watches s2
                  \<and> learned_units (stats s7) = learned_units (stats s2) + 1
             else drv = Some r \<and> jmp = lvl s2 (lits ! 1)
                  \<and> heap s7 = (heap s2)(r \<mapsto>
                        \<lparr>c_redundant = True, c_garbage = False, c_reason = False,
                         c_size = length lits, c_glue = int (length (seen_levels s2)),
                         c_resolved = conflicts (stats s2), c_literals = lits\<rparr>)
                  \<and> redundant s7 = redundant s2 @ [r] \<and> next_cref s7 = r + 1
                  \<and> all_literal_watches s7 =
                       (\<lambda>l. all_literal_watches s2 l
                          @ (if l = lits ! 0
                             then [\<lparr>w_blit = lits ! 1, w_size = length lits, w_clause = r\<rparr>]
                             else [])
                          @ (if l = lits ! 1
                             then [\<lparr>w_blit = lits ! 0, w_size = length lits, w_clause = r\<rparr>]
                             else []))))"

text \<open>\<open>bump_frame s s'\<close>: bumping has led from \<open>s\<close> to \<open>s'\<close>; only the variables' links,
  stamps and flags, the queue, the statistics and the seen stack differ.\<close>

definition bump_frame :: "Solver \<Rightarrow> Solver \<Rightarrow> bool" where
  "bump_frame s s' \<longleftrightarrow>
     s'\<lparr>vars := vars s, queue := queue s, stats := stats s,
        seen_literals := seen_literals s\<rparr> = s"

text \<open>
  A state with a conflict at level 2, as \<open>search\<close> reaches it on the formula with the clauses
  \<open>3 2 1\<close> and \<open>3 2 -1\<close>: the decisions \<open>-3\<close> and \<open>-2\<close>, then \<open>1\<close> forced by the first
  clause, which falsifies the second.
\<close>

definition conflict_state :: Solver where
  "conflict_state =
     (let s = init_solving (init_variables (static_init default_opts) 3) in
      s\<lparr>heap := [0 \<mapsto> \<lparr>c_redundant = False, c_garbage = False, c_reason = False, c_size = 3,
                        c_glue = 0, c_resolved = 0, c_literals = [1, 2, 3]\<rparr>,
                  1 \<mapsto> \<lparr>c_redundant = False, c_garbage = False, c_reason = False, c_size = 3,
                        c_glue = 0, c_resolved = 0, c_literals = [- 1, 2, 3]\<rparr>],
        next_cref := 2,
        irredundant := [0, 1],
        vals := (\<lambda>_. 0)(1 := 1, 2 := - 1, 3 := - 1),
        phases := (phases s)(1 := 1),
        vars := (vars s)(1 := (vars s 1)\<lparr>v_level := 2, v_reason := Some 0\<rparr>,
                         2 := (vars s 2)\<lparr>v_level := 2\<rparr>,
                         3 := (vars s 3)\<lparr>v_level := 1\<rparr>),
        trail := [- 3, - 2, 1],
        level := 2,
        levels := [\<lparr>l_decision = 0, l_seen = 0\<rparr>, \<lparr>l_decision = - 3, l_seen = 0\<rparr>,
                   \<lparr>l_decision = - 2, l_seen = 0\<rparr>],
        propagate_next := 2,
        conflict := Some 1,
        queue := \<lparr>q_first = 1, q_last = 3, q_next = 2\<rparr>,
        all_literal_watches := (\<lambda>_. [])
          (- 1 := [\<lparr>w_blit = 2, w_size = 3, w_clause = 1\<rparr>],
           1 := [\<lparr>w_blit = 2, w_size = 3, w_clause = 0\<rparr>],
           2 := [\<lparr>w_blit = 1, w_size = 3, w_clause = 0\<rparr>,
                 \<lparr>w_blit = - 1, w_size = 3, w_clause = 1\<rparr>])\<rparr>)"

text \<open>The quantities \<open>restarting\<close> compares, as it computes them.\<close>

definition glue_fast :: "Solver \<Rightarrow> double" where
  "glue_fast s = to_double (e_value (learned_glue_fast (ema s)))"

definition restart_limit :: "Solver \<Rightarrow> double" where
  "restart_limit s =
     double_mul (double_add (Finite 1) (to_double (restartmargin (opts s))))
                (to_double (e_value (learned_glue_slow (ema s))))"

definition delay_limit :: "Solver \<Rightarrow> double" where
  "delay_limit s =
     double_mul (to_double (restartdelaylim (opts s))) (to_double (e_value (jump (ema s))))"

subsection \<open>The first unique implication point\<close>

text \<open>
  \<open>analysed s confl p\<close>: the literals above level 0 of the conflict clause and of the reasons
  of those analysed literals of the conflict level whose complements lie on the trail
  behind position \<open>p\<close>, the literals resolved on.
\<close>

inductive_set analysed :: "Solver \<Rightarrow> cref \<Rightarrow> nat \<Rightarrow> int set" for s :: Solver and confl :: cref and p :: nat
where
  conflict_lit: "l \<in> set (lits_of s confl) \<Longrightarrow> 0 < lvl s l \<Longrightarrow> l \<in> analysed s confl p"
| reason_lit: "l \<in> analysed s confl p \<Longrightarrow> lvl s l = level s \<Longrightarrow> p < pos_of (trail s) (- l) \<Longrightarrow>
     v_reason (var s l) = Some r \<Longrightarrow> l' \<in> set (lits_of s r) \<Longrightarrow> l' \<noteq> - l \<Longrightarrow> 0 < lvl s l' \<Longrightarrow>
     l' \<in> analysed s confl p"

text \<open>
  The resolvent of the conflict clause with the reasons of the literals of the conflict
  level assigned behind position \<open>p\<close>, in trail order from the end, without the literals of
  level 0: the analysed literals except those resolved on.
\<close>

definition resolvent :: "Solver \<Rightarrow> cref \<Rightarrow> nat \<Rightarrow> int set" where
  "resolvent s confl p =
     {l \<in> analysed s confl p. lvl s l < level s \<or> pos_of (trail s) (- l) \<le> p}"

text \<open>
  Position \<open>p\<close> of the trail holds a unique implication point when the complement of its
  literal is the only literal of the conflict level in the resolvent; the first one is the
  one nearest to the end of the trail.
\<close>

definition uip_at :: "Solver \<Rightarrow> cref \<Rightarrow> nat \<Rightarrow> bool" where
  "uip_at s confl p \<longleftrightarrow>
     p < length (trail s)
     \<and> {l \<in> resolvent s confl p. lvl s l = level s} = {- (trail s ! p)}"

definition first_uip :: "Solver \<Rightarrow> cref \<Rightarrow> int \<Rightarrow> bool" where
  "first_uip s confl u \<longleftrightarrow>
     u \<in> set (trail s) \<and> uip_at s confl (pos_of (trail s) u)
     \<and> (\<forall>q. pos_of (trail s) u < q \<and> q < length (trail s) \<longrightarrow> \<not> uip_at s confl q)"

text \<open>
  The state of the analysis when the loop of \<open>analyze\<close> is entered with the clause \<open>reason\<close>
  and the trail position \<open>i\<close>: with the false literals of \<open>reason\<close> above level 0 added,
  the seen literals are analysed literals for every earlier position, contain those of
  the conflict, are closed under the reasons of their literals of the conflict level from
  position \<open>i\<close> on, and no position from \<open>i\<close> on holds a unique implication point.
\<close>

definition an_entry :: "Solver \<Rightarrow> cref \<Rightarrow> cref \<Rightarrow> nat \<Rightarrow> Solver \<Rightarrow> bool" where
  "an_entry s confl reason i s1 \<longleftrightarrow>
     (let S = set (seen_literals s1) \<union> {l \<in> set (lits_of s reason). 0 < lvl s l \<and> val s l < 0}
      in (\<forall>j < i. S \<subseteq> analysed s confl j)
         \<and> {l \<in> set (lits_of s confl). 0 < lvl s l} \<subseteq> S
         \<and> (\<forall>l \<in> S. \<forall>r. \<forall>l' \<in> set (lits_of s r).
               lvl s l = level s \<and> i \<le> pos_of (trail s) (- l) \<and> v_reason (var s l) = Some r
               \<and> l' \<noteq> - l \<and> 0 < lvl s l' \<longrightarrow> l' \<in> S)
         \<and> (\<forall>q. i \<le> q \<and> q < length (trail s) \<longrightarrow> \<not> uip_at s confl q))"

subsection \<open>Invariants of propagation\<close>

text \<open>
  The state inside the inner loop of \<open>propagate\<close>, while the watches of \<open>-lit\<close> are
  visited: \<open>lit\<close> is the literal before the cursor, a literal of the current level, and
  the watched literals are in order for the trail before \<open>lit\<close>.
\<close>

definition inner_inv :: "int \<Rightarrow> Solver \<Rightarrow> bool" where
  "inner_inv lit s \<longleftrightarrow>
     trail_inv s \<and> pending_inv s \<and> queue_inv s \<and> store_inv s \<and> watches_inv s
     \<and> reasons_inv s \<and> scratch_inv s \<and> conflict_ok s
     \<and> 0 < propagate_next s \<and> trail s ! (propagate_next s - 1) = lit
     \<and> lvl s lit = level s
     \<and> watched_inv s (propagate_next s - 1)"

text \<open>A visited clause whose watch was kept has a true literal or is the conflict.\<close>

definition guarded :: "Solver \<Rightarrow> cref \<Rightarrow> bool" where
  "guarded s r \<longleftrightarrow> (\<exists>t \<in> set (lits_of s r). val s t > 0) \<or> conflict s = Some r"

text \<open>Replacing the literals of a clause by a rearrangement of them.\<close>

definition set_lits :: "Solver \<Rightarrow> cref \<Rightarrow> int list \<Rightarrow> Solver" where
  "set_lits s r lits = s\<lparr>heap := (heap s)(r \<mapsto> (the (heap s r))\<lparr>c_literals := lits\<rparr>)\<rparr>"

text \<open>The state with the list of \<open>-lit\<close> as the source holds it during the inner loop.\<close>

definition live :: "Solver \<Rightarrow> int \<Rightarrow> Watch list \<Rightarrow> Solver" where
  "live s lit ws = s\<lparr>all_literal_watches := (all_literal_watches s)(- lit := ws)\<rparr>"

definition visit_inv :: "int \<Rightarrow> Watch list \<Rightarrow> Watch list \<Rightarrow> Solver \<Rightarrow> bool" where
  "visit_inv lit kept todo s \<longleftrightarrow>
     inner_inv lit (live s lit (kept @ todo)) \<and> (\<forall>w \<in> set kept. guarded s (w_clause w))"

text \<open>The invariant of the outer loop of \<open>propagate\<close>, and of the state it returns.\<close>

definition prop_inv :: "Solver \<Rightarrow> bool" where
  "prop_inv s \<longleftrightarrow>
     trail_inv s \<and> pending_inv s \<and> queue_inv s \<and> store_inv s \<and> watches_inv s
     \<and> reasons_inv s \<and> scratch_inv s \<and> conflict_ok s
     \<and> (conflict s = None \<longrightarrow> watched_inv s (propagate_next s))
     \<and> (conflict s \<noteq> None \<longrightarrow> 0 < propagate_next s \<and> watched_inv s (propagate_next s - 1)
          \<and> lvl s (trail s ! (propagate_next s - 1)) = level s)"

section \<open>Verified properties\<close>

subsection \<open>Exponential moving averages\<close>

lemma EMA_update_alpha: "e_alpha (EMA_update e y) = e_alpha e"
  by (simp add: EMA_update_def Let_def)

lemma pow2_unique: "(2::nat) ^ k \<le> m \<Longrightarrow> m < 2 ^ (k + 1) \<Longrightarrow> 2 ^ j \<le> m \<Longrightarrow> m < 2 ^ (j + 1) \<Longrightarrow> j = k"
proof (rule ccontr)
  assume a: "2 ^ k \<le> m" "m < 2 ^ (k + 1)" "2 ^ j \<le> m" "m < 2 ^ (j + 1)" and ne: "j \<noteq> k"
  then consider "j < k" | "k < j" by linarith
  then show False
  proof cases
    case 1
    then have "(2::nat) ^ (j + 1) \<le> 2 ^ k" by (intro power_increasing) auto
    with a show False by linarith
  next
    case 2
    then have "(2::nat) ^ (k + 1) \<le> 2 ^ j" by (intro power_increasing) auto
    with a show False by linarith
  qed
qed

lemma pow2_ex: "0 < m \<Longrightarrow> \<exists>k. (2::nat) ^ k \<le> m \<and> m < 2 ^ (k + 1)"
proof (induction m rule: less_induct)
  case (less m)
  show ?case
  proof (cases "m = 1")
    case True
    then show ?thesis by (intro exI[of _ 0]) simp
  next
    case False
    with less.prems have "0 < m div 2" "m div 2 < m" by auto
    from less.IH[OF this(2) this(1)] obtain k where k: "2 ^ k \<le> m div 2" "m div 2 < 2 ^ (k + 1)" by blast
    have "2 ^ (k + 1) \<le> m" using k(1) by (simp; linarith?)
    moreover have "m < 2 ^ (k + 1 + 1)" using k(2) by (simp; linarith?)
    ultimately show ?thesis by blast
  qed
qed

lemma warm_init: "a \<le> 1 \<Longrightarrow> warm a 0 (EMA_init a)"
proof -
  assume a: "a \<le> 1"
  have k0: "k = 0" if "2 ^ k \<le> Suc 0" for k
  proof (rule ccontr)
    assume "k \<noteq> 0"
    then have "(2::nat) ^ 1 \<le> 2 ^ k" by (intro power_increasing) auto
    with that show False by simp
  qed
  show ?thesis
    unfolding warm_def EMA_init_def using a by (auto dest!: k0)
qed

lemma warm_step:
  assumes w: "warm a n e" and a: "a \<le> 1"
  shows "warm a (Suc n) (EMA_update e y)"
proof -
  obtain k where k: "2 ^ k \<le> n + 1" "n + 1 < 2 ^ (k + 1)"
    using pow2_ex[of "n + 1"] by auto
  from w k have al: "e_alpha e = a" and b: "e_beta e = max a ((1/2) ^ k)"
    and pw: "a < e_beta e \<Longrightarrow> e_period e = 2 ^ k - 1 \<and> e_wait e = 2 ^ (k + 1) - 2 - int n"
    unfolding warm_def by blast+
  have ik: "(2::int) ^ k \<le> int n + 1" "int n + 1 < 2 ^ (k + 1)"
    using k by (metis of_nat_le_iff of_nat_power of_nat_numeral of_nat_Suc Suc_eq_plus1 of_nat_add of_nat_1, 
                metis of_nat_less_iff of_nat_power of_nat_numeral of_nat_add of_nat_1)
  have A: "e_alpha (EMA_update e y) = a" by (simp add: EMA_update_alpha al)
  have B: "e_beta (EMA_update e y) = max a ((1 / 2) ^ k')"
    if k': "2 ^ k' \<le> Suc n + 1 \<and> Suc n + 1 < 2 ^ (k' + 1)" for k'
  proof -
    consider (same) "n + 2 < 2 ^ (k + 1)" | (jump) "n + 2 = 2 ^ (k + 1)"
      using k by linarith
    then show ?thesis
    proof cases
      case same
      then have "k' = k" using k k' by (intro pow2_unique[of k "Suc n + 1" k']) auto
      moreover have "e_beta (EMA_update e y) = e_beta e"
      proof (cases "a < e_beta e")
        case True
        have "int n + 2 < 2 ^ (k + 1)" using same
          by (metis of_nat_less_iff of_nat_power of_nat_numeral of_nat_add)
        with pw True have "e_wait e \<noteq> 0" by simp
        with True al show ?thesis by (simp add: EMA_update_def Let_def)
      next
        case False
        with al show ?thesis by (simp add: EMA_update_def Let_def)
      qed
      ultimately show ?thesis using b by simp
    next
      case jump
      then have kk: "k' = k + 1" using k' by (intro pow2_unique[of "k+1" "Suc n + 1" k']) auto
      show ?thesis
      proof (cases "a < e_beta e")
        case True
        have "int n + 2 = 2 ^ (k + 1)" using jump
          by (metis of_nat_power of_nat_numeral of_nat_add)
        with pw True have "e_wait e = 0" by simp
        with True al b kk show ?thesis by (auto simp add: EMA_update_def Let_def max_def)
      next
        case False
        then have "e_beta (EMA_update e y) = e_beta e" using al by (simp add: EMA_update_def Let_def)
        moreover from False b have "(1/2) ^ k \<le> a" "e_beta e = a" by (auto simp: max_def split: if_splits)
        moreover have "(1/2::real) ^ (k + 1) \<le> (1/2) ^ k"
          by (rule power_decreasing) auto
        ultimately have "(1/2::real) ^ k' \<le> a" "e_beta (EMA_update e y) = a"
          unfolding kk by linarith+
        then show ?thesis by (simp add: max_def)
      qed
    qed
  qed
  have C: "e_period (EMA_update e y) = 2 ^ k' - 1 \<and>
          e_wait (EMA_update e y) = 2 ^ (k' + 1) - 2 - int (Suc n)"
    if k': "2 ^ k' \<le> Suc n + 1 \<and> Suc n + 1 < 2 ^ (k' + 1)"
      and act: "a < e_beta (EMA_update e y)" for k'
  proof -
    have act0: "a < e_beta e"
    proof (rule ccontr)
      assume "\<not> a < e_beta e"
      then have "e_beta (EMA_update e y) = e_beta e" using al by (simp add: EMA_update_def Let_def)
      with act \<open>\<not> a < e_beta e\<close> show False by simp
    qed
    note p = pw[OF act0]
    consider (same) "n + 2 < 2 ^ (k + 1)" | (jump) "n + 2 = 2 ^ (k + 1)"
      using k by linarith
    then show ?thesis
    proof cases
      case same
      then have kk: "k' = k" using k k' by (intro pow2_unique[of k "Suc n + 1" k']) auto
      have "int n + 2 < 2 ^ (k + 1)" using same
        by (metis of_nat_less_iff of_nat_power of_nat_numeral of_nat_add)
      with p have "e_wait e \<noteq> 0" by simp
      with act0 al p kk show ?thesis by (simp add: EMA_update_def Let_def)
    next
      case jump
      then have kk: "k' = k + 1" using k' by (intro pow2_unique[of "k+1" "Suc n + 1" k']) auto
      have e: "int n + 2 = 2 ^ (k + 1)" using jump
        by (metis of_nat_power of_nat_numeral of_nat_add)
      with p have "e_wait e = 0" by simp
      with act0 al p kk e show ?thesis by (simp add: EMA_update_def Let_def)
    qed
  qed
  show ?thesis unfolding warm_def using A B C by blast
qed

lemma warm_updates: "a \<le> 1 \<Longrightarrow> warm a (length ys) (EMA_updates (EMA_init a) ys)"
proof (induction ys rule: rev_induct)
  case Nil
  then show ?case by (simp add: EMA_updates_def warm_init)
next
  case (snoc y ys)
  then show ?case using warm_step[of a "length ys" "EMA_updates (EMA_init a) ys" y]
    by (simp add: EMA_updates_def)
qed

text \<open>
  C4 (as stated, refuted): the claim lets the schedule advance exactly when \<open>wait\<close> has
  just reached zero. With \<open>beta = 1/2 > alpha\<close>, \<open>wait = 1\<close> and \<open>period = 1\<close> the update
  brings \<open>wait\<close> to zero, yet \<open>period\<close> is not set to \<open>2 * (1 + 1) - 1\<close> and \<open>beta\<close> is not halved.
\<close>

theorem EMA_update_wait_reaches_zero_counterexample:
  "e_wait (EMA_update \<lparr>e_value = 0, e_alpha = 3/100, e_beta = 1/2, e_wait = 1, e_period = 1\<rparr> 5) = 0
   \<and> e_period (EMA_update \<lparr>e_value = 0, e_alpha = 3/100, e_beta = 1/2, e_wait = 1, e_period = 1\<rparr> 5)
       \<noteq> 2 * (1 + 1) - 1
   \<and> e_beta (EMA_update \<lparr>e_value = 0, e_alpha = 3/100, e_beta = 1/2, e_wait = 1, e_period = 1\<rparr> 5)
       = 1/2"
  by (simp add: EMA_update_def Let_def)

text \<open>
  C4 (amended): an update with observation \<open>y\<close> sets \<open>value\<close> to
  \<open>value + beta * (y - value)\<close>; if \<open>beta \<le> alpha\<close> nothing else changes; otherwise, if
  \<open>wait\<close> was nonzero before the update it is decremented, and if \<open>wait\<close> was already zero
  then \<open>period\<close> becomes \<open>2 * (period + 1) - 1\<close>, \<open>wait\<close> is set to the new period and \<open>beta\<close>
  is halved and clamped up to \<open>alpha\<close>. Consequently, for a fresh average with target
  \<open>a \<le> 1\<close>, the \<open>beta\<close> in force after \<open>n\<close> updates is \<open>2 ^ -k\<close> clamped up to \<open>a\<close>, where
  \<open>2 ^ k \<le> n + 1 < 2 ^ (k + 1)\<close>: the value 1 is used for one update, 1/2 for two, 1/4 for
  four, and so on until \<open>a\<close> is reached.
\<close>

theorem EMA_update_schedule:
  "EMA_update e y =
     (if e_beta e \<le> e_alpha e
      then e\<lparr>e_value := e_value e + e_beta e * (y - e_value e)\<rparr>
      else if e_wait e \<noteq> 0
      then e\<lparr>e_value := e_value e + e_beta e * (y - e_value e), e_wait := e_wait e - 1\<rparr>
      else e\<lparr>e_value := e_value e + e_beta e * (y - e_value e),
             e_wait := 2 * (e_period e + 1) - 1,
             e_period := 2 * (e_period e + 1) - 1,
             e_beta := max (e_alpha e) (e_beta e / 2)\<rparr>)
   \<and> (a \<le> 1 \<and> 2 ^ k \<le> length ys + 1 \<and> length ys + 1 < 2 ^ (k + 1)
        \<longrightarrow> e_beta (EMA_updates (EMA_init a) ys) = max a ((1/2) ^ k))"
proof (intro conjI impI)
  show "EMA_update e y =
     (if e_beta e \<le> e_alpha e
      then e\<lparr>e_value := e_value e + e_beta e * (y - e_value e)\<rparr>
      else if e_wait e \<noteq> 0
      then e\<lparr>e_value := e_value e + e_beta e * (y - e_value e), e_wait := e_wait e - 1\<rparr>
      else e\<lparr>e_value := e_value e + e_beta e * (y - e_value e),
             e_wait := 2 * (e_period e + 1) - 1,
             e_period := 2 * (e_period e + 1) - 1,
             e_beta := max (e_alpha e) (e_beta e / 2)\<rparr>)"
    by (simp add: EMA_update_def Let_def max_def)
next
  assume h: "a \<le> 1 \<and> 2 ^ k \<le> length ys + 1 \<and> length ys + 1 < 2 ^ (k + 1)"
  then have "warm a (length ys) (EMA_updates (EMA_init a) ys)"
    by (simp add: warm_updates)
  with h show "e_beta (EMA_updates (EMA_init a) ys) = max a ((1/2) ^ k)"
    unfolding warm_def by blast
qed

theorem EMA_update_schedule_witness:
  "(3/100 :: real) \<le> 1 \<and> 2 ^ 2 \<le> length [5, 7, 2 :: real] + 1
   \<and> length [5, 7, 2 :: real] + 1 < 2 ^ (2 + 1)
   \<and> e_beta (EMA_updates (EMA_init (3/100)) [5, 7, 2]) = 1/4"
  using EMA_update_schedule [of "EMA_init 0" 0 "3/100" 2 "[5, 7, 2]"]
  by (simp add: max_def power2_eq_square)

subsection \<open>Clause normalisation while parsing\<close>

text \<open>
  C9: the source's loop compares each literal with \<open>prev\<close> but never updates \<open>prev\<close>, so
  neither duplicates nor complementary pairs are found: the clause \<open>1 1\<close> keeps both copies
  and the tautology \<open>1 -1\<close> is reported as not tautological.
\<close>

theorem tautological_misses_duplicates:
  "tautological [1, 1] = (False, [1, 1]) \<and> tautological [1, - 1] = (False, [- 1, 1])"
  by (simp add: tautological_def sort_by_def lit_less_than_def)

subsection \<open>Initial states\<close>

lemmas init_defs = init_solving_def init_variables_def init_vmtf_queue_def vmtf_link_def upt_rec
  static_init_def default_opts_def EMA_init_def Var_init_def

subsection \<open>Backtracking and trail reuse\<close>

lemma next_decision_variable_props:
  assumes "next_decision_variable s = Some y"
  shows "vals s (fst y) = 0 \<and> fst y \<noteq> 0 \<and> vars (snd y) = vars s \<and> vals (snd y) = vals s
     \<and> levels (snd y) = levels s \<and> level (snd y) = level s \<and> trail (snd y) = trail s
     \<and> opts (snd y) = opts s \<and> reused (stats (snd y)) = reused (stats s)
     \<and> conflicts (stats (snd y)) = conflicts (stats s)
     \<and> propagate_next (snd y) = propagate_next s"
  using assms
proof (induction s y rule: next_decision_variable.raw_induct[rotated 1, consumes 1])
  case (1 ndv s y)
  show ?case
  proof (cases "q_next (queue s) = 0")
    case True
    with 1(2) show ?thesis by (simp add: Let_def)
  next
    case nz: False
    show ?thesis
    proof (cases "val s (int (q_next (queue s))) \<noteq> 0")
      case True
      with nz 1(2) have "ndv (s\<lparr>queue := (queue s)\<lparr>q_next := v_prev (var s (int (q_next (queue s))))\<rparr>,
             stats := (stats s)\<lparr>searched := searched (stats s) + 1\<rparr>\<rparr>) = Some y"
        by (simp add: Let_def)
      from 1(1)[OF this] show ?thesis by simp
    next
      case False
      with nz 1(2) have "y = (q_next (queue s), s)" by (simp add: Let_def)
      with False nz show ?thesis by (simp add: val_def vidx_def)
    qed
  qed
qed

lemma reuse_loop_sound:
  "reuse_loop s limit res = Some r \<Longrightarrow> res \<le> level s \<Longrightarrow>
     res \<le> r \<and> r \<le> level s
     \<and> (\<forall>l. res < l \<and> l \<le> r \<longrightarrow> v_bumped (var s (l_decision (levels s ! l))) > limit)
     \<and> (r < level s \<longrightarrow> \<not> v_bumped (var s (l_decision (levels s ! (r + 1)))) > limit)"
proof (induction s limit res rule: reuse_loop.induct)
  case (1 s limit res)
  show ?case
  proof (cases "res < level s \<and> res + 1 < length (levels s)
        \<and> v_bumped (var s (l_decision (levels s ! (res + 1)))) > limit")
    case True
    with 1(2) have eq: "reuse_loop s limit (res + 1) = Some r"
      by (simp add: reuse_loop.simps[of s limit res])
    from True have "res + 1 \<le> level s" by simp
    from 1(1)[OF _ _ _ eq this] True
    have ih: "res + 1 \<le> r" "r \<le> level s"
      "\<forall>l. res + 1 < l \<and> l \<le> r \<longrightarrow> v_bumped (var s (l_decision (levels s ! l))) > limit"
      "r < level s \<longrightarrow> \<not> v_bumped (var s (l_decision (levels s ! (r + 1)))) > limit"
      by auto
    have "v_bumped (var s (l_decision (levels s ! l))) > limit" if "res < l" "l \<le> r" for l
    proof (cases "l = res + 1")
      case True
      with \<open>res < level s \<and> _\<close> show ?thesis by simp
    next
      case False
      with that ih(3) show ?thesis by simp
    qed
    with ih show ?thesis by auto
  next
    case False
    with 1(2,3) have "r = res"
      by (auto simp: reuse_loop.simps[of s limit res] split: if_splits)
    with False 1(2,3) show ?thesis
      by (auto simp: reuse_loop.simps[of s limit res] split: if_splits)
  qed
qed

lemma reuse_loop_total:
  "length (levels s) = level s + 1 \<Longrightarrow> \<exists>r. reuse_loop s limit res = Some r"
proof (induction s limit res rule: reuse_loop.induct)
  case (1 s limit res)
  show ?case
  proof (cases "res < level s")
    case True
    then have lt: "res + 1 < length (levels s)" using 1(2) by simp
    show ?thesis
    proof (cases "v_bumped (var s (l_decision (levels s ! (res + 1)))) > limit")
      case b: True
      from 1(1)[OF True lt b 1(2)] obtain r where "reuse_loop s limit (res + 1) = Some r" by blast
      with True lt b show ?thesis by (simp add: reuse_loop.simps[of s limit res])
    next
      case False
      with True lt show ?thesis by (simp add: reuse_loop.simps[of s limit res])
    qed
  next
    case False
    then show ?thesis by (simp add: reuse_loop.simps[of s limit res])
  qed
qed

lemma unassign_frame:
  "trail (unassign s lit) = trail s" "levels (unassign s lit) = levels s"
  "level (unassign s lit) = level s" "stats (unassign s lit) = stats s"
  "opts (unassign s lit) = opts s" "propagate_next (unassign s lit) = propagate_next s"
  "limits (unassign s lit) = limits s" "vars (unassign s lit) = vars s"
  by (simp_all add: unassign_def Let_def)

lemma backtrack_loop_total:
  "decision \<in> set (trail s) \<Longrightarrow> \<exists>s'. backtrack_loop decision s = Some s'"
proof (induction decision s rule: backtrack_loop.induct)
  case (1 decision s)
  from 1(2) have ne: "trail s \<noteq> []" by auto
  show ?case
  proof (cases "last (trail s) = decision")
    case True
    with ne show ?thesis by (simp add: Let_def backtrack_loop.simps[of decision s])
  next
    case False
    from ne have "set (trail s) = insert (last (trail s)) (set (butlast (trail s)))"
      by (metis append_butlast_last_id list.simps(15) rotate1.simps(2) set_rotate1)
    with False 1(2) have "decision \<in> set (butlast (trail s))" by auto
    then have "decision \<in> set (trail ((unassign s (last (trail s)))\<lparr>trail := butlast (trail s)\<rparr>))"
      by simp
    from 1(1)[OF ne refl refl False this] obtain s' where
      "backtrack_loop decision ((unassign s (last (trail s)))\<lparr>trail := butlast (trail s)\<rparr>) = Some s'"
      by blast
    with ne False show ?thesis by (simp add: Let_def backtrack_loop.simps[of decision s])
  qed
qed

lemma backtrack_loop_frame:
  "backtrack_loop decision s = Some s' \<Longrightarrow>
     levels s' = levels s \<and> level s' = level s \<and> stats s' = stats s \<and> opts s' = opts s
     \<and> propagate_next s' = propagate_next s \<and> limits s' = limits s \<and> vars s' = vars s"
proof (induction decision s rule: backtrack_loop.induct)
  case (1 decision s)
  from 1(2) have ne: "trail s \<noteq> []"
    by (auto simp: backtrack_loop.simps[of decision s] split: if_splits)
  show ?case
  proof (cases "last (trail s) = decision")
    case True
    with ne 1(2) show ?thesis
      by (auto simp: Let_def unassign_frame backtrack_loop.simps[of decision s])
  next
    case False
    with ne 1(2) have "backtrack_loop decision ((unassign s (last (trail s)))\<lparr>trail := butlast (trail s)\<rparr>) = Some s'"
      by (simp add: Let_def backtrack_loop.simps[of decision s])
    from 1(1)[OF ne refl refl False this] show ?thesis by (simp add: unassign_frame)
  qed
qed

lemma backtrack_level:
  "level s' = t \<and> stats s' = stats s \<and> opts s' = opts s
     \<and> vars s' = vars s \<and> limits s' = limits s" if "backtrack s t = Some s'"
proof (cases "t = level s")
  case True
  then show ?thesis using that by (simp add: backtrack_def)
next
  case False
  show ?thesis
  proof (cases "t + 1 < length (levels s)")
    case False
    with \<open>t \<noteq> level s\<close> that show ?thesis by (simp add: backtrack_def)
  next
    case lt: True
    show ?thesis
    proof (cases "backtrack_loop (l_decision (levels s ! (t + 1))) s")
      case None
      with \<open>t \<noteq> level s\<close> lt that show ?thesis by (simp add: backtrack_def)
    next
      case (Some s1)
      with \<open>t \<noteq> level s\<close> lt that
      have s': "s' = (if length (trail s1) < propagate_next s1
                    then s1\<lparr>propagate_next := length (trail s1),
                           levels := take (t + 1) (levels s1), level := t\<rparr>
                    else s1\<lparr>levels := take (t + 1) (levels s1), level := t\<rparr>)"
        by (auto simp add: backtrack_def Let_def)
      from backtrack_loop_frame[OF Some] show ?thesis unfolding s' by simp
    qed
  qed
qed

lemma backtrack_total:
  assumes "t \<le> level s" "length (levels s) = level s + 1"
    "t < level s \<Longrightarrow> l_decision (levels s ! (t + 1)) \<in> set (trail s)"
  shows "\<exists>s'. backtrack s t = Some s'"
proof (cases "t = level s")
  case True
  then show ?thesis by (simp add: backtrack_def)
next
  case False
  with assms have "l_decision (levels s ! (t + 1)) \<in> set (trail s)" by simp
  from backtrack_loop_total[OF this] obtain s1 where
    "backtrack_loop (l_decision (levels s ! (t + 1))) s = Some s1" by blast
  with False assms show ?thesis by (simp add: backtrack_def Let_def)
qed

lemma next_decision_variable_restarts:
  assumes "next_decision_variable s = Some y"
  shows "next_decision_variable (s\<lparr>stats := (stats s)\<lparr>restarts := restarts (stats s) + k\<rparr>\<rparr>)
         = Some (fst y, (snd y)\<lparr>stats := (stats (snd y))\<lparr>restarts := restarts (stats (snd y)) + k\<rparr>\<rparr>)"
  using assms
proof (induction s y rule: next_decision_variable.raw_induct[rotated 1, consumes 1])
  case (1 ndv s y)
  let ?g = "\<lambda>s. s\<lparr>stats := (stats s)\<lparr>restarts := restarts (stats s) + k\<rparr>\<rparr>"
  have v: "val (?g s) l = val s l" "var (?g s) l = var s l" for l
    by (simp_all add: val_def var_def)
  show ?case
  proof (cases "q_next (queue s) = 0")
    case True
    with 1(2) show ?thesis by (simp add: Let_def)
  next
    case nz: False
    show ?thesis
    proof (cases "val s (int (q_next (queue s))) \<noteq> 0")
      case True
      let ?s' = "s\<lparr>queue := (queue s)\<lparr>q_next := v_prev (var s (int (q_next (queue s))))\<rparr>,
             stats := (stats s)\<lparr>searched := searched (stats s) + 1\<rparr>\<rparr>"
      from True nz 1(2) have "ndv ?s' = Some y" by (simp add: Let_def)
      from 1(1)[OF this] have ih: "next_decision_variable (?g ?s') = Some (fst y, ?g (snd y))" .
      let ?X = "(?g s)\<lparr>queue := (queue (?g s))\<lparr>q_next := v_prev (var (?g s) (int (q_next (queue (?g s)))))\<rparr>,
             stats := (stats (?g s))\<lparr>searched := searched (stats (?g s)) + 1\<rparr>\<rparr>"
      have eq: "?X = ?g ?s'"
        by (simp add: v)
      have "next_decision_variable (?g s) = next_decision_variable ?X"
        by (subst next_decision_variable.simps) (use True nz in \<open>simp add: Let_def v\<close>)
      also have "\<dots> = next_decision_variable (?g ?s')" by (simp only: eq)
      finally show ?thesis using ih by simp
    next
      case False
      with nz 1(2) have y: "y = (q_next (queue s), s)" by (simp add: Let_def)
      show ?thesis
        apply (subst next_decision_variable.simps)
        using False nz by (simp add: Let_def v y)
    qed
  qed
qed

subsection \<open>Sorting with a comparator\<close>

lemma mset_insort_by: "mset (insort_by lt x xs) = add_mset x (mset xs)"
  by (induction xs) auto

lemma mset_sort_by: "mset (sort_by lt xs) = mset xs"
  by (induction xs) (auto simp: sort_by_def mset_insort_by)

lemma set_insort_by: "set (insort_by lt x xs) = insert x (set xs)"
  by (induction xs) auto

lemma set_sort_by: "set (sort_by lt xs) = set xs"
  by (induction xs) (auto simp: sort_by_def set_insort_by)

lemma length_sort_by: "length (sort_by lt xs) = length xs"
  by (metis mset_sort_by size_mset)

lemma sorted_insort_by:
  assumes asym: "\<And>x y. lt x y \<Longrightarrow> \<not> lt y x"
    and trans: "\<And>x y z. \<not> lt y x \<Longrightarrow> \<not> lt z y \<Longrightarrow> \<not> lt z x"
    and "sorted_wrt (\<lambda>x y. \<not> lt y x) xs"
  shows "sorted_wrt (\<lambda>x y. \<not> lt y x) (insort_by lt x xs)"
  using assms(3)
proof (induction xs)
  case Nil
  then show ?case by simp
next
  case (Cons y ys)
  show ?case
  proof (cases "lt y x")
    case True
    with Cons asym show ?thesis by (auto simp: set_insort_by)
  next
    case False
    with Cons trans show ?thesis by auto
  qed
qed

lemma sorted_sort_by:
  assumes "\<And>x y. lt x y \<Longrightarrow> \<not> lt y x"
    and "\<And>x y z. \<not> lt y x \<Longrightarrow> \<not> lt z y \<Longrightarrow> \<not> lt z x"
  shows "sorted_wrt (\<lambda>x y. \<not> lt y x) (sort_by lt xs)"
proof (induction xs)
  case Nil
  then show ?case by (simp add: sort_by_def)
next
  case (Cons x xs)
  have "sort_by lt (x # xs) = insort_by lt x (sort_by lt xs)" by (simp add: sort_by_def)
  with Cons sorted_insort_by[of lt "sort_by lt xs" x] assms show ?case by metis
qed

subsection \<open>Reduce: choice of the clauses to delete\<close>

lemma reduce_less_than_iff: "\<not> reduce_less_than d c \<longleftrightarrow> reduce_order_le c d"
  by (auto simp: reduce_less_than_def reduce_order_le_def)

lemma reduce_work_filter:
  "reduce_work s rs = Some work \<Longrightarrow>
     work = filter (\<lambda>r. reduce_candidate s (the (heap s r))) rs"
  by (induction rs arbitrary: work) (auto split: option.splits)

lemma reduce_work_total:
  "\<forall>r \<in> set rs. heap s r \<noteq> None \<Longrightarrow> \<exists>work. reduce_work s rs = Some work"
  by (induction rs) (auto split: option.splits)

lemma mark_garbage_frame:
  "mark_garbage rs s = s\<lparr>heap := heap (mark_garbage rs s)\<rparr>"
proof (induction rs arbitrary: s)
  case Nil
  then show ?case by simp
next
  case (Cons r rs)
  let ?s1 = "s\<lparr>heap := (heap s)(r \<mapsto> (the (heap s r))\<lparr>c_garbage := True\<rparr>)\<rparr>"
  have "mark_garbage (r # rs) s = mark_garbage rs ?s1" by simp
  also have "\<dots> = ?s1\<lparr>heap := heap (mark_garbage rs ?s1)\<rparr>" by (rule Cons.IH)
  finally show ?case by simp
qed

lemma mark_garbage_heap:
  "heap (mark_garbage rs s) r =
     (if r \<in> set rs then Some ((the (heap s r))\<lparr>c_garbage := True\<rparr>) else heap s r)"
  by (induction rs arbitrary: s) auto

lemma reduce_candidate_iff:
  "reduce_candidate s c \<longleftrightarrow>
     \<not> c_reason c \<and> \<not> c_garbage c \<and> c_glue c > 2 \<and> c_size c > 3
     \<and> c_resolved c \<le> lim_reduce_resolved (limits s)
     \<and> (reducedynamic (opts s) \<longrightarrow>
          \<not> (real_of_int (c_glue c) < e_value (resolved_glue (ema s))
             \<and> real (c_size c) < e_value (resolved_size (ema s))))"
  by (auto simp: reduce_candidate_def)

lemma red_state_fields:
  "redundant (red_state g z) = [0, 1]"
  "heap (red_state g z) 0 = Some \<lparr>c_redundant = True, c_garbage = False, c_reason = False,
      c_size = 6, c_glue = 5, c_resolved = 0, c_literals = [1, 2, 3, 4, 5, 6]\<rparr>"
  "heap (red_state g z) (Suc 0) = Some \<lparr>c_redundant = True, c_garbage = False, c_reason = False,
      c_size = 4, c_glue = 7, c_resolved = 0, c_literals = [- 1, - 2, 3, 4]\<rparr>"
  "reducedynamic (opts (red_state g z))" "lim_reduce_resolved (limits (red_state g z)) = 0"
  "e_value (resolved_glue (ema (red_state g z))) = g"
  "e_value (resolved_size (ema (red_state g z))) = z"
  by (simp_all add: red_state_def init_defs Let_def)

text \<open>
  C2 (as stated, refuted): with \<open>reducedynamic\<close> enabled and both averages at 10, the two
  learned clauses (glue 5, size 6 and glue 7, size 4) are below both averages, so both are
  candidates in the claim's words and one of them would be marked garbage; the code spares
  both and marks nothing.
\<close>

theorem mark_redundant_spares_below_average_counterexample:
  "filter (\<lambda>r. claimed_candidate (red_state 10 10) (the (heap (red_state 10 10) r)))
      (redundant (red_state 10 10)) = [0, 1]
   \<and> mark_redundant_clauses (red_state 10 10) = Some (red_state 10 10)"
  by (simp add: red_state_fields claimed_candidate_def mark_redundant_clauses_def
      reduce_candidate_def sort_by_def)

text \<open>
  C2 (amended): when every pointer on the redundant stack is allocated,
  \<open>mark_redundant_clauses\<close> returns; the candidates are exactly the clauses on the redundant
  stack that are not a reason, not garbage, have glue > 2, size > 3, \<open>resolved\<close> at most the
  cutoff recorded by the previous reduce, and, when \<open>reducedynamic\<close> is enabled, are not below
  both averages (glue below the resolved-glue average and size below the resolved-size
  average); the candidates are sorted by \<open>resolved\<close> ascending, then glue descending, then size
  descending, and exactly the first half (rounded down) of the sorted candidates is marked
  garbage, nothing else changing.
\<close>

theorem mark_redundant_clauses_selects:
  assumes "\<forall>r \<in> set (redundant s). heap s r \<noteq> None"
  shows "\<exists>s' work.
     mark_redundant_clauses s = Some s'
     \<and> mset work = mset (filter (\<lambda>r.
            let c = the (heap s r) in
            \<not> c_reason c \<and> \<not> c_garbage c \<and> c_glue c > 2 \<and> c_size c > 3
            \<and> c_resolved c \<le> lim_reduce_resolved (limits s)
            \<and> (reducedynamic (opts s) \<longrightarrow>
                 \<not> (real_of_int (c_glue c) < e_value (resolved_glue (ema s))
                    \<and> real (c_size c) < e_value (resolved_size (ema s)))))
          (redundant s))
     \<and> sorted_wrt (\<lambda>a b. reduce_order_le (the (heap s a)) (the (heap s b))) work
     \<and> s' = s\<lparr>heap := heap s'\<rparr>
     \<and> (\<forall>r. heap s' r =
            (if r \<in> set (take (length work div 2) work)
             then Some ((the (heap s r))\<lparr>c_garbage := True\<rparr>) else heap s r))"
proof -
  let ?lt = "\<lambda>c d. reduce_less_than (the (heap s c)) (the (heap s d))"
  from reduce_work_total[OF assms] obtain work0 where w0: "reduce_work s (redundant s) = Some work0"
    by blast
  let ?work = "sort_by ?lt work0"
  let ?s' = "mark_garbage (take (length ?work div 2) ?work) s"
  have res: "mark_redundant_clauses s = Some ?s'"
    by (simp add: mark_redundant_clauses_def w0 Let_def)
  have "work0 = filter (\<lambda>r. reduce_candidate s (the (heap s r))) (redundant s)"
    by (rule reduce_work_filter[OF w0])
  then have ms: "mset ?work = mset (filter (\<lambda>r.
            let c = the (heap s r) in
            \<not> c_reason c \<and> \<not> c_garbage c \<and> c_glue c > 2 \<and> c_size c > 3
            \<and> c_resolved c \<le> lim_reduce_resolved (limits s)
            \<and> (reducedynamic (opts s) \<longrightarrow>
                 \<not> (real_of_int (c_glue c) < e_value (resolved_glue (ema s))
                    \<and> real (c_size c) < e_value (resolved_size (ema s)))))
          (redundant s))"
    by (simp add: mset_sort_by reduce_candidate_iff Let_def)
  have "sorted_wrt (\<lambda>x y. \<not> ?lt y x) ?work"
    by (rule sorted_sort_by) (auto simp: reduce_less_than_def split: if_splits)
  then have so: "sorted_wrt (\<lambda>a b. reduce_order_le (the (heap s a)) (the (heap s b))) ?work"
    by (simp add: reduce_less_than_iff)
  show ?thesis
    using res ms so mark_garbage_frame[of "take (length ?work div 2) ?work" s]
      mark_garbage_heap[of "take (length ?work div 2) ?work" s]
    by (intro exI[of _ ?s'] exI[of _ ?work]) simp
qed

theorem mark_redundant_clauses_selects_witness:
  "redundant (red_state 4 5) = [0, 1]
   \<and> heap (red_state 4 5) 0 \<noteq> None \<and> heap (red_state 4 5) 1 \<noteq> None
   \<and> (\<exists>s'. mark_redundant_clauses (red_state 4 5) = Some s'
          \<and> map_option c_garbage (heap s' 0) = Some False
          \<and> map_option c_garbage (heap s' 1) = Some True)"
proof -
  have h: "\<forall>r \<in> set (redundant (red_state 4 5)). heap (red_state 4 5) r \<noteq> None"
    by (simp add: red_state_fields)
  from mark_redundant_clauses_selects [OF h] obtain s' work where
    r: "mark_redundant_clauses (red_state 4 5) = Some s'"
    and ms: "mset work = mset (filter (\<lambda>r.
            let c = the (heap (red_state 4 5) r) in
            \<not> c_reason c \<and> \<not> c_garbage c \<and> c_glue c > 2 \<and> c_size c > 3
            \<and> c_resolved c \<le> lim_reduce_resolved (limits (red_state 4 5))
            \<and> (reducedynamic (opts (red_state 4 5)) \<longrightarrow>
                 \<not> (real_of_int (c_glue c) < e_value (resolved_glue (ema (red_state 4 5)))
                    \<and> real (c_size c) < e_value (resolved_size (ema (red_state 4 5))))))
          (redundant (red_state 4 5)))"
    and so: "sorted_wrt (\<lambda>a b. reduce_order_le (the (heap (red_state 4 5) a))
                (the (heap (red_state 4 5) b))) work"
    and hp: "\<forall>r. heap s' r =
            (if r \<in> set (take (length work div 2) work)
             then Some ((the (heap (red_state 4 5) r))\<lparr>c_garbage := True\<rparr>)
             else heap (red_state 4 5) r)"
    by blast
  from ms have m: "mset work = {#0, 1#}" by (simp add: red_state_fields Let_def)
  then have len: "length work = 2" by (metis size_mset size_add_mset size_empty numeral_2_eq_2)
  then obtain a b where ab: "work = [a, b]"
    by (metis length_0_conv length_Suc_conv numeral_2_eq_2)
  with m have "{#a, b#} = {#0, 1#}" by simp
  then have "(a = 0 \<and> b = 1) \<or> (a = 1 \<and> b = 0)"
    by (auto simp: add_eq_conv_ex)
  moreover have "\<not> (a = 0 \<and> b = 1)"
    using so ab by (auto simp: reduce_order_le_def red_state_fields)
  ultimately have "work = [1, 0]" using ab by auto
  with hp have "heap s' 0 = heap (red_state 4 5) 0"
    "heap s' 1 = Some ((the (heap (red_state 4 5) 1))\<lparr>c_garbage := True\<rparr>)"
    by simp_all
  with r show ?thesis by (simp add: red_state_fields)
qed

subsection \<open>Reduce: flushing the watch lists\<close>

lemma set_reasons_frame:
  "set_reasons b ls s = Some s' \<Longrightarrow> \<exists>h. s' = s\<lparr>heap := h\<rparr>"
proof (induction ls arbitrary: s)
  case Nil
  then have "s' = s\<lparr>heap := heap s\<rparr>" by simp
  then show ?case by blast
next
  case (Cons l ls)
  show ?case
  proof (cases "v_level (var s l) \<noteq> 0 \<and> v_reason (var s l) \<noteq> None")
    case True
    with Cons.prems obtain c where c: "heap s (the (v_reason (var s l))) = Some c"
      and r: "set_reasons b ls (s\<lparr>heap := (heap s)(the (v_reason (var s l)) \<mapsto> c\<lparr>c_reason := b\<rparr>)\<rparr>) = Some s'"
      by (auto simp: Let_def split: option.splits)
    from Cons.IH[OF r] obtain h where
      "s' = s\<lparr>heap := (heap s)(the (v_reason (var s l)) \<mapsto> c\<lparr>c_reason := b\<rparr>)\<rparr>\<lparr>heap := h\<rparr>"
      by blast
    then have "s' = s\<lparr>heap := h\<rparr>" by simp
    then show ?thesis by blast
  next
    case False
    with Cons.prems have "set_reasons b ls s = Some s'" by (auto simp: Let_def)
    from Cons.IH[OF this] show ?thesis .
  qed
qed

lemma mark_satisfied_clauses_frame:
  "mark_satisfied_clauses rs s = Some s' \<Longrightarrow> \<exists>h. s' = s\<lparr>heap := h\<rparr>"
proof (induction rs arbitrary: s)
  case Nil
  then have "s' = s\<lparr>heap := heap s\<rparr>" by simp
  then show ?case by blast
next
  case (Cons r rs)
  from Cons.prems obtain c where c: "heap s r = Some c"
    by (auto split: option.splits)
  show ?case
  proof (cases "\<not> c_reason c \<and> clause_root_level_satisfied s c")
    case True
    with Cons.prems c
    have "mark_satisfied_clauses rs (s\<lparr>heap := (heap s)(r \<mapsto> c\<lparr>c_garbage := True\<rparr>)\<rparr>) = Some s'"
      by simp
    from Cons.IH[OF this] obtain h where
      "s' = s\<lparr>heap := (heap s)(r \<mapsto> c\<lparr>c_garbage := True\<rparr>)\<rparr>\<lparr>heap := h\<rparr>" by blast
    then have "s' = s\<lparr>heap := h\<rparr>" by simp
    then show ?thesis by blast
  next
    case False
    with Cons.prems c have "mark_satisfied_clauses rs s = Some s'" by auto
    from Cons.IH[OF this] show ?thesis .
  qed
qed

lemma mark_redundant_clauses_frame:
  "mark_redundant_clauses s = Some s' \<Longrightarrow> \<exists>h. s' = s\<lparr>heap := h\<rparr>"
  using mark_garbage_frame
  by (auto simp: mark_redundant_clauses_def Let_def split: option.splits)

lemma reduce_marked_frame:
  assumes "reduce_marked s = Some sm"
  shows "all_literal_watches sm = all_literal_watches s \<and> vals sm = vals s \<and> vars sm = vars s
         \<and> max_var sm = max_var s"
proof -
  let ?s0 = "s\<lparr>stats := (stats s)\<lparr>reduce_count := reduce_count (stats s) + 1\<rparr>\<rparr>"
  from assms obtain s1 s2 s3 where
    s1: "protect_reasons ?s0 = Some s1"
    and s2: "(if lim_reduce_fixed (limits s1) < fixed_count (stats s1)
              then Option.bind (mark_satisfied_clauses (irredundant s1) s1)
                     (\<lambda>t. mark_satisfied_clauses (redundant t) t)
              else Some s1) = Some s2"
    and s3: "mark_redundant_clauses s2 = Some s3"
    and s4: "unprotect_reasons s3 = Some sm"
    by (auto simp: reduce_marked_def Let_def bind_eq_Some_conv)
  from s1 have "set_reasons True (trail ?s0) ?s0 = Some s1" by (simp add: protect_reasons_def)
  from set_reasons_frame[OF this] obtain h1 where h1: "s1 = ?s0\<lparr>heap := h1\<rparr>" by blast
  have "\<exists>h2. s2 = s1\<lparr>heap := h2\<rparr>"
  proof (cases "lim_reduce_fixed (limits s1) < fixed_count (stats s1)")
    case True
    with s2 obtain t where t: "mark_satisfied_clauses (irredundant s1) s1 = Some t"
      and t2: "mark_satisfied_clauses (redundant t) t = Some s2"
      by (auto simp: bind_eq_Some_conv)
    from mark_satisfied_clauses_frame[OF t] obtain h where h: "t = s1\<lparr>heap := h\<rparr>" by blast
    from mark_satisfied_clauses_frame[OF t2] obtain h' where "s2 = t\<lparr>heap := h'\<rparr>" by blast
    with h have "s2 = s1\<lparr>heap := h'\<rparr>" by simp
    then show ?thesis by blast
  next
    case False
    with s2 have "s2 = s1\<lparr>heap := heap s1\<rparr>" by simp
    then show ?thesis by blast
  qed
  then obtain h2 where h2: "s2 = s1\<lparr>heap := h2\<rparr>" by blast
  from mark_redundant_clauses_frame[OF s3] obtain h3 where h3: "s3 = s2\<lparr>heap := h3\<rparr>" by blast
  from s4 have "set_reasons False (trail s3) s3 = Some sm" by (simp add: unprotect_reasons_def)
  from set_reasons_frame[OF this] obtain h4 where h4: "sm = s3\<lparr>heap := h4\<rparr>" by blast
  show ?thesis by (simp add: h1 h2 h3 h4)
qed

lemma flush_list_filter:
  "flush_list s ws = Some ws' \<Longrightarrow>
     ws' = filter (\<lambda>w. \<not> c_garbage (the (heap s (w_clause w)))) ws"
  by (induction ws arbitrary: ws') (auto split: option.splits)

lemma flush_list_heap_cong:
  "heap s1 = heap s \<Longrightarrow> flush_list s1 ws = flush_list s ws"
  by (induction ws) (auto split: option.splits)

lemma flush_var_effect:
  assumes "flush_var idx s = Some s'" and "idx \<noteq> 0"
  shows "heap s' = heap s \<and> vals s' = vals s \<and> vars s' = vars s \<and> max_var s' = max_var s
     \<and> (\<forall>l. watches s' l =
           (if l = int idx \<or> l = - int idx
            then (if fixed s (int idx) \<noteq> 0 then []
                  else filter (\<lambda>w. \<not> c_garbage (the (heap s (w_clause w)))) (watches s l))
            else watches s l))"
proof (cases "fixed s (int idx) \<noteq> 0")
  case True
  with assms have "s' = s\<lparr>all_literal_watches := (all_literal_watches s)(int idx := [], - int idx := [])\<rparr>"
    by (simp add: flush_var_def)
  with True show ?thesis by (simp add: watches_def)
next
  case False
  from assms(2) have ne: "int idx \<noteq> - int idx" by simp
  from False assms(1) obtain neg where neg: "flush_list s (watches s (- int idx)) = Some neg"
    by (auto simp: flush_var_def split: option.splits)
  let ?s1 = "s\<lparr>all_literal_watches := (all_literal_watches s)(- int idx := neg)\<rparr>"
  from False assms(1) neg obtain pos where pos: "flush_list ?s1 (watches ?s1 (int idx)) = Some pos"
    and s': "s' = ?s1\<lparr>all_literal_watches := (all_literal_watches ?s1)(int idx := pos)\<rparr>"
    by (auto simp: flush_var_def Let_def split: option.splits)
  have w1: "watches ?s1 (int idx) = watches s (int idx)" using ne by (simp add: watches_def)
  have "flush_list ?s1 (watches s (int idx)) = flush_list s (watches s (int idx))"
    by (rule flush_list_heap_cong) simp
  with pos w1 have pos': "flush_list s (watches s (int idx)) = Some pos" by simp
  note flush_list_filter[OF neg] flush_list_filter[OF pos']
  with False ne show ?thesis by (auto simp add: s' watches_def)
qed

lemma fixed_cong: "vals s1 = vals s \<Longrightarrow> vars s1 = vars s \<Longrightarrow> fixed s1 l = fixed s l"
  by (simp add: fixed_def)

lemma fixed_nonzero_iff:
  "fixed s (int idx) \<noteq> 0 \<longleftrightarrow> vals s idx \<noteq> 0 \<and> v_level (vars s idx) = 0"
  by (auto simp: fixed_def vidx_def Let_def)

lemma vidx_int: "vidx (int idx) = idx" "vidx (- int idx) = idx"
  by (simp_all add: vidx_def)

lemma vidx_eq_iff: "idx \<noteq> 0 \<Longrightarrow> vidx l = idx \<longleftrightarrow> l = int idx \<or> l = - int idx"
  by (auto simp: vidx_def)

lemma flush_vars_effect:
  assumes "flush_vars idxs s = Some s'" and "distinct idxs" and "0 \<notin> set idxs"
  shows "heap s' = heap s \<and> vals s' = vals s \<and> vars s' = vars s \<and> max_var s' = max_var s
     \<and> (\<forall>l. watches s' l =
           (if vidx l \<in> set idxs
            then (if fixed s (int (vidx l)) \<noteq> 0 then []
                  else filter (\<lambda>w. \<not> c_garbage (the (heap s (w_clause w)))) (watches s l))
            else watches s l))"
  using assms
proof (induction idxs arbitrary: s)
  case Nil
  then show ?case by simp
next
  case (Cons idx rest)
  from Cons.prems obtain s1 where s1: "flush_var idx s = Some s1"
    and r: "flush_vars rest s1 = Some s'"
    by (auto split: option.splits)
  from Cons.prems have nz: "idx \<noteq> 0" and d: "distinct rest" "0 \<notin> set rest" "idx \<notin> set rest"
    by auto
  note e1 = flush_var_effect[OF s1 nz]
  note e2 = Cons.IH[OF r d(1,2)]
  from e1 have v1: "vals s1 = vals s" "vars s1 = vars s" by simp_all
  have fx: "fixed s1 l = fixed s l" for l by (rule fixed_cong) (rule v1)+
  have "watches s' l =
           (if vidx l \<in> set (idx # rest)
            then (if fixed s (int (vidx l)) \<noteq> 0 then []
                  else filter (\<lambda>w. \<not> c_garbage (the (heap s (w_clause w)))) (watches s l))
            else watches s l)" for l
  proof (cases "vidx l = idx")
    case True
    then have l: "l = int idx \<or> l = - int idx" using nz by (simp add: vidx_eq_iff)
    from True d(3) have "watches s' l = watches s1 l" using e2 by simp
    also have "\<dots> = (if fixed s (int idx) \<noteq> 0 then []
                  else filter (\<lambda>w. \<not> c_garbage (the (heap s (w_clause w)))) (watches s l))"
      using e1 l by auto
    finally show ?thesis using True by simp
  next
    case False
    then have nl: "\<not> (l = int idx \<or> l = - int idx)" using nz by (simp add: vidx_eq_iff)
    then have w1: "watches s1 l = watches s l" using e1 by simp
    have h1: "heap s1 = heap s" using e1 by simp
    show ?thesis using e2 False by (simp add: w1 h1 fx)
  qed
  with e1 e2 show ?case by simp
qed

lemma collect_clauses_frame:
  "collect_clauses rs s = Some (kept, s') \<Longrightarrow> \<exists>st h. s' = s\<lparr>stats := st, heap := h\<rparr>"
proof (induction rs arbitrary: s kept)
  case Nil
  then have "s' = s\<lparr>stats := stats s, heap := heap s\<rparr>" by simp
  then show ?case by blast
next
  case (Cons r rs)
  from Cons.prems obtain c where c: "heap s r = Some c" by (auto split: option.splits)
  show ?case
  proof (cases "c_garbage c")
    case False
    with Cons.prems c obtain k where "collect_clauses rs s = Some (k, s')"
      by (auto split: option.splits)
    from Cons.IH[OF this] show ?thesis .
  next
    case True
    let ?s1 = "s\<lparr>stats := (stats s)\<lparr>reduce_clauses := reduce_clauses (stats s) + 1\<rparr>,
                 heap := (heap s)(r := None)\<rparr>"
    from True Cons.prems c have "collect_clauses rs ?s1 = Some (kept, s')" by simp
    from Cons.IH[OF this] obtain st h where "s' = ?s1\<lparr>stats := st, heap := h\<rparr>" by blast
    then have "s' = s\<lparr>stats := st, heap := h\<rparr>" by simp
    then show ?thesis by blast
  qed
qed

text \<open>
  C10: when \<open>reduce\<close> returns, then, with the garbage flags as they are after the marking
  steps, for every variable \<open>1..max_var\<close>: if it is assigned at level 0, the watch lists of
  both its literals are empty (whatever clauses they watched); otherwise the watch list
  of each of its literals is the old list without the watches of garbage clauses, in the
  old order.
\<close>

theorem reduce_flushes_watches:
  assumes "reduce s = Some s'"
  shows "\<exists>sm. reduce_marked s = Some sm
     \<and> (\<forall>idx \<in> {1..max_var s}.
          (vals s idx \<noteq> 0 \<and> v_level (vars s idx) = 0
             \<longrightarrow> watches s' (int idx) = [] \<and> watches s' (- int idx) = [])
          \<and> (\<not> (vals s idx \<noteq> 0 \<and> v_level (vars s idx) = 0)
             \<longrightarrow> (\<forall>l \<in> {int idx, - int idx}.
                   watches s' l =
                   filter (\<lambda>w. \<not> c_garbage (the (heap sm (w_clause w)))) (watches s l))))"
proof -
  let ?s0 = "s\<lparr>stats := (stats s)\<lparr>reduce_count := reduce_count (stats s) + 1\<rparr>\<rparr>"
  from assms obtain s1 s2 s3 s4 s5 s6 kept s7 where
    s1: "protect_reasons ?s0 = Some s1"
    and s2: "(if lim_reduce_fixed (limits s1) < fixed_count (stats s1)
              then Option.bind (mark_satisfied_clauses (irredundant s1) s1)
                     (\<lambda>t. mark_satisfied_clauses (redundant t) t)
              else Some s1) = Some s2"
    and s3: "mark_redundant_clauses s2 = Some s3"
    and s4: "unprotect_reasons s3 = Some s4"
    and s5: "flush_watches s4 = Some s5"
    and s6: "(if lim_reduce_fixed (limits s5) < fixed_count (stats s5)
              then Option.bind (collect_clauses (irredundant s5) s5)
                     (\<lambda>(kept, t). Some (t\<lparr>irredundant := kept\<rparr>))
              else Some s5) = Some s6"
    and s7: "collect_clauses (redundant s6) s6 = Some (kept, s7)"
    and s': "s' = (let s8 = s7\<lparr>redundant := kept\<rparr>;
                      s9 = s8\<lparr>inc_reduce_conflicts := inc_reduce_conflicts s8 + reduceinc (opts s8)\<rparr>
                  in s9\<lparr>limits := (limits s9)\<lparr>
                      lim_reduce_conflicts := conflicts (stats s9) + inc_reduce_conflicts s9,
                      lim_reduce_resolved := conflicts (stats s9),
                      lim_reduce_fixed := fixed_count (stats s9)\<rparr>\<rparr>)"
    by (auto simp: reduce_def Let_def bind_eq_Some_conv)
  have sm: "reduce_marked s = Some s4"
    using s1 s2 s3 s4 by (simp add: reduce_marked_def Let_def)
  note fm = reduce_marked_frame[OF sm]
  have "flush_vars [1 ..< max_var s4 + 1] s4 = Some s5"
    using s5 by (simp add: flush_watches_def)
  from flush_vars_effect[OF this]
  have f5: "\<forall>l. watches s5 l =
           (if vidx l \<in> set [1 ..< max_var s4 + 1]
            then (if fixed s4 (int (vidx l)) \<noteq> 0 then []
                  else filter (\<lambda>w. \<not> c_garbage (the (heap s4 (w_clause w)))) (watches s4 l))
            else watches s4 l)"
    by simp
  have w6: "all_literal_watches s6 = all_literal_watches s5"
  proof (cases "lim_reduce_fixed (limits s5) < fixed_count (stats s5)")
    case True
    with s6 obtain k t where kt: "collect_clauses (irredundant s5) s5 = Some (k, t)"
      and "s6 = t\<lparr>irredundant := k\<rparr>"
      by (auto simp: bind_eq_Some_conv)
    moreover from collect_clauses_frame[OF kt] obtain st h where "t = s5\<lparr>stats := st, heap := h\<rparr>"
      by blast
    ultimately show ?thesis by simp
  next
    case False
    with s6 show ?thesis by simp
  qed
  from collect_clauses_frame[OF s7] obtain st h where "s7 = s6\<lparr>stats := st, heap := h\<rparr>" by blast
  then have w7: "all_literal_watches s7 = all_literal_watches s6" by simp
  have w': "watches s' l = watches s5 l" for l
    by (simp add: s' Let_def watches_def w7 w6)
  from fm have v4: "vals s4 = vals s" "vars s4 = vars s" by simp_all
  have fx: "fixed s4 l = fixed s l" for l by (rule fixed_cong) (rule v4)+
  have ws: "watches s4 l = watches s l" for l using fm by (simp add: watches_def)
  have main: "watches s' l =
      (if fixed s (int idx) \<noteq> 0 then []
       else filter (\<lambda>w. \<not> c_garbage (the (heap s4 (w_clause w)))) (watches s l))"
    if "idx \<in> {1..max_var s}" "l = int idx \<or> l = - int idx" for idx l
  proof -
    from that have "vidx l = idx" by (auto simp: vidx_def)
    moreover from that fm have "idx \<in> set [1 ..< max_var s4 + 1]" by auto
    ultimately show ?thesis using f5 by (simp add: w' fx ws)
  qed
  show ?thesis
  proof (intro exI[of _ s4] conjI ballI impI)
    show "reduce_marked s = Some s4" by (rule sm)
  next
    fix idx assume i: "idx \<in> {1..max_var s}"
      and f: "vals s idx \<noteq> 0 \<and> v_level (vars s idx) = 0"
    then have "fixed s (int idx) \<noteq> 0" by (simp add: fixed_nonzero_iff)
    with main[OF i] show "watches s' (int idx) = []" "watches s' (- int idx) = []" by simp_all
  next
    fix idx l assume i: "idx \<in> {1..max_var s}"
      and f: "\<not> (vals s idx \<noteq> 0 \<and> v_level (vars s idx) = 0)"
      and l: "l \<in> {int idx, - int idx}"
    then have "fixed s (int idx) = 0" using fixed_nonzero_iff[of s idx] by blast
    with main[OF i, of l] l
    show "watches s' l = filter (\<lambda>w. \<not> c_garbage (the (heap s4 (w_clause w)))) (watches s l)"
      by auto
  qed
qed

lemma flush_state_fields:
  "max_var flush_state = 4" "vals flush_state = (\<lambda>_. 0)(4 := 1)"
  "v_level (vars flush_state 4) = 0" "trail flush_state = [4]"
  "irredundant flush_state = [0]" "redundant flush_state = [1]"
  "lim_reduce_fixed (limits flush_state) = 1" "fixed_count (stats flush_state) = 1"
  "heap flush_state = [0 \<mapsto> \<lparr>c_redundant = False, c_garbage = False, c_reason = False, c_size = 3,
                        c_glue = 0, c_resolved = 0, c_literals = [- 4, 2, 1]\<rparr>,
                  1 \<mapsto> \<lparr>c_redundant = True, c_garbage = True, c_reason = False, c_size = 2,
                        c_glue = 2, c_resolved = 0, c_literals = [2, 3]\<rparr>]"
  "all_literal_watches flush_state = (\<lambda>_. [])
          (- 4 := [\<lparr>w_blit = 2, w_size = 3, w_clause = 0\<rparr>],
           2 := [\<lparr>w_blit = 3, w_size = 2, w_clause = 1\<rparr>, \<lparr>w_blit = - 4, w_size = 3, w_clause = 0\<rparr>],
           3 := [\<lparr>w_blit = 2, w_size = 2, w_clause = 1\<rparr>])"
  by (simp_all add: flush_state_def init_defs Let_def)

lemma flush_state_reduce:
  "\<exists>s'. reduce flush_state = Some s' \<and> map_option c_garbage (heap s' 0) = Some False"
  by (simp add: reduce_def protect_reasons_def unprotect_reasons_def mark_redundant_clauses_def
      reduce_candidate_def sort_by_def flush_watches_def flush_var_def fixed_def watches_def
      var_def vidx_def flush_state_fields Let_def upt_rec)

theorem reduce_flushes_watches_witness:
  "\<exists>s'. reduce flush_state = Some s'
     \<and> watches flush_state (- 4) = [\<lparr>w_blit = 2, w_size = 3, w_clause = 0\<rparr>]
     \<and> map_option c_garbage (heap s' 0) = Some False
     \<and> watches s' (- 4) = [] \<and> watches s' 4 = []"
proof -
  from flush_state_reduce obtain s' where r: "reduce flush_state = Some s'"
    and g: "map_option c_garbage (heap s' 0) = Some False" by blast
  from reduce_flushes_watches [OF r] obtain sm where
    a0: "reduce_marked flush_state = Some sm \<and> (\<forall>idx \<in> {1..max_var flush_state}.
          (vals flush_state idx \<noteq> 0 \<and> v_level (vars flush_state idx) = 0
             \<longrightarrow> watches s' (int idx) = [] \<and> watches s' (- int idx) = [])
          \<and> (\<not> (vals flush_state idx \<noteq> 0 \<and> v_level (vars flush_state idx) = 0)
             \<longrightarrow> (\<forall>l \<in> {int idx, - int idx}.
                   watches s' l =
                   filter (\<lambda>w. \<not> c_garbage (the (heap sm (w_clause w)))) (watches flush_state l))))"
    ..
  note a = a0[THEN conjunct2]
  have "(4::nat) \<in> {1..max_var flush_state}" by (simp add: flush_state_fields)
  from bspec[OF a this] have "watches s' (int 4) = [] \<and> watches s' (- int 4) = []"
    by (simp add: flush_state_fields)
  moreover have "watches flush_state (- 4) = [\<lparr>w_blit = 2, w_size = 3, w_clause = 0\<rparr>]"
    by (simp add: watches_def flush_state_fields)
  ultimately show ?thesis using r g by simp
qed

subsection \<open>Propagation: visiting one watch\<close>

lemma val_heap_update [simp]: "val (s\<lparr>heap := h\<rparr>) l = val s l"
  by (simp add: val_def)

lemma val_uminus: "l \<noteq> 0 \<Longrightarrow> val s (- l) = - val s l"
  by (simp add: val_def vidx_def Let_def)

lemma scan_lits_takeWhile:
  assumes "k0 \<le> length lits"
  shows "\<exists>v. scan_lits s lits (length lits) k0 v0
           = Some (k0 + length (takeWhile (\<lambda>l. val s l < 0) (drop k0 lits)), v)
         \<and> (if k0 + length (takeWhile (\<lambda>l. val s l < 0) (drop k0 lits)) < length lits
            then v = val s (lits ! (k0 + length (takeWhile (\<lambda>l. val s l < 0) (drop k0 lits))))
                 \<and> 0 \<le> v
            else if k0 < length lits then v < 0 else v = v0)"
  using assms
proof (induction s lits "length lits" k0 v0 rule: scan_lits.induct)
  case (1 s lits k v)
  show ?case
  proof (cases "k < length lits")
    case False
    with 1(2) have "k = length lits" by simp
    then show ?thesis by (subst scan_lits.simps) simp
  next
    case True
    then have dr: "drop k lits = lits ! k # drop (k + 1) lits"
      by (simp add: Cons_nth_drop_Suc)
    show ?thesis
    proof (cases "val s (lits ! k) < 0")
      case False
      with True dr show ?thesis
        by (simp add: scan_lits.simps[of s lits "length lits" k v] Let_def)
    next
      case neg: True
      have le: "k + 1 \<le> length lits" using True by simp
      from 1(1)[OF True True refl neg le] obtain v' where
        ih: "scan_lits s lits (length lits) (k + 1) (val s (lits ! k))
              = Some (k + 1 + length (takeWhile (\<lambda>l. val s l < 0) (drop (k + 1) lits)), v')"
        and iv: "(if k + 1 + length (takeWhile (\<lambda>l. val s l < 0) (drop (k + 1) lits)) < length lits
            then v' = val s (lits ! (k + 1 + length (takeWhile (\<lambda>l. val s l < 0) (drop (k + 1) lits))))
                 \<and> 0 \<le> v'
            else if k + 1 < length lits then v' < 0 else v' = val s (lits ! k))"
        by blast
      have tw: "k + length (takeWhile (\<lambda>l. val s l < 0) (drop k lits))
                = k + 1 + length (takeWhile (\<lambda>l. val s l < 0) (drop (k + 1) lits))"
        using neg by (simp add: dr)
      have "scan_lits s lits (length lits) k v = scan_lits s lits (length lits) (k + 1) (val s (lits ! k))"
        using True neg by (simp add: scan_lits.simps[of s lits "length lits" k v] Let_def)
      with ih iv neg True show ?thesis
        unfolding tw by (intro exI[of _ v']) (auto split: if_splits)
    qed
  qed
qed

text \<open>
  C5: let the literal \<open>L\<close> be true and let \<open>w\<close> be a watch of \<open>-L\<close> whose blocking literal is not true and
  whose cached size, the size of its clause, exceeds 2, the clause holding \<open>-L\<close> in slot 0
  or 1. Then the visit first brings \<open>-L\<close> to slot 1. If slot 0 is true the watch is kept
  with blocking literal slot 0. Otherwise, with \<open>k\<close> the first slot from 2 on whose literal
  is not false: if that literal is true the watch is kept with it as blocking literal;
  if it is unassigned it is swapped into slot 1, a watch with blocking literal \<open>-L\<close> is
  appended to its watch list and the visited watch is dropped; if there is no such slot
  and slot 0 is unassigned, slot 0 is assigned with the clause as reason; otherwise the
  clause becomes the conflict.
\<close>

theorem visit_watch_long_clause:
  assumes "L \<noteq> 0 \<and> val s L > 0" and "\<not> val s (w_blit w) > 0" and "w_size w > 2"
    and "heap s (w_clause w) = Some c" and "length (c_literals c) = w_size w"
    and "c_literals c ! 0 = - L \<or> c_literals c ! 1 = - L"
  shows "let lits = (if c_literals c ! 1 \<noteq> - L then swap_lits 0 1 (c_literals c) else c_literals c);
             s1 = s\<lparr>heap := (heap s)(w_clause w \<mapsto> c\<lparr>c_literals := lits\<rparr>)\<rparr>;
             k = 2 + length (takeWhile (\<lambda>l. val s l < 0) (drop 2 lits))
         in lits ! 1 = - L
          \<and> visit_watch L w s =
             (if val s (lits ! 0) > 0 then Some ([w\<lparr>w_blit := lits ! 0\<rparr>], [], s1)
              else if k < length lits \<and> val s (lits ! k) > 0
                then Some ([w\<lparr>w_blit := lits ! k\<rparr>], [], s1)
              else if k < length lits
                then Some ([], [],
                  s\<lparr>heap := (heap s)(w_clause w \<mapsto> c\<lparr>c_literals := swap_lits 1 k lits\<rparr>),
                    all_literal_watches := (all_literal_watches s)
                      (lits ! k := watches s (lits ! k)
                         @ [\<lparr>w_blit = - L, w_size = c_size c, w_clause = w_clause w\<rparr>])\<rparr>)
              else if val s (lits ! 0) = 0
                then Some ([w], [], assign s1 (lits ! 0) (Some (w_clause w)))
              else Some ([w], [], s1\<lparr>conflict := Some (w_clause w)\<rparr>))"
proof -
  define lits where "lits = (if c_literals c ! 1 \<noteq> - L then swap_lits 0 1 (c_literals c) else c_literals c)"
  define s1 where "s1 = s\<lparr>heap := (heap s)(w_clause w \<mapsto> c\<lparr>c_literals := lits\<rparr>)\<rparr>"
  define k where "k = 2 + length (takeWhile (\<lambda>l. val s l < 0) (drop 2 lits))"
  have len: "length lits = w_size w" using assms(5) by (simp add: lits_def swap_lits_def)
  have l2: "\<not> length (c_literals c) < 2" "w_size w \<noteq> 2" using assms(3,5) by simp_all
  have l1: "lits ! 1 = - L"
    using assms(3,5,6) by (auto simp: lits_def swap_lits_def)
  have negL: "val s (- L) < 0" using assms(1) by (simp add: val_uminus)
  have "2 \<le> length lits" using len assms(3) by simp
  have vs: "val s1 = val s" by (rule ext) (simp add: s1_def)
  note st = scan_lits_takeWhile[OF \<open>2 \<le> length lits\<close>, of s1 0, unfolded vs, folded k_def, unfolded len]
  from st obtain v where
    sc: "scan_lits s1 lits (w_size w) 2 0 = Some (k, v)"
    and v0: "if k < w_size w then v = val s (lits ! k) \<and> 0 \<le> v
            else if 2 < w_size w then v < 0 else v = 0"
    by blast
  have v: "if k < length lits then v = val s (lits ! k) \<and> 0 \<le> v
            else if 2 < length lits then v < 0 else v = 0"
    using v0 unfolding len .
  have kne: "lits ! k \<noteq> - L" if "k < length lits" "val s (lits ! k) = 0"
    using that negL by auto
  have k2: "2 \<le> k" by (simp add: k_def)
  have sw1: "swap_lits 1 k lits ! 1 = lits ! k" if "k < length lits"
    using that k2 len assms(3) by (simp add: swap_lits_def)
  have vw: "visit_watch L w s =
             (if val s (lits ! 0) > 0 then Some ([w\<lparr>w_blit := lits ! 0\<rparr>], [], s1)
              else if k < length lits \<and> val s (lits ! k) > 0
                then Some ([w\<lparr>w_blit := lits ! k\<rparr>], [], s1)
              else if k < length lits
                then Some ([], [],
                  s\<lparr>heap := (heap s)(w_clause w \<mapsto> c\<lparr>c_literals := swap_lits 1 k lits\<rparr>),
                    all_literal_watches := (all_literal_watches s)
                      (lits ! k := watches s (lits ! k)
                         @ [\<lparr>w_blit = - L, w_size = c_size c, w_clause = w_clause w\<rparr>])\<rparr>)
              else if val s (lits ! 0) = 0
                then Some ([w], [], assign s1 (lits ! 0) (Some (w_clause w)))
              else Some ([w], [], s1\<lparr>conflict := Some (w_clause w)\<rparr>))"
  proof (cases "val s (lits ! 0) > 0")
    case True
    then show ?thesis
      using assms(2,4) l2 unfolding visit_watch_def s1_def lits_def
      by (simp add: Let_def)
  next
    case u: False
    have base: "visit_watch L w s =
        (if v > 0 then Some ([w\<lparr>w_blit := lits ! k\<rparr>], [], s1)
         else if v = 0 then
           (if k < length lits then
              (let lits' = swap_lits 1 k lits;
                   s2 = s1\<lparr>heap := (heap s1)(w_clause w \<mapsto> c\<lparr>c_literals := lits'\<rparr>)\<rparr>;
                   nw = \<lparr>w_blit = - L, w_size = c_size c, w_clause = w_clause w\<rparr>
               in if lits' ! 1 = - L then Some ([], [nw], s2)
                  else Some ([], [], s2\<lparr>all_literal_watches := (all_literal_watches s2)
                           (lits' ! 1 := watches s2 (lits' ! 1) @ [nw])\<rparr>))
            else None)
         else if val s (lits ! 0) = 0 then Some ([w], [], assign s1 (lits ! 0) (Some (w_clause w)))
         else Some ([w], [], s1\<lparr>conflict := Some (w_clause w)\<rparr>))"
      using assms(2,4) l2 u sc unfolding visit_watch_def s1_def lits_def
      by (simp add: Let_def)
    show ?thesis
    proof (cases "k < length lits")
      case False
      with v len assms(3) have "v < 0" by simp
      with False u show ?thesis unfolding base by simp
    next
      case kl: True
      with v have vk: "v = val s (lits ! k)" "0 \<le> v" by simp_all
      show ?thesis
      proof (cases "v > 0")
        case True
        with u kl vk show ?thesis unfolding base by simp
      next
        case False
        with vk have v0: "v = 0" "val s (lits ! k) = 0" by simp_all
        from kne[OF kl v0(2)] sw1[OF kl] have ne: "swap_lits 1 k lits ! 1 \<noteq> - L" by simp
        show ?thesis unfolding base
          using u kl v0 ne sw1[OF kl] by (simp add: Let_def s1_def watches_def)
      qed
    qed
  qed
  show ?thesis
    using l1 vw unfolding lits_def[symmetric] s1_def[symmetric] k_def[symmetric] Let_def
    by (simp add: lits_def[symmetric] s1_def[symmetric] k_def[symmetric])
qed

lemma visit_state_fields:
  "heap visit_state 0 = Some \<lparr>c_redundant = False, c_garbage = False, c_reason = False, c_size = 3,
                        c_glue = 0, c_resolved = 0, c_literals = [- 1, 2, 3]\<rparr>"
  "vals visit_state = (\<lambda>_. 0)(1 := 1, 2 := - 1)"
  "all_literal_watches visit_state = (\<lambda>_. [])"
  by (simp_all add: visit_state_def init_defs Let_def)

theorem visit_watch_long_clause_witness:
  "(1::int) \<noteq> 0 \<and> val visit_state 1 > 0
   \<and> \<not> val visit_state (w_blit \<lparr>w_blit = 2, w_size = 3, w_clause = 0\<rparr>) > 0
   \<and> w_size \<lparr>w_blit = 2, w_size = 3, w_clause = 0\<rparr> > 2
   \<and> (\<exists>s'. visit_watch 1 \<lparr>w_blit = 2, w_size = 3, w_clause = 0\<rparr> visit_state = Some ([], [], s')
          \<and> map_option c_literals (heap s' 0) = Some [2, 3, - 1]
          \<and> watches s' 3 = [\<lparr>w_blit = - 1, w_size = 3, w_clause = 0\<rparr>])"
proof -
  let ?w = "\<lparr>w_blit = 2, w_size = 3, w_clause = 0\<rparr>"
  let ?c = "\<lparr>c_redundant = False, c_garbage = False, c_reason = False, c_size = 3,
                        c_glue = 0, c_resolved = 0, c_literals = [- 1, 2, 3]\<rparr>"
  note f = visit_state_fields
  have h1: "(1::int) \<noteq> 0 \<and> val visit_state 1 > 0" by (simp add: val_def vidx_def f)
  have h2: "\<not> val visit_state (w_blit ?w) > 0" by (simp add: val_def vidx_def f)
  have h3: "w_size ?w > 2" by simp
  have h4: "heap visit_state (w_clause ?w) = Some ?c" by (simp add: f)
  have h5: "length (c_literals ?c) = w_size ?w" by simp
  have h6: "c_literals ?c ! 0 = - 1 \<or> c_literals ?c ! 1 = - 1" by simp
  from visit_watch_long_clause [OF h1 h2 h3 h4 h5 h6]
  have "visit_watch 1 ?w visit_state = Some ([], [],
      visit_state\<lparr>heap := (heap visit_state)(0 \<mapsto> ?c\<lparr>c_literals := [2, 3, - 1]\<rparr>),
        all_literal_watches := (all_literal_watches visit_state)
           (3 := watches visit_state 3 @ [\<lparr>w_blit = - 1, w_size = 3, w_clause = 0\<rparr>])\<rparr>)"
    by (simp add: Let_def swap_lits_def val_def vidx_def f)
  with h1 h2 h3 show ?thesis by (simp add: watches_def f)
qed


section \<open>Invariant preservation\<close>

subsection \<open>Views of the state\<close>

lemma valid_lit_uminus [simp]: "valid_lit s (- l) = valid_lit s l"
  by (simp add: valid_lit_def vidx_def)

lemma vidx_uminus [simp]: "vidx (- l) = vidx l"
  by (simp add: vidx_def)

lemma vidx_eq_cases: "vidx a = vidx b \<longleftrightarrow> a = b \<or> a = - b"
  by (auto simp: vidx_def)

lemma val_eq_vals: "val s l = (if l < 0 then - vals s (vidx l) else vals s (vidx l))"
  by (simp add: val_def Let_def)

lemma pos_of_Nil [simp]: "pos_of [] x = 0"
  by (simp add: pos_of_def)

lemma pos_of_Cons [simp]: "pos_of (a # xs) x = (if a = x then 0 else Suc (pos_of xs x))"
  by (simp add: pos_of_def)

lemma pos_of_less_iff: "pos_of xs x < length xs \<longleftrightarrow> x \<in> set xs"
  by (induction xs) auto

lemma pos_of_le: "pos_of xs x \<le> length xs"
  by (induction xs) auto

lemma pos_of_notin: "x \<notin> set xs \<Longrightarrow> pos_of xs x = length xs"
  by (induction xs) auto

lemma pos_of_nth: "x \<in> set xs \<Longrightarrow> xs ! pos_of xs x = x"
  by (induction xs) auto

lemma pos_of_append: "x \<in> set xs \<Longrightarrow> pos_of (xs @ ys) x = pos_of xs x"
  by (induction xs) auto

lemma pos_of_snoc_new: "x \<notin> set xs \<Longrightarrow> pos_of (xs @ [x]) x = length xs"
  by (induction xs) auto

lemma pos_of_nth_distinct: "distinct xs \<Longrightarrow> i < length xs \<Longrightarrow> pos_of xs (xs ! i) = i"
proof (induction xs arbitrary: i)
  case Nil
  then show ?case by simp
next
  case (Cons a xs)
  then show ?case by (cases i) auto
qed

lemma pos_of_take:
  "x \<in> set (take n xs) \<Longrightarrow> pos_of (take n xs) x = pos_of xs x"
  using pos_of_append[of x "take n xs" "drop n xs"] by simp

lemma pos_of_in_take: "x \<in> set xs \<Longrightarrow> pos_of xs x < n \<Longrightarrow> x \<in> set (take n xs)"
proof (induction xs arbitrary: n)
  case Nil
  then show ?case by simp
next
  case (Cons a xs)
  then show ?case by (cases n) (auto split: if_splits)
qed

lemma pos_of_take_less: "x \<in> set (take n xs) \<Longrightarrow> pos_of xs x < n"
  by (metis length_take min.strict_boundedE pos_of_less_iff pos_of_take)

subsection \<open>The assignment\<close>

lemma val_nonzero_iff: "val s l \<noteq> 0 \<longleftrightarrow> vals s (vidx l) \<noteq> 0"
  by (simp add: val_eq_vals)

lemma val_zero_iff: "val s l = 0 \<longleftrightarrow> vals s (vidx l) = 0"
  by (simp add: val_eq_vals)

lemma valid_lit_cases: "valid_lit s l \<Longrightarrow> l = int (vidx l) \<or> l = - int (vidx l)"
  by (auto simp: valid_lit_def vidx_def)

lemma valid_lit_idx: "valid_lit s l \<Longrightarrow> vidx l \<in> {1..max_var s}"
  by (auto simp: valid_lit_def vidx_def)

lemma int_vidx: "int (vidx l) = \<bar>l\<bar>"
  by (simp add: vidx_def)

lemma assigned_on_trail:
  assumes "assignment_inv s" "valid_lit s l"
  shows "val s l > 0 \<Longrightarrow> l \<in> set (trail s)" and "val s l < 0 \<Longrightarrow> - l \<in> set (trail s)"
    and "val s l = 1 \<or> val s l = 0 \<or> val s l = - 1"
proof -
  from assms(2) have i: "vidx l \<in> {1..max_var s}" by (rule valid_lit_idx)
  from assms(1) i have c: "vals s (vidx l) \<noteq> 0 \<longrightarrow>
           (vals s (vidx l) = 1 \<and> int (vidx l) \<in> set (trail s))
           \<or> (vals s (vidx l) = - 1 \<and> - int (vidx l) \<in> set (trail s))"
    unfolding assignment_inv_def by blast
  from assms(2) have l: "l \<noteq> 0" by (simp add: valid_lit_def)
  show "l \<in> set (trail s)" if "val s l > 0"
    using that c l by (cases "l < 0") (auto simp: val_eq_vals int_vidx split: if_splits)
  show "- l \<in> set (trail s)" if "val s l < 0"
    using that c l by (cases "l < 0") (auto simp: val_eq_vals int_vidx split: if_splits)
  show "val s l = 1 \<or> val s l = 0 \<or> val s l = - 1"
    using c by (auto simp: val_eq_vals)
qed

lemma trail_lit_props:
  assumes "assignment_inv s" "l \<in> set (trail s)"
  shows "valid_lit s l" "val s l = 1" "vals s (vidx l) \<noteq> 0" "l \<noteq> 0" "val s (- l) = - 1"
proof -
  from assms show v: "valid_lit s l" and o: "val s l = 1" unfolding assignment_inv_def by blast+
  from o show "vals s (vidx l) \<noteq> 0" by (auto simp: val_eq_vals split: if_splits)
  from v show nz: "l \<noteq> 0" by (simp add: valid_lit_def)
  from o nz show "val s (- l) = - 1" by (simp add: val_uminus)
qed

lemma trail_var_fresh:
  assumes "assignment_inv s" "l \<in> set (trail s)" "val s lit = 0"
  shows "vidx l \<noteq> vidx lit"
  using trail_lit_props(3)[OF assms(1,2)] assms(3) by (auto simp: val_zero_iff)

lemma assign_fields [simp]:
  "trail (assign s lit r) = trail s @ [lit]"
  "vals (assign s lit r) = (vals s)(vidx lit := sign lit)"
  "level (assign s lit r) = level s"
  "levels (assign s lit r) = levels s"
  "propagate_next (assign s lit r) = propagate_next s"
  "heap (assign s lit r) = heap s"
  "irredundant (assign s lit r) = irredundant s"
  "redundant (assign s lit r) = redundant s"
  "all_literal_watches (assign s lit r) = all_literal_watches s"
  "queue (assign s lit r) = queue s"
  "clause (assign s lit r) = clause s"
  "seen_literals (assign s lit r) = seen_literals s"
  "seen_levels (assign s lit r) = seen_levels s"
  "conflict (assign s lit r) = conflict s"
  "max_var (assign s lit r) = max_var s"
  "next_cref (assign s lit r) = next_cref s"
  "unsat (assign s lit r) = unsat s"
  "opts (assign s lit r) = opts s"
  "limits (assign s lit r) = limits s"
  "ema (assign s lit r) = ema s"
  "vars (assign s lit r) = (vars s)(vidx lit := (vars s (vidx lit))\<lparr>v_level := level s, v_reason := r\<rparr>)"
  by (simp_all add: assign_def Let_def)

lemma assign_views:
  "lit \<noteq> 0 \<Longrightarrow> val (assign s lit r) l =
     (if vidx l = vidx lit then (if l = lit then 1 else - 1) else val s l)"
  "lvl (assign s lit r) l = (if vidx l = vidx lit then level s else lvl s l)"
  "v_reason (var (assign s lit r) l) = (if vidx l = vidx lit then r else v_reason (var s l))"
  "v_seen (vars (assign s lit r) idx) = v_seen (vars s idx)"
  "v_prev (vars (assign s lit r) idx) = v_prev (vars s idx)"
  "v_next (vars (assign s lit r) idx) = v_next (vars s idx)"
  "v_bumped (vars (assign s lit r) idx) = v_bumped (vars s idx)"
  "clauses_of (assign s lit r) = clauses_of s"
  "lits_of (assign s lit r) c = lits_of s c"
  "watches (assign s lit r) l = watches s l"
  "valid_lit (assign s lit r) l = valid_lit s l"
  "wcount (assign s lit r) l c = wcount s l c"
  by (auto simp: val_eq_vals lvl_def var_def sign_def clauses_of_def lits_of_def watches_def
      valid_lit_def wcount_def vidx_eq_cases)

lemma assignment_inv_assign:
  assumes "assignment_inv s" "valid_lit s lit" "val s lit = 0"
  shows "assignment_inv (assign s lit r)"
proof -
  from assms(2) have nz: "lit \<noteq> 0" by (simp add: valid_lit_def)
  have fresh: "vidx l \<noteq> vidx lit" if "l \<in> set (trail s)" for l
    using trail_var_fresh[OF assms(1) that assms(3)] .
  have notin: "lit \<notin> set (trail s)" using fresh by blast
  have a: "valid_lit (assign s lit r) l \<and> val (assign s lit r) l = 1"
    if "l \<in> set (trail (assign s lit r))" for l
  proof (cases "l = lit")
    case True
    with assms(2) nz show ?thesis by (simp add: assign_views)
  next
    case False
    with that have "l \<in> set (trail s)" by simp
    with fresh[OF this] trail_lit_props[OF assms(1) this] nz show ?thesis
      by (simp add: assign_views)
  qed
  have b: "distinct (trail (assign s lit r))"
    using assms(1) notin by (simp add: assignment_inv_def)
  have c: "(vals (assign s lit r) idx = 1 \<and> int idx \<in> set (trail (assign s lit r)))
           \<or> (vals (assign s lit r) idx = - 1 \<and> - int idx \<in> set (trail (assign s lit r)))"
    if "idx \<in> {1..max_var (assign s lit r)}" "vals (assign s lit r) idx \<noteq> 0" for idx
  proof (cases "idx = vidx lit")
    case True
    with valid_lit_cases[OF assms(2)] nz show ?thesis
      by (auto simp: sign_def)
  next
    case False
    with that assms(1) show ?thesis unfolding assignment_inv_def by auto
  qed
  show ?thesis unfolding assignment_inv_def using a b c by blast
qed

lemma assign_old:
  assumes "val s lit = 0" "val s l \<noteq> 0" "lit \<noteq> 0"
  shows "val (assign s lit r) l = val s l" "lvl (assign s lit r) l = lvl s l"
    "v_reason (var (assign s lit r) l) = v_reason (var s l)" "vidx l \<noteq> vidx lit"
proof -
  from assms(1,2) show ne: "vidx l \<noteq> vidx lit" by (auto simp: val_zero_iff val_nonzero_iff)
  with assms(3) show "val (assign s lit r) l = val s l" "lvl (assign s lit r) l = lvl s l"
    "v_reason (var (assign s lit r) l) = v_reason (var s l)"
    by (simp_all add: assign_views)
qed

lemma assign_new:
  assumes "lit \<noteq> 0"
  shows "val (assign s lit r) lit = 1" "val (assign s lit r) (- lit) = - 1"
    "lvl (assign s lit r) lit = level s" "lvl (assign s lit r) (- lit) = level s"
  using assms by (simp_all add: assign_views)

lemma assign_trail_old:
  assumes "assignment_inv s" "val s lit = 0" "lit \<noteq> 0" "l \<in> set (trail s)"
  shows "val (assign s lit r) l = val s l" "lvl (assign s lit r) l = lvl s l"
    "v_reason (var (assign s lit r) l) = v_reason (var s l)" "l \<noteq> lit"
proof -
  from trail_lit_props(2)[OF assms(1,4)] have nz: "val s l \<noteq> 0" by simp
  from assign_old[OF assms(2) nz assms(3)]
  show "val (assign s lit r) l = val s l" "lvl (assign s lit r) l = lvl s l"
    "v_reason (var (assign s lit r) l) = v_reason (var s l)" by simp_all
  from nz assms(2) show "l \<noteq> lit" by auto
qed

lemma levels_inv_assign:
  assumes "assignment_inv s" "levels_inv s" "val s lit = 0" "lit \<noteq> 0"
  shows "levels_inv (assign s lit r)"
proof -
  have m: "map (lvl (assign s lit r)) (trail s) = map (lvl s) (trail s)"
    using assign_trail_old(2)[OF assms(1,3,4)] by simp
  have "sorted (map (lvl s) (trail s) @ [level s])"
    using assms(2) by (auto simp: levels_inv_def sorted_append)
  then have "sorted (map (lvl (assign s lit r)) (trail (assign s lit r)))"
    using assms(4) by (simp add: m assign_views)
  moreover have "lvl (assign s lit r) l \<le> level (assign s lit r)"
    if "l \<in> set (trail (assign s lit r))" for l
  proof (cases "l = lit")
    case True
    with assms(4) show ?thesis by (simp add: assign_views)
  next
    case False
    with that have "l \<in> set (trail s)" by simp
    with assign_trail_old(2)[OF assms(1,3,4) this] assms(2) show ?thesis
      by (simp add: levels_inv_def)
  qed
  ultimately show ?thesis using assms(2) by (simp add: levels_inv_def)
qed

lemma decisions_inv_assign:
  assumes "assignment_inv s" "decisions_inv s" "val s lit = 0" "lit \<noteq> 0"
  shows "decisions_inv (assign s lit r)"
  unfolding decisions_inv_def
proof (intro ballI)
  fix k assume "k \<in> {1..level (assign s lit r)}"
  then have k: "k \<in> {1..level s}" by simp
  let ?d = "l_decision (levels s ! k)"
  from assms(2) k have d: "?d \<in> set (trail s)" "lvl s ?d = k"
    and pre: "\<forall>l \<in> set (take (pos_of (trail s) ?d) (trail s)). lvl s l < k"
    unfolding decisions_inv_def by blast+
  have p: "pos_of (trail s @ [lit]) ?d = pos_of (trail s) ?d" using d(1) by (rule pos_of_append)
  have lt: "pos_of (trail s) ?d < length (trail s)" using d(1) by (simp add: pos_of_less_iff)
  have "lvl (assign s lit r) l < k"
    if "l \<in> set (take (pos_of (trail s) ?d) (trail s))" for l
  proof -
    from that have "l \<in> set (trail s)" by (rule in_set_takeD)
    from assign_trail_old(2)[OF assms(1,3,4) this] pre that show ?thesis by simp
  qed
  with d lt assign_trail_old(2)[OF assms(1,3,4) d(1)]
  show "l_decision (levels (assign s lit r) ! k) \<in> set (trail (assign s lit r)) \<and>
         lvl (assign s lit r) (l_decision (levels (assign s lit r) ! k)) = k \<and>
         (\<forall>l\<in>set (take (pos_of (trail (assign s lit r)) (l_decision (levels (assign s lit r) ! k)))
                     (trail (assign s lit r))).
             lvl (assign s lit r) l < k)"
    by (simp add: p)
qed

lemma pending_inv_assign:
  assumes "assignment_inv s" "pending_inv s" "val s lit = 0" "lit \<noteq> 0"
  shows "pending_inv (assign s lit r)"
proof -
  from assms(2) have le: "propagate_next s \<le> length (trail s)"
    and pe: "\<forall>l \<in> set (drop (propagate_next s) (trail s)). lvl s l = level s"
    by (simp_all add: pending_inv_def)
  have "lvl (assign s lit r) l = level s"
    if "l \<in> set (drop (propagate_next s) (trail s))" for l
    using assign_trail_old(2)[OF assms(1,3,4) in_set_dropD[OF that]] pe that by simp
  with le assms(4) show ?thesis by (auto simp: pending_inv_def assign_views)
qed

lemma queue_inv_assign: "queue_inv s \<Longrightarrow> queue_inv (assign s lit r)"
  by (simp add: queue_inv_def assign_views assign_def Let_def sign_def)

lemma store_inv_assign: "store_inv s \<Longrightarrow> store_inv (assign s lit r)"
  by (simp add: store_inv_def assign_views)

lemma scratch_inv_assign: "scratch_inv s \<Longrightarrow> scratch_inv (assign s lit r)"
  by (simp add: scratch_inv_def assign_views)

lemma root_sat_assign:
  assumes "val s lit = 0" "lit \<noteq> 0" "root_sat s lits"
  shows "root_sat (assign s lit r) lits"
proof -
  from assms(3) obtain l where l: "l \<in> set lits" "val s l > 0" "lvl s l = 0"
    unfolding root_sat_def by blast
  then have "val s l \<noteq> 0" by simp
  from assign_old(1,2)[OF assms(1) this assms(2)] l show ?thesis
    unfolding root_sat_def by (intro bexI[of _ l]) simp_all
qed

lemma watch_ok_assign: "watch_ok (assign s lit r) l w = watch_ok s l w"
  by (simp add: watch_ok_def assign_views)

lemma watches_inv_assign:
  assumes "watches_inv s" "val s lit = 0" "lit \<noteq> 0"
  shows "watches_inv (assign s lit r)"
  using assms(1) root_sat_assign[OF assms(2,3)]
  unfolding watches_inv_def by (simp add: assign_views watch_ok_assign) blast

lemma pos_of_snoc_cases:
  "pos_of (xs @ [y]) x =
     (if x \<in> set xs then pos_of xs x else if x = y then length xs else Suc (length xs))"
  by (induction xs) auto

lemma watched_inv_assign:
  assumes "assignment_inv s" "watched_inv s n" "val s lit = 0" "lit \<noteq> 0"
    and "n \<le> length (trail s)"
  shows "watched_inv (assign s lit r) n"
  unfolding watched_inv_def
proof (intro ballI impI)
  fix c p
  assume c: "c \<in> set (clauses_of (assign s lit r))"
    and nrs: "\<not> root_sat (assign s lit r) (lits_of (assign s lit r) c)"
    and p: "p \<in> {0, 1::nat}"
    and f: "val (assign s lit r) (lits_of (assign s lit r) c ! p) < 0 \<and>
        pos_of (trail (assign s lit r)) (- (lits_of (assign s lit r) c ! p)) < n"
  let ?x = "lits_of s c ! p"
  from c have c': "c \<in> set (clauses_of s)" by (simp add: assign_views)
  from nrs have nrs': "\<not> root_sat s (lits_of s c)"
    using root_sat_assign[OF assms(3,4)] by (auto simp: assign_views)
  from f have fx: "val (assign s lit r) ?x < 0" "pos_of (trail s @ [lit]) (- ?x) < n"
    by (simp_all add: assign_views)
  have nv: "vidx ?x \<noteq> vidx lit"
  proof
    assume e: "vidx ?x = vidx lit"
    with fx(1) assms(4) have "?x = - lit" by (auto simp: assign_views vidx_eq_cases split: if_splits)
    moreover have "lit \<notin> set (trail s)"
      using trail_lit_props(2)[OF assms(1)] assms(3) by auto
    ultimately have "pos_of (trail s @ [lit]) (- ?x) = length (trail s)"
      by (simp add: pos_of_snoc_cases)
    with fx(2) assms(5) show False by simp
  qed
  with fx(1) assms(4) have vx: "val s ?x < 0" by (simp add: assign_views)
  from nv have "- ?x \<noteq> lit" by (auto simp: vidx_eq_cases)
  with fx(2) assms(5) have inx: "- ?x \<in> set (trail s)" and px: "pos_of (trail s) (- ?x) < n"
    by (auto simp: pos_of_snoc_cases split: if_splits)
  from assms(2) c' nrs' p vx px obtain t where
    t: "t \<in> set (lits_of s c)" "val s t > 0" "lvl s t \<le> lvl s ?x"
    unfolding watched_inv_def by blast
  from t(2) have tn: "val s t \<noteq> 0" by simp
  from vx have xn: "val s ?x \<noteq> 0" by simp
  from assign_old(1,2)[OF assms(3) tn assms(4)] assign_old(2)[OF assms(3) xn assms(4)] t
  show "\<exists>t\<in>set (lits_of (assign s lit r) c).
          0 < val (assign s lit r) t \<and>
          lvl (assign s lit r) t \<le> lvl (assign s lit r) (lits_of (assign s lit r) c ! p)"
    by (intro bexI[of _ t]) (simp_all add: assign_views(9))
qed

lemma reasons_inv_assign:
  assumes "assignment_inv s" "reasons_inv s" "val s lit = 0" "lit \<noteq> 0"
    and new: "level s > 0 \<Longrightarrow>
      (case r of
         None \<Rightarrow> lit = l_decision (levels s ! level s)
       | Some c \<Rightarrow> c \<in> set (clauses_of s) \<and> lit \<in> set (lits_of s c)
           \<and> (\<forall>l' \<in> set (lits_of s c). l' \<noteq> lit \<longrightarrow> val s l' < 0 \<and> - l' \<in> set (trail s)))"
  shows "reasons_inv (assign s lit r)"
  unfolding reasons_inv_def
proof (intro ballI impI)
  fix l assume l: "l \<in> set (trail (assign s lit r))" and pos: "0 < lvl (assign s lit r) l"
  have notin: "lit \<notin> set (trail s)"
    using trail_lit_props(2)[OF assms(1)] assms(3) by auto
  show "case v_reason (var (assign s lit r) l) of
          None \<Rightarrow> l = l_decision (levels (assign s lit r) ! lvl (assign s lit r) l)
        | Some c \<Rightarrow> c \<in> set (clauses_of (assign s lit r)) \<and> l \<in> set (lits_of (assign s lit r) c)
            \<and> (\<forall>l'\<in>set (lits_of (assign s lit r) c). l' \<noteq> l \<longrightarrow>
                  val (assign s lit r) l' < 0
                  \<and> pos_of (trail (assign s lit r)) (- l') < pos_of (trail (assign s lit r)) l)"
  proof (cases "l = lit")
    case True
    with pos assms(4) have lv: "level s > 0" by (simp add: assign_views)
    show ?thesis
    proof (cases r)
      case None
      with new[OF lv] True assms(4) show ?thesis by (simp add: assign_views)
    next
      case (Some c)
      with new[OF lv] have c: "c \<in> set (clauses_of s)" "lit \<in> set (lits_of s c)"
        and o: "\<forall>l' \<in> set (lits_of s c). l' \<noteq> lit \<longrightarrow> val s l' < 0 \<and> - l' \<in> set (trail s)"
        by simp_all
      have "val (assign s lit r) l' < 0 \<and> pos_of (trail s @ [lit]) (- l') < pos_of (trail s @ [lit]) lit"
        if "l' \<in> set (lits_of s c)" "l' \<noteq> lit" for l'
      proof -
        from o that have v: "val s l' < 0" and i: "- l' \<in> set (trail s)" by auto
        from v have "val s l' \<noteq> 0" by simp
        from assign_old(1)[OF assms(3) this assms(4)] v have "val (assign s lit r) l' < 0" by simp
        moreover from i have "pos_of (trail s) (- l') < length (trail s)" by (simp add: pos_of_less_iff)
        ultimately show ?thesis using i notin by (simp add: pos_of_snoc_cases)
      qed
      with Some c True assms(4) show ?thesis by (simp add: assign_views)
    qed
  next
    case False
    with l have lt: "l \<in> set (trail s)" by simp
    note old = assign_trail_old[OF assms(1,3,4) lt]
    from pos old have pos': "0 < lvl s l" by simp
    from assms(2) lt pos' have R: "case v_reason (var s l) of
          None \<Rightarrow> l = l_decision (levels s ! lvl s l)
        | Some c \<Rightarrow> c \<in> set (clauses_of s) \<and> l \<in> set (lits_of s c)
            \<and> (\<forall>l'\<in>set (lits_of s c). l' \<noteq> l \<longrightarrow>
                  val s l' < 0 \<and> pos_of (trail s) (- l') < pos_of (trail s) l)"
      unfolding reasons_inv_def by blast
    show ?thesis
    proof (cases "v_reason (var s l)")
      case None
      with R old show ?thesis by simp
    next
      case (Some c)
      with R have c: "c \<in> set (clauses_of s)" "l \<in> set (lits_of s c)"
        and o: "\<forall>l'\<in>set (lits_of s c). l' \<noteq> l \<longrightarrow>
                  val s l' < 0 \<and> pos_of (trail s) (- l') < pos_of (trail s) l"
        by simp_all
      have pl: "pos_of (trail s) l < length (trail s)" using lt by (simp add: pos_of_less_iff)
      have "val (assign s lit r) l' < 0 \<and> pos_of (trail s @ [lit]) (- l') < pos_of (trail s @ [lit]) l"
        if "l' \<in> set (lits_of s c)" "l' \<noteq> l" for l'
      proof -
        from o that have v: "val s l' < 0" and i: "pos_of (trail s) (- l') < pos_of (trail s) l" by auto
        from v have "val s l' \<noteq> 0" by simp
        from assign_old(1)[OF assms(3) this assms(4)] v have "val (assign s lit r) l' < 0" by simp
        moreover from i pl have "- l' \<in> set (trail s)"
          using pos_of_less_iff[of "trail s" "- l'"] by simp
        ultimately show ?thesis using i lt by (simp add: pos_of_snoc_cases)
      qed
      with Some c old show ?thesis by (simp add: assign_views)
    qed
  qed
qed

subsection \<open>Backtracking\<close>

lemma unassign_eq:
  "\<exists>qn. unassign s lit = s\<lparr>vals := (vals s)(vidx lit := 0), queue := (queue s)\<lparr>q_next := qn\<rparr>\<rparr>
        \<and> (qn = q_next (queue s) \<or> qn = vidx lit)"
proof (cases "v_bumped (var (s\<lparr>vals := (vals s)(vidx lit := 0)\<rparr>)
      (int (q_next (queue (s\<lparr>vals := (vals s)(vidx lit := 0)\<rparr>)))))
      \<ge> v_bumped (vars (s\<lparr>vals := (vals s)(vidx lit := 0)\<rparr>) (vidx lit))")
  case True
  then have "unassign s lit = s\<lparr>vals := (vals s)(vidx lit := 0),
      queue := (queue s)\<lparr>q_next := q_next (queue s)\<rparr>\<rparr>"
    by (simp add: unassign_def Let_def)
  then show ?thesis by blast
next
  case False
  then have "unassign s lit = s\<lparr>vals := (vals s)(vidx lit := 0),
      queue := (queue s)\<lparr>q_next := vidx lit\<rparr>\<rparr>"
    by (simp add: unassign_def Let_def)
  then show ?thesis by blast
qed

lemma backtrack_loop_effect:
  assumes "backtrack_loop d s = Some s'" "distinct (trail s)"
  shows "d \<in> set (trail s) \<and>
    (\<exists>qn. s' = s\<lparr>vals := (\<lambda>idx. if idx \<in> vidx ` set (drop (pos_of (trail s) d) (trail s))
                                  then 0 else vals s idx),
                   queue := (queue s)\<lparr>q_next := qn\<rparr>,
                   trail := take (pos_of (trail s) d) (trail s)\<rparr>
          \<and> (qn = q_next (queue s) \<or> qn \<in> vidx ` set (drop (pos_of (trail s) d) (trail s))))"
  using assms
proof (induction d s rule: backtrack_loop.induct)
  case (1 d s)
  from 1(2) have ne: "trail s \<noteq> []"
    by (auto simp: backtrack_loop.simps[of d s] split: if_splits)
  let ?xs = "butlast (trail s)"
  let ?lit = "last (trail s)"
  have tr: "trail s = ?xs @ [?lit]" using ne by simp
  from 1(3) have dx: "distinct ?xs" "?lit \<notin> set ?xs"
    by (metis tr distinct_append distinct.simps(2) disjoint_iff list.set_intros(1))+
  from unassign_eq[of s ?lit] obtain qn0 where
    u: "unassign s ?lit = s\<lparr>vals := (vals s)(vidx ?lit := 0), queue := (queue s)\<lparr>q_next := qn0\<rparr>\<rparr>"
    and q0: "qn0 = q_next (queue s) \<or> qn0 = vidx ?lit" by blast
  let ?s1 = "(unassign s ?lit)\<lparr>trail := ?xs\<rparr>"
  show ?case
  proof (cases "?lit = d")
    case True
    with ne 1(2) have s': "s' = ?s1"
      by (simp add: backtrack_loop.simps[of d s] Let_def)
    have m: "pos_of (trail s) d = length ?xs"
      using pos_of_snoc_new[OF dx(2)] True tr by metis
    have dr: "drop (pos_of (trail s) d) (trail s) = [?lit]"
      unfolding m by (subst tr) simp
    have tk: "take (pos_of (trail s) d) (trail s) = ?xs"
      unfolding m by (subst tr) simp
    have v: "(\<lambda>idx. if idx \<in> vidx ` set [?lit] then 0 else vals s idx)
          = (vals s)(vidx ?lit := 0)"
      by (rule ext) simp
    have "d \<in> set (trail s)" using True ne by (metis last_in_set)
    moreover have "s' = s\<lparr>vals := (vals s)(vidx ?lit := 0), queue := (queue s)\<lparr>q_next := qn0\<rparr>,
        trail := ?xs\<rparr>"
      by (simp add: s' u)
    moreover have "qn0 = q_next (queue s) \<or> qn0 \<in> vidx ` set [?lit]" using q0 by simp
    ultimately show ?thesis unfolding dr tk v by blast
  next
    case False
    with ne 1(2) have r: "backtrack_loop d ?s1 = Some s'"
      by (simp add: backtrack_loop.simps[of d s] Let_def)
    have d1: "distinct (trail ?s1)" using dx by simp
    from 1(1)[OF ne refl refl False r d1] obtain qn where
      din: "d \<in> set ?xs"
      and s': "s' = ?s1\<lparr>vals := (\<lambda>idx. if idx \<in> vidx ` set (drop (pos_of ?xs d) ?xs)
                                  then 0 else vals ?s1 idx),
                   queue := (queue ?s1)\<lparr>q_next := qn\<rparr>,
                   trail := take (pos_of ?xs d) ?xs\<rparr>"
      and qn: "qn = q_next (queue ?s1) \<or> qn \<in> vidx ` set (drop (pos_of ?xs d) ?xs)"
      by auto
    have m: "pos_of (trail s) d = pos_of ?xs d"
      using pos_of_append[OF din, of "[?lit]"] tr by metis
    have lt: "pos_of ?xs d < length ?xs" using din pos_of_less_iff[of ?xs d] by blast
    have dr: "drop (pos_of (trail s) d) (trail s) = drop (pos_of ?xs d) ?xs @ [?lit]"
      unfolding m using lt by (subst tr) simp
    have tk: "take (pos_of (trail s) d) (trail s) = take (pos_of ?xs d) ?xs"
      unfolding m using lt by (subst tr) simp
    have v: "(\<lambda>idx. if idx \<in> vidx ` set (drop (pos_of ?xs d) ?xs) then 0 else vals ?s1 idx)
        = (\<lambda>idx. if idx \<in> vidx ` set (drop (pos_of (trail s) d) (trail s)) then 0 else vals s idx)"
      by (rule ext) (auto simp: dr u)
    have "d \<in> set (trail s)" using din by (metis in_set_butlastD)
    moreover have "s' = s\<lparr>vals := (\<lambda>idx. if idx \<in> vidx ` set (drop (pos_of (trail s) d) (trail s))
                                  then 0 else vals s idx),
                   queue := (queue s)\<lparr>q_next := qn\<rparr>,
                   trail := take (pos_of (trail s) d) (trail s)\<rparr>"
      unfolding s' v tk by (simp add: u)
    moreover have "qn = q_next (queue s) \<or> qn \<in> vidx ` set (drop (pos_of (trail s) d) (trail s))"
      using qn q0 by (auto simp: dr u)
    ultimately show ?thesis by blast
  qed
qed

lemma backtrack_backtracked:
  assumes "backtrack s t = Some s'" "t \<noteq> level s" "distinct (trail s)"
  shows "backtracked s t s'"
proof -
  let ?d = "l_decision (levels s ! (t + 1))"
  from assms(1,2) have lt: "t + 1 < length (levels s)"
    by (auto simp: backtrack_def split: if_splits)
  with assms(1,2) obtain s1 where s1: "backtrack_loop ?d s = Some s1"
    and s': "s' = (if length (trail s1) < propagate_next s1
                    then s1\<lparr>propagate_next := length (trail s1)\<rparr> else s1)
                 \<lparr>levels := take (t + 1) (levels (if length (trail s1) < propagate_next s1
                    then s1\<lparr>propagate_next := length (trail s1)\<rparr> else s1)), level := t\<rparr>"
    by (cases "backtrack_loop ?d s") (simp_all add: backtrack_def Let_def)
  from backtrack_loop_effect[OF s1 assms(3)] obtain qn where
    d: "?d \<in> set (trail s)"
    and e: "s1 = s\<lparr>vals := (\<lambda>idx. if idx \<in> vidx ` set (drop (pos_of (trail s) ?d) (trail s))
                                  then 0 else vals s idx),
                   queue := (queue s)\<lparr>q_next := qn\<rparr>,
                   trail := take (pos_of (trail s) ?d) (trail s)\<rparr>"
    and q: "qn = q_next (queue s) \<or> qn \<in> vidx ` set (drop (pos_of (trail s) ?d) (trail s))"
    by blast
  have len: "min (length (trail s)) (pos_of (trail s) ?d) = pos_of (trail s) ?d"
    using pos_of_le[of "trail s" ?d] by simp
  have "s' = s\<lparr>vals := (\<lambda>idx. if idx \<in> vidx ` set (drop (pos_of (trail s) ?d) (trail s))
                                  then 0 else vals s idx),
                   queue := (queue s)\<lparr>q_next := qn\<rparr>,
                   trail := take (pos_of (trail s) ?d) (trail s),
                   propagate_next := min (propagate_next s) (pos_of (trail s) ?d),
                   levels := take (t + 1) (levels s),
                   level := t\<rparr>"
  proof (cases "pos_of (trail s) ?d < propagate_next s")
    case True
    then have "min (propagate_next s) (pos_of (trail s) ?d) = pos_of (trail s) ?d" by simp
    with True show ?thesis unfolding s' e by (simp add: min_absorb2 pos_of_le)
  next
    case False
    then have "min (propagate_next s) (pos_of (trail s) ?d) = propagate_next s" by simp
    with False show ?thesis unfolding s' e by (simp add: min_absorb2 pos_of_le)
  qed
  with d q show ?thesis unfolding backtracked_def by blast
qed

lemma backtracked_fields:
  assumes "backtracked s t s'"
  shows "trail s' = take (pos_of (trail s) (l_decision (levels s ! (t + 1)))) (trail s)"
    "vals s' = (\<lambda>idx. if idx \<in> vidx ` set (drop (pos_of (trail s)
                       (l_decision (levels s ! (t + 1)))) (trail s)) then 0 else vals s idx)"
    "vars s' = vars s" "levels s' = take (t + 1) (levels s)" "level s' = t"
    "propagate_next s' = min (propagate_next s) (pos_of (trail s) (l_decision (levels s ! (t + 1))))"
    "heap s' = heap s" "irredundant s' = irredundant s" "redundant s' = redundant s"
    "all_literal_watches s' = all_literal_watches s" "max_var s' = max_var s"
    "next_cref s' = next_cref s" "clause s' = clause s" "seen_literals s' = seen_literals s"
    "seen_levels s' = seen_levels s" "conflict s' = conflict s" "unsat s' = unsat s"
    "stats s' = stats s" "opts s' = opts s" "limits s' = limits s" "ema s' = ema s"
    "q_first (queue s') = q_first (queue s)" "q_last (queue s') = q_last (queue s)"
    "q_next (queue s') = q_next (queue s)
      \<or> q_next (queue s') \<in> vidx ` set (drop (pos_of (trail s)
                       (l_decision (levels s ! (t + 1)))) (trail s))"
    "l_decision (levels s ! (t + 1)) \<in> set (trail s)"
  using assms unfolding backtracked_def by auto

lemma backtracked_views:
  assumes "backtracked s t s'"
  shows "val s' l = (if vidx l \<in> vidx ` set (drop (pos_of (trail s)
                       (l_decision (levels s ! (t + 1)))) (trail s)) then 0 else val s l)"
    "lvl s' l = lvl s l" "var s' l = var s l"
    "clauses_of s' = clauses_of s" "lits_of s' c = lits_of s c" "watches s' l = watches s l"
    "valid_lit s' l = valid_lit s l" "wcount s' l c = wcount s l c"
    "watch_ok s' l w = watch_ok s l w"
  using backtracked_fields[OF assms]
  by (simp_all add: val_eq_vals lvl_def var_def clauses_of_def lits_of_def watches_def
      valid_lit_def wcount_def watch_ok_def)

lemma lvl_uminus [simp]: "lvl s (- l) = lvl s l"
  by (simp add: lvl_def var_def)

lemma trail_same_var:
  assumes "assignment_inv s" "a \<in> set (trail s)" "b \<in> set (trail s)" "vidx a = vidx b"
  shows "a = b"
proof (rule ccontr)
  assume "a \<noteq> b"
  with assms(4) have "a = - b" by (simp add: vidx_eq_cases)
  with trail_lit_props(2,5)[OF assms(1,3)] trail_lit_props(2)[OF assms(1,2)] show False by simp
qed

lemma cut_levels:
  assumes "trail_inv s" "t < level s"
  defines "m \<equiv> pos_of (trail s) (l_decision (levels s ! (t + 1)))"
  shows "l \<in> set (take m (trail s)) \<Longrightarrow> lvl s l \<le> t"
    and "l \<in> set (drop m (trail s)) \<Longrightarrow> t < lvl s l"
    and "m < length (trail s)"
proof -
  let ?d = "l_decision (levels s ! (t + 1))"
  from assms(2) have k: "t + 1 \<in> {1..level s}" by simp
  from assms(1) k have d: "?d \<in> set (trail s)" "lvl s ?d = t + 1"
    and pre: "\<forall>l \<in> set (take m (trail s)). lvl s l < t + 1"
    unfolding trail_inv_def decisions_inv_def m_def by blast+
  from d(1) show lt: "m < length (trail s)" by (simp add: m_def pos_of_less_iff)
  have nm: "trail s ! m = ?d" using d(1) by (simp add: m_def pos_of_nth)
  show "lvl s l \<le> t" if "l \<in> set (take m (trail s))" using pre that by auto
  show "t < lvl s l" if "l \<in> set (drop m (trail s))"
  proof -
    from that obtain j where j: "j < length (drop m (trail s))" "drop m (trail s) ! j = l"
      by (auto simp: in_set_conv_nth)
    then have jl: "m + j < length (trail s)" and lj: "l = trail s ! (m + j)" by auto
    from assms(1) have "sorted (map (lvl s) (trail s))"
      by (simp add: trail_inv_def levels_inv_def)
    then have "map (lvl s) (trail s) ! m \<le> map (lvl s) (trail s) ! (m + j)"
      by (rule sorted_nth_mono) (use jl in auto)
    with lt jl have "lvl s (trail s ! m) \<le> lvl s (trail s ! (m + j))" by simp
    with nm d(2) lj show ?thesis by simp
  qed
qed

lemma backtracked_val:
  assumes "trail_inv s" "t < level s" "backtracked s t s'" "valid_lit s l"
  shows "val s' l = (if lvl s l \<le> t then val s l else 0)"
proof -
  let ?m = "pos_of (trail s) (l_decision (levels s ! (t + 1)))"
  from assms(1) have ai: "assignment_inv s" by (simp add: trail_inv_def)
  note cl = cut_levels[OF assms(1,2)]
  show ?thesis
  proof (cases "val s l = 0")
    case True
    then show ?thesis by (simp add: backtracked_views(1)[OF assms(3)])
  next
    case False
    with assigned_on_trail[OF ai assms(4)] obtain x where
      x: "x \<in> set (trail s)" "vidx x = vidx l" "lvl s x = lvl s l"
      by (cases "val s l > 0") force+
    have tr: "set (trail s) = set (take ?m (trail s)) \<union> set (drop ?m (trail s))"
      by (metis append_take_drop_id set_append)
    show ?thesis
    proof (cases "lvl s l \<le> t")
      case True
      have "vidx l \<notin> vidx ` set (drop ?m (trail s))"
      proof
        assume "vidx l \<in> vidx ` set (drop ?m (trail s))"
        then obtain y where y: "y \<in> set (drop ?m (trail s))" "vidx y = vidx l" by auto
        then have "y \<in> set (trail s)" by (meson in_set_dropD)
        with trail_same_var[OF ai this x(1)] y x have "y = x" by simp
        with cl(2)[OF y(1)] x(3) True show False by simp
      qed
      with True show ?thesis by (simp add: backtracked_views(1)[OF assms(3)])
    next
      case False
      with cl(1)[of x] x have "x \<notin> set (take ?m (trail s))" by auto
      with x(1) tr have "x \<in> set (drop ?m (trail s))" by blast
      then have "vidx x \<in> vidx ` set (drop ?m (trail s))" by (rule imageI)
      then have "vidx l \<in> vidx ` set (drop ?m (trail s))" unfolding x(2) .
      with False show ?thesis by (simp add: backtracked_views(1)[OF assms(3)])
    qed
  qed
qed

lemma backtracked_trail_mem:
  assumes "trail_inv s" "t < level s" "backtracked s t s'"
  shows "l \<in> set (trail s') \<longleftrightarrow> l \<in> set (trail s) \<and> lvl s l \<le> t"
proof -
  let ?m = "pos_of (trail s) (l_decision (levels s ! (t + 1)))"
  note cl = cut_levels[OF assms(1,2)]
  have tr: "set (trail s) = set (take ?m (trail s)) \<union> set (drop ?m (trail s))"
    by (metis append_take_drop_id set_append)
  show ?thesis
    unfolding backtracked_fields(1)[OF assms(3)]
    using cl(1)[of l] cl(2)[of l] tr by (auto dest: in_set_takeD)
qed

lemma assignment_inv_backtracked:
  assumes "trail_inv s" "t < level s" "backtracked s t s'"
  shows "assignment_inv s'"
proof -
  from assms(1) have ai: "assignment_inv s" by (simp add: trail_inv_def)
  note mem = backtracked_trail_mem[OF assms]
  note bv = backtracked_val[OF assms]
  have a: "valid_lit s' l \<and> val s' l = 1" if "l \<in> set (trail s')" for l
  proof -
    from that mem have l: "l \<in> set (trail s)" "lvl s l \<le> t" by auto
    from trail_lit_props(1,2)[OF ai l(1)] bv[of l] l(2) show ?thesis
      by (simp add: backtracked_views(7)[OF assms(3)])
  qed
  have b: "distinct (trail s')"
    using ai by (simp add: backtracked_fields(1)[OF assms(3)] assignment_inv_def)
  have c: "(vals s' idx = 1 \<and> int idx \<in> set (trail s'))
           \<or> (vals s' idx = - 1 \<and> - int idx \<in> set (trail s'))"
    if "idx \<in> {1..max_var s'}" "vals s' idx \<noteq> 0" for idx
  proof -
    from that(1) have i: "idx \<in> {1..max_var s}" by (simp add: backtracked_fields[OF assms(3)])
    then have v: "valid_lit s (int idx)" by (simp add: valid_lit_def vidx_def)
    have e: "val s' (int idx) = vals s' idx" "val s (int idx) = vals s idx"
      by (simp_all add: val_eq_vals vidx_def)
    from bv[OF v] that(2) e have le: "lvl s (int idx) \<le> t" and eq: "vals s' idx = vals s idx"
      by (auto split: if_splits)
    from ai i that(2) eq have "(vals s idx = 1 \<and> int idx \<in> set (trail s))
           \<or> (vals s idx = - 1 \<and> - int idx \<in> set (trail s))"
      unfolding assignment_inv_def by auto
    with le eq mem[of "int idx"] mem[of "- int idx"] show ?thesis by auto
  qed
  show ?thesis unfolding assignment_inv_def using a b c by blast
qed

lemma levels_inv_backtracked:
  assumes "trail_inv s" "t < level s" "backtracked s t s'"
  shows "levels_inv s'"
proof -
  from assms(1) have li: "levels_inv s" by (simp add: trail_inv_def)
  note f = backtracked_fields[OF assms(3)]
  have "length (levels s') = level s' + 1"
    using li assms(2) by (simp add: f levels_inv_def)
  moreover have "sorted (map (lvl s') (trail s'))"
  proof -
    have "map (lvl s') (trail s') = take (pos_of (trail s) (l_decision (levels s ! (t + 1))))
        (map (lvl s) (trail s))"
      by (simp add: f(1) take_map backtracked_views(2)[OF assms(3)])
    with li show ?thesis by (simp add: levels_inv_def sorted_wrt_take)
  qed
  moreover have "lvl s' l \<le> level s'" if "l \<in> set (trail s')" for l
    using that backtracked_trail_mem[OF assms] by (simp add: f(5) backtracked_views(2)[OF assms(3)])
  ultimately show ?thesis unfolding levels_inv_def by blast
qed

lemma decisions_inv_backtracked:
  assumes "trail_inv s" "t < level s" "backtracked s t s'"
  shows "decisions_inv s'"
  unfolding decisions_inv_def
proof (intro ballI)
  fix k assume "k \<in> {1..level s'}"
  then have k: "k \<in> {1..level s}" "k \<le> t" using assms(2) by (simp_all add: backtracked_fields(5)[OF assms(3)])
  note f = backtracked_fields[OF assms(3)]
  let ?m = "pos_of (trail s) (l_decision (levels s ! (t + 1)))"
  let ?d = "l_decision (levels s ! k)"
  from assms(1) have li: "levels_inv s" by (simp add: trail_inv_def)
  have dk: "l_decision (levels s' ! k) = ?d" using k(2) by (simp add: f(4))
  from assms(1) k(1) have d: "?d \<in> set (trail s)" "lvl s ?d = k"
    and pre: "\<forall>l \<in> set (take (pos_of (trail s) ?d) (trail s)). lvl s l < k"
    unfolding trail_inv_def decisions_inv_def by blast+
  from d k(2) have din: "?d \<in> set (trail s')" using backtracked_trail_mem[OF assms] by simp
  then have din': "?d \<in> set (take ?m (trail s))" by (simp add: f(1))
  have p: "pos_of (trail s') ?d = pos_of (trail s) ?d"
    unfolding f(1) using din' by (rule pos_of_take)
  have pl: "pos_of (trail s) ?d < ?m" using din' by (rule pos_of_take_less)
  have tk: "take (pos_of (trail s) ?d) (trail s') = take (pos_of (trail s) ?d) (trail s)"
    unfolding f(1) using pl by (simp add: min_absorb1)
  show "l_decision (levels s' ! k) \<in> set (trail s') \<and>
         lvl s' (l_decision (levels s' ! k)) = k \<and>
         (\<forall>l\<in>set (take (pos_of (trail s') (l_decision (levels s' ! k))) (trail s')). lvl s' l < k)"
    unfolding dk p tk using din d(2) pre by (simp add: backtracked_views(2)[OF assms(3)])
qed

lemma pending_inv_backtracked:
  assumes "trail_inv s" "pending_inv s" "t < level s" "backtracked s t s'"
  shows "pending_inv s'" and "propagate_next s' = length (trail s')"
proof -
  note f = backtracked_fields[OF assms(4)]
  let ?m = "pos_of (trail s) (l_decision (levels s ! (t + 1)))"
  note cl = cut_levels[OF assms(1,3)]
  have ge: "?m \<le> propagate_next s"
  proof (rule ccontr)
    assume "\<not> ?m \<le> propagate_next s"
    then have lt: "propagate_next s < ?m" by simp
    with cl(3) have pl: "propagate_next s < length (trail s)" by simp
    let ?l = "trail s ! propagate_next s"
    have "?l \<in> set (take ?m (trail s))" using lt pl
      by (metis in_set_conv_nth length_take min_less_iff_conj nth_take)
    from cl(1)[OF this] have "lvl s ?l \<le> t" .
    moreover have "?l \<in> set (drop (propagate_next s) (trail s))" using pl
      by (metis Cons_nth_drop_Suc list.set_intros(1))
    with assms(2) have "lvl s ?l = level s" by (simp add: pending_inv_def)
    ultimately show False using assms(3) by simp
  qed
  have len: "length (trail s') = ?m" using cl(3) by (simp add: f(1))
  show pn: "propagate_next s' = length (trail s')" using ge by (simp add: f(6) len)
  then show "pending_inv s'" by (simp add: pending_inv_def)
qed

lemma queue_inv_backtracked:
  assumes "trail_inv s" "queue_inv s" "backtracked s t s'"
  shows "queue_inv s'"
proof -
  note f = backtracked_fields[OF assms(3)]
  from assms(1) have ai: "assignment_inv s" by (simp add: trail_inv_def)
  have "q_next (queue s') \<le> max_var s"
  proof (cases "q_next (queue s') = q_next (queue s)")
    case True
    with assms(2) show ?thesis by (simp add: queue_inv_def)
  next
    case False
    with f(24) obtain l where l: "l \<in> set (trail s)" "q_next (queue s') = vidx l"
      by (auto dest: in_set_dropD)
    from trail_lit_props(1)[OF ai l(1)] l(2) show ?thesis by (simp add: valid_lit_def)
  qed
  moreover from assms(3) have "phases s' = phases s" unfolding backtracked_def by auto
  ultimately show ?thesis using assms(2) by (simp add: queue_inv_def f)
qed

lemma store_inv_backtracked:
  assumes "store_inv s" "backtracked s t s'"
  shows "store_inv s'"
  using assms(1) unfolding store_inv_def
  by (simp add: backtracked_views[OF assms(2)] backtracked_fields[OF assms(2)])

lemma scratch_inv_backtracked:
  assumes "scratch_inv s" "backtracked s t s'"
  shows "scratch_inv s'"
  using assms(1) unfolding scratch_inv_def
  by (auto simp: backtracked_fields[OF assms(2)] dest: in_set_takeD)

lemma root_sat_backtracked:
  assumes "trail_inv s" "t < level s" "backtracked s t s'" "\<forall>l \<in> set lits. valid_lit s l"
  shows "root_sat s' lits = root_sat s lits"
  unfolding root_sat_def
  using backtracked_val[OF assms(1,2,3)] assms(4)
  by (auto simp: backtracked_views(2)[OF assms(3)] split: if_splits)

lemma watches_inv_backtracked:
  assumes "trail_inv s" "t < level s" "backtracked s t s'" "store_inv s" "watches_inv s"
  shows "watches_inv s'"
proof -
  have rs: "root_sat s' (lits_of s r) = root_sat s (lits_of s r)" if "r \<in> set (clauses_of s)" for r
    using root_sat_backtracked[OF assms(1,2,3)] assms(4) that by (simp add: store_inv_def)
  show ?thesis
    using assms(5) rs unfolding watches_inv_def
    by (simp add: backtracked_views[OF assms(3)])
qed

lemma store_lits_valid:
  "store_inv s \<Longrightarrow> r \<in> set (clauses_of s) \<Longrightarrow> l \<in> set (lits_of s r) \<Longrightarrow> valid_lit s l"
  by (simp add: store_inv_def)

lemma store_len:
  "store_inv s \<Longrightarrow> r \<in> set (clauses_of s) \<Longrightarrow> 2 \<le> length (lits_of s r)"
  by (simp add: store_inv_def)

lemma store_nth01:
  assumes "store_inv s" "r \<in> set (clauses_of s)" "p \<in> {0, 1::nat}"
  shows "lits_of s r ! p \<in> set (lits_of s r)"
proof -
  from store_len[OF assms(1,2)] assms(3) have "p < length (lits_of s r)" by auto
  then show ?thesis by (rule nth_mem)
qed

lemma watched_inv_backtracked:
  assumes "trail_inv s" "t < level s" "backtracked s t s'" "store_inv s"
    and "watched_inv s n" "pos_of (trail s) (l_decision (levels s ! (t + 1))) \<le> n"
  shows "watched_inv s' (length (trail s'))"
  unfolding watched_inv_def
proof (intro ballI impI)
  fix c p
  assume c0: "c \<in> set (clauses_of s')" and nrs0: "\<not> root_sat s' (lits_of s' c)"
    and p: "p \<in> {0, 1::nat}"
    and f0: "val s' (lits_of s' c ! p) < 0 \<and>
      pos_of (trail s') (- (lits_of s' c ! p)) < length (trail s')"
  note v = backtracked_views[OF assms(3)]
  note bv = backtracked_val[OF assms(1,2,3)]
  let ?m = "pos_of (trail s) (l_decision (levels s ! (t + 1)))"
  let ?x = "lits_of s c ! p"
  from c0 have c: "c \<in> set (clauses_of s)" by (simp add: v)
  have val_c: "valid_lit s l" if "l \<in> set (lits_of s c)" for l
    using store_lits_valid[OF assms(4) c that] .
  from nrs0 have nrs: "\<not> root_sat s (lits_of s c)"
    using root_sat_backtracked[OF assms(1,2,3), of "lits_of s c"] val_c by (simp add: v)
  have xin: "?x \<in> set (lits_of s c)" by (rule store_nth01[OF assms(4) c p])
  from f0 have fx: "val s' ?x < 0" "pos_of (trail s') (- ?x) < length (trail s')"
    by (simp_all add: v)
  from fx(1) bv[OF val_c[OF xin]] have lx: "lvl s ?x \<le> t" and vx: "val s ?x < 0"
    by (auto split: if_splits)
  from fx(2) have "- ?x \<in> set (trail s')" by (simp add: pos_of_less_iff)
  then have nin: "- ?x \<in> set (take ?m (trail s))" by (simp add: backtracked_fields(1)[OF assms(3)])
  from pos_of_take_less[OF nin] assms(6) have "pos_of (trail s) (- ?x) < n" by simp
  with assms(5) c nrs p vx obtain t0 where
    t0: "t0 \<in> set (lits_of s c)" "val s t0 > 0" "lvl s t0 \<le> lvl s ?x"
    unfolding watched_inv_def by blast
  from t0(3) lx have "lvl s t0 \<le> t" by simp
  with bv[OF val_c[OF t0(1)]] t0(2) have "val s' t0 > 0" by simp
  with t0 show "\<exists>t\<in>set (lits_of s' c). 0 < val s' t \<and> lvl s' t \<le> lvl s' (lits_of s' c ! p)"
    by (intro bexI[of _ t0]) (simp_all add: v)
qed

lemma reasons_inv_backtracked:
  assumes "trail_inv s" "t < level s" "backtracked s t s'" "store_inv s" "reasons_inv s"
  shows "reasons_inv s'"
  unfolding reasons_inv_def
proof (intro ballI impI)
  fix l assume l0: "l \<in> set (trail s')" and pos0: "0 < lvl s' l"
  note v = backtracked_views[OF assms(3)]
  note f = backtracked_fields[OF assms(3)]
  note bv = backtracked_val[OF assms(1,2,3)]
  note mem = backtracked_trail_mem[OF assms(1,2,3)]
  let ?m = "pos_of (trail s) (l_decision (levels s ! (t + 1)))"
  from l0 mem have l: "l \<in> set (trail s)" "lvl s l \<le> t" by auto
  from pos0 have pos: "0 < lvl s l" by (simp add: v)
  from l0 have lin: "l \<in> set (take ?m (trail s))" by (simp add: f(1))
  have pl: "pos_of (trail s') l = pos_of (trail s) l"
    unfolding f(1) using lin by (rule pos_of_take)
  have plm: "pos_of (trail s) l < ?m" using lin by (rule pos_of_take_less)
  from assms(5) l(1) pos have R: "case v_reason (var s l) of
          None \<Rightarrow> l = l_decision (levels s ! lvl s l)
        | Some c \<Rightarrow> c \<in> set (clauses_of s) \<and> l \<in> set (lits_of s c)
            \<and> (\<forall>l'\<in>set (lits_of s c). l' \<noteq> l \<longrightarrow>
                  val s l' < 0 \<and> pos_of (trail s) (- l') < pos_of (trail s) l)"
    unfolding reasons_inv_def by blast
  show "case v_reason (var s' l) of
          None \<Rightarrow> l = l_decision (levels s' ! lvl s' l)
        | Some c \<Rightarrow> c \<in> set (clauses_of s') \<and> l \<in> set (lits_of s' c)
            \<and> (\<forall>l'\<in>set (lits_of s' c). l' \<noteq> l \<longrightarrow>
                  val s' l' < 0 \<and> pos_of (trail s') (- l') < pos_of (trail s') l)"
  proof (cases "v_reason (var s l)")
    case None
    with R l(2) show ?thesis by (simp add: v f(4))
  next
    case (Some c)
    with R have c: "c \<in> set (clauses_of s)" "l \<in> set (lits_of s c)"
      and o: "\<forall>l'\<in>set (lits_of s c). l' \<noteq> l \<longrightarrow>
                  val s l' < 0 \<and> pos_of (trail s) (- l') < pos_of (trail s) l"
      by simp_all
    have "val s' l' < 0 \<and> pos_of (trail s') (- l') < pos_of (trail s) l"
      if "l' \<in> set (lits_of s c)" "l' \<noteq> l" for l'
    proof -
      from o that have vl: "val s l' < 0" and pp: "pos_of (trail s) (- l') < pos_of (trail s) l"
        by auto
      from pp plm have lt: "pos_of (trail s) (- l') < ?m" by simp
      with cut_levels(3)[OF assms(1,2)] have "- l' \<in> set (trail s)"
        using pos_of_less_iff[of "trail s" "- l'"] by simp
      from pos_of_in_take[OF this lt] have nin: "- l' \<in> set (take ?m (trail s))" .
      from cut_levels(1)[OF assms(1,2) nin] have "lvl s l' \<le> t" by simp
      with bv[OF store_lits_valid[OF assms(4) c(1) that(1)]] vl have "val s' l' < 0" by simp
      moreover have "pos_of (trail s') (- l') = pos_of (trail s) (- l')"
        unfolding f(1) using nin by (rule pos_of_take)
      ultimately show ?thesis using pp by simp
    qed
    with Some c show ?thesis by (simp add: v pl)
  qed
qed

subsection \<open>The fixpoint of propagation\<close>

text \<open>
  C8 (refuted for clauses with a repeated literal): the formula with the one clause
  \<open>1 1 2\<close> over two variables is read as the clause \<open>[1, 1, 2]\<close>, watched on its first two
  literals, both \<open>1\<close>. The first round of \<open>search\<close> decides \<open>-2\<close>; then \<open>propagate\<close>
  visits the empty watch list of \<open>2\<close> and returns true with \<open>propagate_next\<close> at the end of
  the trail and no conflict, although the clause, which is not garbage, has the false
  literal \<open>2\<close> and the single unassigned literal \<open>1\<close>: it is unit and \<open>1\<close> is not assigned.
\<close>

theorem propagate_misses_repeated_literal:
  "\<exists>s0 s1 s2. parse_dimacs 2 [[1, 1, 2]] = Some s0
     \<and> search_step (init_solving s0) = Some (Inr s1)
     \<and> propagate s1 = Some (True, s2)
     \<and> conflict s2 = None \<and> propagate_next s2 = length (trail s2)
     \<and> map (lits_of s2) (clauses_of s2) = [[1, 1, 2]]
     \<and> map (\<lambda>r. c_garbage (the (heap s2 r))) (clauses_of s2) = [False]
     \<and> val s2 1 = 0 \<and> val s2 2 = - 1"
proof -
  have "case parse_dimacs 2 [[1, 1, 2]] of None \<Rightarrow> False | Some s0 \<Rightarrow>
   (case search_step (init_solving s0) of Some (Inr s1) \<Rightarrow>
      (case propagate s1 of Some (ok, s2) \<Rightarrow> ok \<and> conflict s2 = None \<and> propagate_next s2 = length (trail s2)
     \<and> map (lits_of s2) (clauses_of s2) = [[1, 1, 2]]
     \<and> map (\<lambda>r. c_garbage (the (heap s2 r))) (clauses_of s2) = [False]
     \<and> val s2 1 = 0 \<and> val s2 2 = - 1 | _ \<Rightarrow> False) | _ \<Rightarrow> False)"
    by code_simp
  then show ?thesis
    by (auto split: option.splits sum.splits)
qed

subsection \<open>Conflict analysis: the loop\<close>

lemma seen_frame_refl: "seen_frame s s"
  by (simp add: seen_frame_def)

lemma seen_frame_fields:
  assumes "seen_frame s s1"
  shows "trail s1 = trail s" "vals s1 = vals s" "level s1 = level s" "heap s1 = heap s"
    "max_var s1 = max_var s" "irredundant s1 = irredundant s" "redundant s1 = redundant s"
    "all_literal_watches s1 = all_literal_watches s" "queue s1 = queue s"
    "propagate_next s1 = propagate_next s" "conflict s1 = conflict s" "stats s1 = stats s"
    "ema s1 = ema s" "limits s1 = limits s" "opts s1 = opts s" "next_cref s1 = next_cref s"
    "phases s1 = phases s" "unsat s1 = unsat s" "iterating s1 = iterating s"
    "inc_reduce_conflicts s1 = inc_reduce_conflicts s"
    "length (levels s1) = length (levels s)"
proof -
  let ?t = "s1\<lparr>clause := clause s, seen_levels := seen_levels s,
      seen_literals := seen_literals s, levels := levels s, vars := vars s\<rparr>"
  from assms have e: "?t = s" by (simp add: seen_frame_def)
  show "trail s1 = trail s" using arg_cong[OF e, of trail] by simp
  show "vals s1 = vals s" using arg_cong[OF e, of vals] by simp
  show "level s1 = level s" using arg_cong[OF e, of level] by simp
  show "heap s1 = heap s" using arg_cong[OF e, of heap] by simp
  show "max_var s1 = max_var s" using arg_cong[OF e, of max_var] by simp
  show "irredundant s1 = irredundant s" using arg_cong[OF e, of irredundant] by simp
  show "redundant s1 = redundant s" using arg_cong[OF e, of redundant] by simp
  show "all_literal_watches s1 = all_literal_watches s"
    using arg_cong[OF e, of all_literal_watches] by simp
  show "queue s1 = queue s" using arg_cong[OF e, of queue] by simp
  show "propagate_next s1 = propagate_next s" using arg_cong[OF e, of propagate_next] by simp
  show "conflict s1 = conflict s" using arg_cong[OF e, of conflict] by simp
  show "stats s1 = stats s" using arg_cong[OF e, of stats] by simp
  show "ema s1 = ema s" using arg_cong[OF e, of ema] by simp
  show "limits s1 = limits s" using arg_cong[OF e, of limits] by simp
  show "opts s1 = opts s" using arg_cong[OF e, of opts] by simp
  show "next_cref s1 = next_cref s" using arg_cong[OF e, of next_cref] by simp
  show "phases s1 = phases s" using arg_cong[OF e, of phases] by simp
  show "unsat s1 = unsat s" using arg_cong[OF e, of unsat] by simp
  show "iterating s1 = iterating s" using arg_cong[OF e, of iterating] by simp
  show "inc_reduce_conflicts s1 = inc_reduce_conflicts s"
    using arg_cong[OF e, of inc_reduce_conflicts] by simp
  show "length (levels s1) = length (levels s)" using assms by (simp add: seen_frame_def)
qed

lemma seen_frame_var:
  assumes "seen_frame s s1"
  shows "v_level (vars s1 idx) = v_level (vars s idx)"
    "v_reason (vars s1 idx) = v_reason (vars s idx)"
    "v_bumped (vars s1 idx) = v_bumped (vars s idx)"
    "v_prev (vars s1 idx) = v_prev (vars s idx)"
    "v_next (vars s1 idx) = v_next (vars s idx)"
proof -
  from assms have e: "(vars s1 idx)\<lparr>v_seen := v_seen (vars s idx)\<rparr> = vars s idx"
    by (simp add: seen_frame_def)
  show "v_level (vars s1 idx) = v_level (vars s idx)" using arg_cong[OF e, of v_level] by simp
  show "v_reason (vars s1 idx) = v_reason (vars s idx)" using arg_cong[OF e, of v_reason] by simp
  show "v_bumped (vars s1 idx) = v_bumped (vars s idx)" using arg_cong[OF e, of v_bumped] by simp
  show "v_prev (vars s1 idx) = v_prev (vars s idx)" using arg_cong[OF e, of v_prev] by simp
  show "v_next (vars s1 idx) = v_next (vars s idx)" using arg_cong[OF e, of v_next] by simp
qed

lemma seen_frame_views:
  assumes "seen_frame s s1"
  shows "val s1 l = val s l" "lvl s1 l = lvl s l" "clauses_of s1 = clauses_of s"
    "lits_of s1 r = lits_of s r" "watches s1 l = watches s l" "valid_lit s1 l = valid_lit s l"
    "v_reason (var s1 l) = v_reason (var s l)" "v_level (var s1 l) = v_level (var s l)"
  using seen_frame_fields[OF assms] seen_frame_var[OF assms]
  by (simp_all add: val_eq_vals lvl_def var_def clauses_of_def lits_of_def watches_def
      valid_lit_def)

lemma an_inv_start:
  assumes "scratch_inv s"
  shows "an_inv s i 0 s"
  using assms by (auto simp: an_inv_def scratch_inv_def seen_frame_refl)

lemma seen_frame_step:
  assumes f: "seen_frame s s1" and k: "k < length (levels s)"
  shows "seen_frame s (s1\<lparr>clause := cl, levels := (levels s1)[k := (levels s1 ! k)\<lparr>l_seen := n\<rparr>],
            seen_levels := sl,
            vars := (vars s1)(idx := (vars s1 idx)\<lparr>v_seen := True\<rparr>),
            seen_literals := sls\<rparr>)"
proof -
  let ?t = "s1\<lparr>clause := clause s, seen_levels := seen_levels s,
      seen_literals := seen_literals s, levels := levels s, vars := vars s\<rparr>"
  from f have e: "?t = s" and len: "length (levels s1) = length (levels s)"
    and dec: "\<forall>k < length (levels s). l_decision (levels s1 ! k) = l_decision (levels s ! k)"
    and vs: "\<forall>idx. (vars s1 idx)\<lparr>v_seen := v_seen (vars s idx)\<rparr> = vars s idx"
    by (simp_all add: seen_frame_def)
  show ?thesis
    unfolding seen_frame_def
  proof (intro conjI allI impI)
    show "s1\<lparr>clause := cl, levels := (levels s1)[k := (levels s1 ! k)\<lparr>l_seen := n\<rparr>],
            seen_levels := sl,
            vars := (vars s1)(idx := (vars s1 idx)\<lparr>v_seen := True\<rparr>),
            seen_literals := sls\<rparr>\<lparr>clause := clause s, seen_levels := seen_levels s,
            seen_literals := seen_literals s, levels := levels s, vars := vars s\<rparr> = s"
      using e by simp
  next
    show "length (levels (s1\<lparr>clause := cl, levels := (levels s1)[k := (levels s1 ! k)\<lparr>l_seen := n\<rparr>],
            seen_levels := sl,
            vars := (vars s1)(idx := (vars s1 idx)\<lparr>v_seen := True\<rparr>),
            seen_literals := sls\<rparr>)) = length (levels s)"
      using len by simp
  next
    fix j assume "j < length (levels s)"
    then show "l_decision (levels (s1\<lparr>clause := cl, levels := (levels s1)[k := (levels s1 ! k)\<lparr>l_seen := n\<rparr>],
            seen_levels := sl,
            vars := (vars s1)(idx := (vars s1 idx)\<lparr>v_seen := True\<rparr>),
            seen_literals := sls\<rparr>) ! j) = l_decision (levels s ! j)"
      using dec len k by (simp add: nth_list_update)
  next
    fix j
    show "(vars (s1\<lparr>clause := cl, levels := (levels s1)[k := (levels s1 ! k)\<lparr>l_seen := n\<rparr>],
            seen_levels := sl,
            vars := (vars s1)(idx := (vars s1 idx)\<lparr>v_seen := True\<rparr>),
            seen_literals := sls\<rparr>) j)\<lparr>v_seen := v_seen (vars s j)\<rparr> = vars s j"
      using vs by simp
  qed
qed

lemma analyze_literal_an_inv:
  assumes inv: "an_inv s i opn s1" and tr: "trail_inv s"
    and lit: "valid_lit s lit"
    and cs: "(val s lit < 0 \<and> pos_of (trail s) (- lit) < i) \<or> - lit \<in> set (seen_literals s1)"
    and run: "analyze_literal s1 lit = Some (b, s2)"
  shows "an_inv s i (opn + (if b then 1 else 0)) s2 \<and> set (seen_literals s1) \<subseteq> set (seen_literals s2)"
proof -
  from inv have f: "seen_frame s s1" by (simp add: an_inv_def)
  have lv: "v_level (var s1 lit) = lvl s lit"
    using seen_frame_views[OF f] by (simp add: lvl_def)
  have len: "length (levels s1) = length (levels s)" "level s1 = level s"
    using seen_frame_fields[OF f] by simp_all
  from tr have li: "levels_inv s" and ai: "assignment_inv s" by (simp_all add: trail_inv_def)
  show ?thesis
  proof (cases "v_seen (var s1 lit) \<or> lvl s lit = 0")
    case True
    with run have "b = False \<and> s2 = s1"
      unfolding analyze_literal_def Let_def lv by (auto split: if_splits)
    with inv show ?thesis by simp
  next
    case False
    then have ns: "\<not> v_seen (vars s1 (vidx lit))" and pos: "0 < lvl s lit" by (simp_all add: var_def)
    from inv ns have nin: "vidx lit \<notin> vidx ` set (seen_literals s1)" by (simp add: an_inv_def)
    then have nl: "lit \<notin> set (seen_literals s1)" "- lit \<notin> set (seen_literals s1)"
      by (auto simp: image_iff)
    with cs have fl: "val s lit < 0" and pi: "pos_of (trail s) (- lit) < i" by simp_all
    from assigned_on_trail(2)[OF ai lit fl] li have le: "lvl s lit \<le> level s"
      by (auto simp: levels_inv_def dest!: bspec)
    from li le have k: "lvl s lit < length (levels s)" by (simp add: levels_inv_def)
    define old where "old = l_seen (levels s1 ! lvl s lit)"
    define s2' where "s2' = s1\<lparr>clause := (if lvl s lit < level s then clause s1 @ [lit] else clause s1),
         levels := (levels s1)[lvl s lit := (levels s1 ! lvl s lit)\<lparr>l_seen := old + 1\<rparr>],
         seen_levels := (if old = 0 then seen_levels s1 @ [lvl s lit] else seen_levels s1),
         vars := (vars s1)(vidx lit := (vars s1 (vidx lit))\<lparr>v_seen := True\<rparr>),
         seen_literals := seen_literals s1 @ [lit]\<rparr>"
    from False have ns': "\<not> v_seen (var s1 lit)" "lvl s lit \<noteq> 0" by simp_all
    from run ns' k have "b = (lvl s lit = level s) \<and> s2 = s2'"
      unfolding analyze_literal_def Let_def lv len s2'_def old_def by (simp split: if_splits)
    then have b: "b = (lvl s lit = level s)" and s2: "s2 = s2'" by simp_all
    have f2: "seen_frame s s2'" unfolding s2'_def by (rule seen_frame_step[OF f k])
    from inv have
      d: "distinct (seen_literals s1)" and
      sn: "\<forall>idx. v_seen (vars s1 idx) \<longleftrightarrow> idx \<in> vidx ` set (seen_literals s1)" and
      pr: "\<forall>l \<in> set (seen_literals s1). valid_lit s l \<and> val s l < 0 \<and> 0 < lvl s l" and
      cl: "clause s1 = filter (\<lambda>l. lvl s l < level s) (seen_literals s1)" and
      dl: "distinct (seen_levels s1)" and
      sl: "set (seen_levels s1) = lvl s ` set (seen_literals s1)" and
      ls: "\<forall>k < length (levels s). l_seen (levels s1 ! k) = 0 \<longleftrightarrow> k \<notin> set (seen_levels s1)" and
      op: "opn = int (length (filter (\<lambda>l. lvl s l = level s \<and> pos_of (trail s) (- l) < i)
                           (seen_literals s1)))"
      by (simp_all add: an_inv_def)
    from ls k have old0: "old = 0 \<longleftrightarrow> lvl s lit \<notin> set (seen_levels s1)" by (simp add: old_def)
    have c1: "distinct (seen_literals s2')" using d nl by (simp add: s2'_def)
    have c2: "\<forall>idx. v_seen (vars s2' idx) \<longleftrightarrow> idx \<in> vidx ` set (seen_literals s2')"
      using sn by (auto simp: s2'_def)
    have c3: "\<forall>l \<in> set (seen_literals s2'). valid_lit s l \<and> val s l < 0 \<and> 0 < lvl s l"
      using pr lit fl pos by (auto simp: s2'_def)
    have c4: "clause s2' = filter (\<lambda>l. lvl s l < level s) (seen_literals s2')"
      using cl by (simp add: s2'_def)
    have c5: "distinct (seen_levels s2')" using dl old0 by (simp add: s2'_def)
    have c6: "set (seen_levels s2') = lvl s ` set (seen_literals s2')"
      using sl old0 by (auto simp: s2'_def)
    have c7: "\<forall>k < length (levels s). l_seen (levels s2' ! k) = 0 \<longleftrightarrow> k \<notin> set (seen_levels s2')"
      using ls old0 k len by (auto simp: s2'_def nth_list_update)
    have c8: "opn + (if b then 1 else 0) =
        int (length (filter (\<lambda>l. lvl s l = level s \<and> pos_of (trail s) (- l) < i) (seen_literals s2')))"
      using op b pi by (simp add: s2'_def)
    have "an_inv s i (opn + (if b then 1 else 0)) s2'"
      unfolding an_inv_def using f2 c1 c2 c3 c4 c5 c6 c7 c8 by blast
    moreover have "set (seen_literals s1) \<subseteq> set (seen_literals s2')" by (auto simp: s2'_def)
    ultimately show ?thesis unfolding s2 by blast
  qed
qed

lemma analyze_reason_an_inv:
  assumes tr: "trail_inv s"
  shows "an_inv s i opn s1 \<Longrightarrow>
     \<forall>lit \<in> set lits. valid_lit s lit \<and>
        ((val s lit < 0 \<and> pos_of (trail s) (- lit) < i) \<or> - lit \<in> set (seen_literals s1)) \<Longrightarrow>
     analyze_reason lits n s1 = Some (m, s2) \<Longrightarrow>
     an_inv s i (opn + int m - int n) s2 \<and> set (seen_literals s1) \<subseteq> set (seen_literals s2)
       \<and> (\<forall>lit \<in> set lits. 0 < lvl s lit \<longrightarrow> vidx lit \<in> vidx ` set (seen_literals s2))"
proof (induction lits arbitrary: n opn s1)
  case Nil
  then show ?case by simp
next
  case (Cons lit rest)
  from Cons.prems(3) obtain b t where
    al: "analyze_literal s1 lit = Some (b, t)" and
    ar: "analyze_reason rest (if b then n + 1 else n) t = Some (m, s2)"
    by (auto split: option.splits)
  from Cons.prems(2) have l1: "valid_lit s lit"
    and l2: "(val s lit < 0 \<and> pos_of (trail s) (- lit) < i) \<or> - lit \<in> set (seen_literals s1)"
    by simp_all
  from analyze_literal_an_inv[OF Cons.prems(1) tr l1 l2 al]
  have i1: "an_inv s i (opn + (if b then 1 else 0)) t"
    and sub: "set (seen_literals s1) \<subseteq> set (seen_literals t)" by simp_all
  have rest: "\<forall>lit \<in> set rest. valid_lit s lit \<and>
        ((val s lit < 0 \<and> pos_of (trail s) (- lit) < i) \<or> - lit \<in> set (seen_literals t))"
    using Cons.prems(2) sub by auto
  from Cons.IH[OF i1 rest ar]
  have r1: "an_inv s i (opn + (if b then 1 else 0) + int m - int (if b then n + 1 else n)) s2"
    and r2: "set (seen_literals t) \<subseteq> set (seen_literals s2)"
    and r3: "\<forall>lit \<in> set rest. 0 < lvl s lit \<longrightarrow> vidx lit \<in> vidx ` set (seen_literals s2)"
    by simp_all
  have e: "opn + (if b then 1 else 0) + int m - int (if b then n + 1 else n) = opn + int m - int n"
    by simp
  have here: "0 < lvl s lit \<longrightarrow> vidx lit \<in> vidx ` set (seen_literals t)"
  proof
    assume p: "0 < lvl s lit"
    from i1 have f: "seen_frame s t"
      and sn: "\<forall>idx. v_seen (vars t idx) \<longleftrightarrow> idx \<in> vidx ` set (seen_literals t)"
      by (simp_all add: an_inv_def)
    from Cons.prems(1) have f1: "seen_frame s s1"
      and sn1: "\<forall>idx. v_seen (vars s1 idx) \<longleftrightarrow> idx \<in> vidx ` set (seen_literals s1)"
      by (simp_all add: an_inv_def)
    have lv: "v_level (var s1 lit) = lvl s lit" using seen_frame_views[OF f1] by (simp add: lvl_def)
    show "vidx lit \<in> vidx ` set (seen_literals t)"
    proof (cases "v_seen (var s1 lit)")
      case True
      with sn1 have "vidx lit \<in> vidx ` set (seen_literals s1)" by (simp add: var_def)
      with sub show ?thesis by auto
    next
      case False
      with al p lv have "lit \<in> set (seen_literals t)"
        unfolding analyze_literal_def Let_def by (auto split: if_splits)
      then show ?thesis by auto
    qed
  qed
  with r2 have here2: "0 < lvl s lit \<longrightarrow> vidx lit \<in> vidx ` set (seen_literals s2)" by auto
  from r1 e r2 sub r3 here2 show ?case by auto
qed

lemma find_seen_props:
  "find_seen s i = Some j \<Longrightarrow>
     j < i \<and> j < length (trail s) \<and> v_seen (var s (trail s ! j))
     \<and> (\<forall>k. j < k \<and> k < i \<longrightarrow> k < length (trail s) \<and> \<not> v_seen (var s (trail s ! k)))"
proof (induction i)
  case 0
  then show ?case by simp
next
  case (Suc i)
  show ?case
  proof (cases "v_seen (var s (trail s ! i))")
    case True
    with Suc.prems show ?thesis by (auto split: if_splits)
  next
    case False
    with Suc.prems have lt: "i < length (trail s)" and fs: "find_seen s i = Some j"
      by (auto split: if_splits)
    from Suc.IH[OF fs] False lt show ?thesis
      by (auto simp: less_Suc_eq)
  qed
qed

lemma length_filter_extra:
  assumes "distinct xs" "a \<in> set xs" "\<not> Q a" "\<forall>x \<in> set xs. P x \<longleftrightarrow> Q x \<or> x = a"
  shows "length (filter P xs) = Suc (length (filter Q xs))"
  using assms
proof (induction xs)
  case Nil
  then show ?case by simp
next
  case (Cons x xs)
  show ?case
  proof (cases "x = a")
    case True
    with Cons.prems have "a \<notin> set xs" and "\<forall>y \<in> set xs. P y \<longleftrightarrow> Q y" by auto
    then have "filter P xs = filter Q xs" by (auto intro: filter_cong)
    with True Cons.prems show ?thesis by simp
  next
    case False
    with Cons.prems have "length (filter P xs) = Suc (length (filter Q xs))"
      by (intro Cons.IH) auto
    with False Cons.prems show ?thesis by auto
  qed
qed

lemma an_inv_uip:
  assumes tr: "trail_inv s" and inv: "an_inv s i opn s1" and op: "0 < opn"
    and fs: "find_seen s1 i = Some j"
  shows "j < i \<and> j < length (trail s) \<and> lvl s (trail s ! j) = level s
     \<and> - (trail s ! j) \<in> set (seen_literals s1) \<and> an_inv s j (opn - 1) s1"
proof -
  from tr have li: "levels_inv s" and ai: "assignment_inv s" by (simp_all add: trail_inv_def)
  from ai have dt: "distinct (trail s)" by (simp add: assignment_inv_def)
  from inv have f: "seen_frame s s1"
    and d: "distinct (seen_literals s1)"
    and sn: "\<forall>idx. v_seen (vars s1 idx) \<longleftrightarrow> idx \<in> vidx ` set (seen_literals s1)"
    and pr: "\<forall>l \<in> set (seen_literals s1). valid_lit s l \<and> val s l < 0 \<and> 0 < lvl s l"
    and cnt: "opn = int (length (filter (\<lambda>l. lvl s l = level s \<and> pos_of (trail s) (- l) < i)
                           (seen_literals s1)))"
    by (simp_all add: an_inv_def)
  have t1: "trail s1 = trail s" using seen_frame_fields[OF f] by simp
  from find_seen_props[OF fs] have ji: "j < i" and jl: "j < length (trail s)"
    and js: "v_seen (var s1 (trail s ! j))"
    and gap: "\<forall>k. j < k \<and> k < i \<longrightarrow> \<not> v_seen (var s1 (trail s ! k))"
    by (simp_all add: t1)
  define u where "u = trail s ! j"
  from jl have ut: "u \<in> set (trail s)" by (simp add: u_def)
  have pu: "pos_of (trail s) u = j" unfolding u_def by (rule pos_of_nth_distinct[OF dt jl])
  have seen_pos: "pos_of (trail s) (- x) \<le> j"
    if x: "x \<in> set (seen_literals s1)" and xi: "pos_of (trail s) (- x) < i" for x
  proof (rule ccontr)
    assume "\<not> pos_of (trail s) (- x) \<le> j"
    with xi gap have n: "\<not> v_seen (var s1 (trail s ! pos_of (trail s) (- x)))" by simp
    from pr x have "valid_lit s x" "val s x < 0" by simp_all
    from assigned_on_trail(2)[OF ai this] have "- x \<in> set (trail s)" .
    then have "trail s ! pos_of (trail s) (- x) = - x" by (rule pos_of_nth)
    with n have "\<not> v_seen (vars s1 (vidx x))" by (simp add: var_def)
    with sn x show False by auto
  qed
  from op cnt have "filter (\<lambda>l. lvl s l = level s \<and> pos_of (trail s) (- l) < i)
      (seen_literals s1) \<noteq> []" by auto
  then obtain l0 where l0: "l0 \<in> set (seen_literals s1)" "lvl s l0 = level s"
      "pos_of (trail s) (- l0) < i"
    by (auto simp: filter_empty_conv)
  from seen_pos[OF l0(1) l0(3)] have p0: "pos_of (trail s) (- l0) \<le> j" .
  from pr l0(1) have "valid_lit s l0" "val s l0 < 0" by simp_all
  from assigned_on_trail(2)[OF ai this] have m0: "- l0 \<in> set (trail s)" .
  from li have "sorted (map (lvl s) (trail s))" by (simp add: levels_inv_def)
  from sorted_nth_mono[OF this, of "pos_of (trail s) (- l0)" j] p0 jl
  have "lvl s (trail s ! pos_of (trail s) (- l0)) \<le> lvl s (trail s ! j)" by simp
  with pos_of_nth[OF m0] l0(2) have "level s \<le> lvl s u" by (simp add: u_def)
  moreover from li ut have "lvl s u \<le> level s" by (simp add: levels_inv_def)
  ultimately have lu: "lvl s u = level s" by simp
  from js sn have "vidx u \<in> vidx ` set (seen_literals s1)" by (simp add: var_def u_def)
  then obtain l where l: "l \<in> set (seen_literals s1)" "vidx u = vidx l" by auto
  from trail_lit_props[OF ai ut] have "val s u = 1" by simp
  moreover from pr l(1) have "val s l < 0" by simp
  ultimately have "l \<noteq> u" by auto
  with l(2) have "u = - l" by (auto simp: vidx_eq_cases)
  with l(1) have mu: "- u \<in> set (seen_literals s1)" by simp
  let ?P = "\<lambda>l. lvl s l = level s \<and> pos_of (trail s) (- l) < i"
  let ?Q = "\<lambda>l. lvl s l = level s \<and> pos_of (trail s) (- l) < j"
  have nq: "\<not> ?Q (- u)" using pu by simp
  have pq: "\<forall>x \<in> set (seen_literals s1). ?P x \<longleftrightarrow> ?Q x \<or> x = - u"
  proof
    fix x assume x: "x \<in> set (seen_literals s1)"
    show "?P x \<longleftrightarrow> ?Q x \<or> x = - u"
    proof
      assume P: "?P x"
      show "?Q x \<or> x = - u"
      proof (cases "pos_of (trail s) (- x) < j")
        case True
        with P show ?thesis by simp
      next
        case False
        with seen_pos[OF x] P have e: "pos_of (trail s) (- x) = j" by simp
        from pr x have "valid_lit s x" "val s x < 0" by simp_all
        from assigned_on_trail(2)[OF ai this] have "- x \<in> set (trail s)" .
        from pos_of_nth[OF this] e have "- x = u" by (simp add: u_def)
        then show ?thesis by auto
      qed
    next
      assume "?Q x \<or> x = - u"
      then show "?P x" using ji lu pu by auto
    qed
  qed
  from length_filter_extra[of "seen_literals s1" "- u" ?Q ?P, OF d mu nq pq] cnt
  have c': "opn - 1 = int (length (filter ?Q (seen_literals s1)))" by simp
  have "an_inv s j (opn - 1) s1"
    using inv c' unfolding an_inv_def by blast
  with ji jl lu mu show ?thesis by (simp add: u_def)
qed

lemma analyze_loop_an_inv:
  assumes tr: "trail_inv s" and rs: "reasons_inv s" and st: "store_inv s" and lp: "0 < level s"
  shows "an_inv s i opn s1 \<Longrightarrow>
     reason \<in> set (clauses_of s) \<Longrightarrow>
     \<forall>lit \<in> set (lits_of s reason).
        (val s lit < 0 \<and> pos_of (trail s) (- lit) < i) \<or> - lit \<in> set (seen_literals s1) \<Longrightarrow>
     0 < opn \<or> (\<exists>lit \<in> set (lits_of s reason).
        lvl s lit = level s \<and> val s lit < 0 \<and> pos_of (trail s) (- lit) < i) \<Longrightarrow>
     analyze_loop reason opn i s1 = Some (uip, s2) \<Longrightarrow>
     \<exists>j. an_inv s j 0 s2 \<and> uip \<in> set (trail s) \<and> lvl s uip = level s
        \<and> - uip \<in> set (seen_literals s2)"
proof (induction reason opn i s1 rule: analyze_loop.induct)
  case (1 reason opn i s1)
  from tr have ai: "assignment_inv s" by (simp add: trail_inv_def)
  from ai have dt: "distinct (trail s)" by (simp add: assignment_inv_def)
  from "1.prems"(1) have f1: "seen_frame s s1" by (simp add: an_inv_def)
  from st "1.prems"(2) have "reason \<in> dom (heap s)" by (simp add: store_inv_def)
  then obtain c where hc: "heap s reason = Some c" by auto
  then have hc1: "heap s1 reason = Some c" using seen_frame_fields[OF f1] by simp
  from hc have lc: "c_literals c = lits_of s reason" by (simp add: lits_of_def)
  from "1.prems"(5) hc1 obtain n t where
    ar: "analyze_reason (c_literals c) 0 s1 = Some (n, t)"
    by (subst (asm) analyze_loop.simps) (auto split: option.splits)
  from "1.prems"(5) hc1 ar obtain j where fsn: "find_seen t i = Some j"
    by (subst (asm) analyze_loop.simps) (auto split: option.splits)
  have lits: "\<forall>lit \<in> set (c_literals c). valid_lit s lit \<and>
        ((val s lit < 0 \<and> pos_of (trail s) (- lit) < i) \<or> - lit \<in> set (seen_literals s1))"
    using "1.prems"(3) store_lits_valid[OF st "1.prems"(2)] by (simp add: lc)
  from analyze_reason_an_inv[OF tr "1.prems"(1) lits ar]
  have i2: "an_inv s i (opn + int n) t"
    and sub: "set (seen_literals s1) \<subseteq> set (seen_literals t)"
    and all: "\<forall>lit \<in> set (lits_of s reason). 0 < lvl s lit \<longrightarrow> vidx lit \<in> vidx ` set (seen_literals t)"
    by (simp_all add: lc)
  from i2 have ft: "seen_frame s t"
    and pr: "\<forall>l \<in> set (seen_literals t). valid_lit s l \<and> val s l < 0 \<and> 0 < lvl s l"
    and cnt: "opn + int n = int (length (filter (\<lambda>l. lvl s l = level s \<and> pos_of (trail s) (- l) < i)
                           (seen_literals t)))"
    by (simp_all add: an_inv_def)
  have pos: "0 < opn + int n"
  proof (cases "0 < opn")
    case True
    then show ?thesis by simp
  next
    case False
    with "1.prems"(4) obtain lit where lit: "lit \<in> set (lits_of s reason)" "lvl s lit = level s"
        "val s lit < 0" "pos_of (trail s) (- lit) < i" by auto
    with all lp obtain l where l: "l \<in> set (seen_literals t)" "vidx lit = vidx l" by auto
    with pr have "val s l < 0" by simp
    with lit(3) l(2) have "l = lit" by (auto simp: vidx_eq_cases val_eq_vals split: if_splits)
    with l(1) lit have "lit \<in> set (filter (\<lambda>l. lvl s l = level s \<and> pos_of (trail s) (- l) < i)
                           (seen_literals t))" by simp
    then have "0 < length (filter (\<lambda>l. lvl s l = level s \<and> pos_of (trail s) (- l) < i)
                           (seen_literals t))" by (simp only: length_pos_if_in_set)
    with cnt show ?thesis by simp
  qed
  from an_inv_uip[OF tr i2 pos fsn]
  have ji: "j < i" and jl: "j < length (trail s)" and lu: "lvl s (trail s ! j) = level s"
    and mu: "- (trail s ! j) \<in> set (seen_literals t)"
    and i3: "an_inv s j (opn + int n - 1) t" by simp_all
  have tt: "trail t = trail s" using seen_frame_fields[OF ft] by simp
  define u where "u = trail s ! j"
  from jl have ut: "u \<in> set (trail s)" by (simp add: u_def)
  have pu: "pos_of (trail s) u = j" unfolding u_def by (rule pos_of_nth_distinct[OF dt jl])
  show ?case
  proof (cases "opn + int n - 1 = 0")
    case True
    with "1.prems"(5) hc1 ar fsn have "uip = u" "s2 = t"
      by (subst (asm) analyze_loop.simps; simp add: tt u_def)+
    with i3 True ut lu mu show ?thesis by (auto simp: u_def)
  next
    case False
    with "1.prems"(5) hc1 ar fsn obtain r where
      vr: "v_reason (var t u) = Some r" and
      rec: "analyze_loop r (opn + int n - 1) j t = Some (uip, s2)"
      by (subst (asm) analyze_loop.simps) (auto simp: tt u_def Let_def split: option.splits)
    from vr have vr': "v_reason (var s u) = Some r" using seen_frame_views[OF ft] by simp
    from rs ut lu lp vr' have rc: "r \<in> set (clauses_of s)"
      and others: "\<forall>l' \<in> set (lits_of s r). l' \<noteq> u \<longrightarrow>
                   val s l' < 0 \<and> pos_of (trail s) (- l') < pos_of (trail s) u"
      by (auto simp: reasons_inv_def u_def dest!: bspec)
    have p3: "\<forall>lit \<in> set (lits_of s r).
        (val s lit < 0 \<and> pos_of (trail s) (- lit) < j) \<or> - lit \<in> set (seen_literals t)"
      using others mu pu by (auto simp: u_def)
    from i3 have "0 \<le> opn + int n - 1" by (simp add: an_inv_def)
    with False have p4: "0 < opn + int n - 1" by simp
    from "1.IH"[OF hc1 ar refl fsn refl refl False _ i3 rc p3 _ _] vr rec p4
    show ?thesis by (simp add: tt u_def)
  qed
qed

subsection \<open>States that agree on the assignment, the store and the watches\<close>

lemma same_core_refl [simp]: "same_core s s"
  by (simp add: same_core_def)

lemma same_core_trans: "same_core s t \<Longrightarrow> same_core t u \<Longrightarrow> same_core s u"
  by (simp add: same_core_def)

lemma same_core_sym: "same_core s t \<Longrightarrow> same_core t s"
  by (simp add: same_core_def)

lemma seen_frame_same_core:
  assumes f: "seen_frame s s1"
  shows "same_core s s1"
proof -
  from f have "\<forall>k < length (levels s). l_decision (levels s1 ! k) = l_decision (levels s ! k)"
    by (simp add: seen_frame_def)
  then show ?thesis
    unfolding same_core_def
    by (simp add: seen_frame_fields[OF f] seen_frame_var[OF f])
qed

lemma same_core_views:
  assumes "same_core s s'"
  shows "val s' l = val s l" "lvl s' l = lvl s l" "clauses_of s' = clauses_of s"
    "lits_of s' r = lits_of s r" "watches s' l = watches s l" "valid_lit s' l = valid_lit s l"
    "v_reason (var s' l) = v_reason (var s l)" "wcount s' l r = wcount s l r"
    "root_sat s' ls = root_sat s ls" "watch_ok s' l w = watch_ok s l w"
proof -
  note c = assms[unfolded same_core_def]
  show v: "val s' l = val s l" for l using c by (simp add: val_eq_vals)
  show lv: "lvl s' l = lvl s l" for l using c by (simp add: lvl_def var_def)
  show co: "clauses_of s' = clauses_of s" using c by (simp add: clauses_of_def)
  show lo: "lits_of s' r = lits_of s r" for r using c by (simp add: lits_of_def)
  show w: "watches s' l = watches s l" for l using c by (simp add: watches_def)
  show "valid_lit s' l = valid_lit s l" using c by (simp add: valid_lit_def)
  show "v_reason (var s' l) = v_reason (var s l)" using c by (simp add: var_def)
  show "wcount s' l r = wcount s l r" using w by (simp add: wcount_def)
  show "root_sat s' ls = root_sat s ls" using v lv by (simp add: root_sat_def)
  show "watch_ok s' l w = watch_ok s l w" using c co lo by (simp add: watch_ok_def)
qed

lemma same_core_lvl_fun: "same_core s s' \<Longrightarrow> lvl s' = lvl s"
  by (rule ext) (rule same_core_views)

lemma same_core_invs:
  assumes c: "same_core s s'"
  shows "trail_inv s' = trail_inv s" "pending_inv s' = pending_inv s"
    "store_inv s' = store_inv s" "watches_inv s' = watches_inv s"
    "watched_inv s' n = watched_inv s n" "levels_inv s \<Longrightarrow> reasons_inv s' = reasons_inv s"
proof -
  note v = same_core_views[OF c] same_core_lvl_fun[OF c]
  note f = c[unfolded same_core_def]
  have a: "assignment_inv s' = assignment_inv s" using f by (simp add: assignment_inv_def v)
  have l: "levels_inv s' = levels_inv s" using f by (simp add: levels_inv_def v)
  have d: "decisions_inv s' = decisions_inv s" if "levels_inv s"
  proof -
    from that have "\<forall>k \<in> {1..level s}. k < length (levels s)" by (simp add: levels_inv_def)
    with f have "\<forall>k \<in> {1..level s}. l_decision (levels s' ! k) = l_decision (levels s ! k)"
      by simp
    then show ?thesis using f by (simp add: decisions_inv_def v)
  qed
  show "trail_inv s' = trail_inv s" using a l d by (auto simp: trail_inv_def)
  show "pending_inv s' = pending_inv s" using f by (simp add: pending_inv_def v)
  show "store_inv s' = store_inv s" using f by (simp add: store_inv_def v)
  show "watches_inv s' = watches_inv s" by (simp add: watches_inv_def v)
  show "watched_inv s' n = watched_inv s n" using f by (simp add: watched_inv_def v)
  show "reasons_inv s' = reasons_inv s" if "levels_inv s"
  proof -
    from that have "\<forall>l \<in> set (trail s). lvl s l < length (levels s)"
      by (auto simp: levels_inv_def)
    with f have "\<forall>l \<in> set (trail s).
        l_decision (levels s' ! lvl s l) = l_decision (levels s ! lvl s l)" by simp
    then show ?thesis using f
      by (simp add: reasons_inv_def v cong: option.case_cong)
  qed
qed

lemma same_core_conflict_ok:
  "same_core s s' \<Longrightarrow> conflict s' = conflict s \<Longrightarrow> conflict_ok s' = conflict_ok s"
proof -
  assume c: "same_core s s'" and e: "conflict s' = conflict s"
  show ?thesis
    unfolding conflict_ok_def e
    by (simp add: same_core_views[OF c] c[unfolded same_core_def] cong: option.case_cong)
qed

lemma dequeue_core: "same_core s (dequeue s idx)"
  by (simp add: dequeue_def Let_def same_core_def)

lemma enqueue_core: "same_core s (enqueue s idx)"
  by (simp add: enqueue_def Let_def same_core_def)

lemma bump_literal_core: "same_core s (bump_literal u l s)"
proof -
  define s1 where "s1 = s\<lparr>vars := (vars s)(vidx l := (vars s (vidx l))\<lparr>v_seen := False,
      v_minimized := False, v_poison := False\<rparr>)\<rparr>"
  have c1: "same_core s s1" by (simp add: s1_def same_core_def)
  define s2 where "s2 = (if q_next (queue s1) = vidx l
                      then s1\<lparr>queue := (queue s1)\<lparr>q_next :=
                             (if v_prev (vars s1 (vidx l)) \<noteq> 0 then v_prev (vars s1 (vidx l))
                              else v_next (vars s1 (vidx l)))\<rparr>\<rparr>
                      else s1)"
  have c2: "same_core s1 s2" by (simp add: s2_def same_core_def)
  define s3 where "s3 = enqueue (dequeue s2 (vidx l)) (vidx l)"
  have c3: "same_core s2 s3" unfolding s3_def
    by (rule same_core_trans[OF dequeue_core enqueue_core])
  define s4 where "s4 = s3\<lparr>stats := (stats s3)\<lparr>bumped := bumped (stats s3) + 1\<rparr>,
      vars := (vars s3)(vidx l := (vars s3 (vidx l))\<lparr>v_bumped := bumped (stats s3) + 1\<rparr>)\<rparr>"
  have c4: "same_core s3 s4" by (simp add: s4_def same_core_def)
  have c5: "same_core s4 (s4\<lparr>queue := (queue s4)\<lparr>q_next := vidx l\<rparr>\<rparr>)"
    by (simp add: same_core_def)
  have e: "bump_literal u l s = (if v_next (vars s1 (vidx l)) = 0 then s1
       else if vidx l \<noteq> u \<and> vals s4 (vidx l) = 0
            then s4\<lparr>queue := (queue s4)\<lparr>q_next := vidx l\<rparr>\<rparr> else s4)"
    unfolding bump_literal_def Let_def s1_def s2_def s3_def s4_def by simp
  from c1 c2 have c12: "same_core s s2" by (rule same_core_trans)
  from c12 c3 have c13: "same_core s s3" by (rule same_core_trans)
  from c13 c4 have c14: "same_core s s4" by (rule same_core_trans)
  from c14 c5 have c15: "same_core s (s4\<lparr>queue := (queue s4)\<lparr>q_next := vidx l\<rparr>\<rparr>)"
    by (rule same_core_trans)
  from c1 c14 c15 show ?thesis unfolding e by simp
qed

lemma fold_bump_literal_core: "same_core s (fold (bump_literal u) ls s)"
proof (induction ls arbitrary: s)
  case Nil
  show ?case by simp
next
  case (Cons l ls)
  from same_core_trans[OF bump_literal_core Cons] show ?case by simp
qed

lemma bump_and_clear_core: "same_core s (bump_and_clear_seen_literals s u)"
proof -
  have "same_core s (s\<lparr>seen_literals := xs\<rparr>)" for xs by (simp add: same_core_def)
  from same_core_trans[OF this fold_bump_literal_core]
  have "same_core s (fold (bump_literal (vidx u)) ys (s\<lparr>seen_literals := xs\<rparr>))" for xs ys .
  then have "same_core s ((fold (bump_literal (vidx u)) ys (s\<lparr>seen_literals := xs\<rparr>))\<lparr>seen_literals := []\<rparr>)"
    for xs ys by (simp add: same_core_def)
  then show ?thesis by (simp add: bump_and_clear_seen_literals_def Let_def)
qed

lemma clear_levels_loop_core: "same_core s (clear_levels_loop ls s)"
proof (induction ls arbitrary: s)
  case Nil
  show ?case by simp
next
  case (Cons l ls)
  have "same_core s (if l < length (levels s)
        then s\<lparr>levels := (levels s)[l := (levels s ! l)\<lparr>l_seen := 0\<rparr>]\<rparr> else s)"
    by (simp add: same_core_def nth_list_update)
  from same_core_trans[OF this Cons] show ?case by simp
qed

lemma clear_levels_core: "same_core s (clear_levels s)"
  using clear_levels_loop_core[of s "seen_levels s"]
  by (simp add: clear_levels_def same_core_def)

lemma bump_clause_core:
  assumes "bump_clause s r = Some s1"
  shows "same_core s s1" "conflict s1 = conflict s" "clause s1 = clause s"
    "seen_literals s1 = seen_literals s" "seen_levels s1 = seen_levels s"
    "vars s1 = vars s" "levels s1 = levels s" "queue s1 = queue s" "stats s1 = stats s"
    "unsat s1 = unsat s" "opts s1 = opts s"
  using assms
  by (auto simp: bump_clause_def same_core_def split: option.splits if_splits)

subsection \<open>Conflict analysis: the stages of \<open>analyze\<close>\<close>

lemma sort_by_single [simp]: "sort_by lt [x] = [x]"
  by (simp add: sort_by_def)

lemma analyze_stages:
  assumes c: "conflict s = Some confl" and l: "0 < level s" and a: "analyze s = Some s'"
  shows "\<exists>s1 uip s2 drv jmp s7 s8.
     bump_clause s confl = Some s1
     \<and> analyze_loop confl 0 (length (trail s1)) s1 = Some (uip, s2)
     \<and> learnt s2 uip drv jmp s7
     \<and> backtrack s7 jmp = Some s8
     \<and> s' = (clear_levels ((bump_and_clear_seen_literals (assign s8 (- uip) drv) uip)
               \<lparr>clause := []\<rparr>))\<lparr>conflict := None\<rparr>"
proof -
  from a c l obtain s1 where b: "bump_clause s confl = Some s1"
    by (auto simp: analyze_def split: Option.bind_splits)
  from a c l b obtain uip s2 where lo: "analyze_loop confl 0 (length (trail s1)) s1 = Some (uip, s2)"
    by (auto simp: analyze_def split: Option.bind_splits)
  define lits0 where "lits0 = clause s2 @ [- uip]"
  define glue where "glue = int (length (seen_levels s2))"
  define s5 where "s5 = s2\<lparr>clause := lits0,
     ema := (ema s2)\<lparr>learned_glue_slow := EMA_update (learned_glue_slow (ema s2)) (real_of_int glue),
                     learned_glue_fast := EMA_update (learned_glue_fast (ema s2)) (real_of_int glue)\<rparr>\<rparr>"
  show ?thesis
  proof (cases "length lits0 = 1")
    case True
    define s7 where "s7 = s5\<lparr>stats := (stats s5)\<lparr>learned_units := learned_units (stats s5) + 1\<rparr>,
        ema := (ema s5)\<lparr>jump := EMA_update (jump (ema s5)) 0\<rparr>\<rparr>"
    from a c l b lo True obtain s8 where
      bt: "backtrack s7 0 = Some s8" and
      fin: "s' = (clear_levels ((bump_and_clear_seen_literals (assign s8 (- uip) None) uip)
               \<lparr>clause := []\<rparr>))\<lparr>conflict := None\<rparr>"
      by (auto simp: analyze_def Let_def lits0_def glue_def s5_def s7_def split: Option.bind_splits)
    from True obtain x where x: "lits0 = [x]" by (cases lits0) auto
    have "learnt s2 uip None 0 s7"
      unfolding learnt_def Let_def lits0_def[symmetric]
      by (simp add: x s7_def s5_def)
    with b lo bt fin show ?thesis by blast
  next
    case False
    define t where "t = s5\<lparr>clause := sort_by (level_greater_than s5) lits0\<rparr>"
    from a c l b lo False obtain r t1 where
      nl: "new_learned_clause t glue = Some (r, t1)"
      unfolding analyze_def Let_def
      by (auto simp: lits0_def glue_def s5_def t_def split: Option.bind_splits)
    define jmp where "jmp = v_level (var t1 (clause t1 ! 1))"
    define s7 where "s7 = t1\<lparr>ema := (ema t1)\<lparr>jump := EMA_update (jump (ema t1)) (real jmp)\<rparr>\<rparr>"
    from a c l b lo False nl obtain s8 where
      bt: "backtrack s7 jmp = Some s8" and
      fin: "s' = (clear_levels ((bump_and_clear_seen_literals (assign s8 (- uip) (Some r)) uip)
               \<lparr>clause := []\<rparr>))\<lparr>conflict := None\<rparr>"
      unfolding analyze_def Let_def
      by (auto simp: lits0_def glue_def s5_def t_def s7_def jmp_def split: Option.bind_splits)
    have lg: "level_greater_than s5 = level_greater_than s2"
      by (intro ext) (simp add: level_greater_than_def s5_def var_def)
    define lits where "lits = sort_by (level_greater_than s2) lits0"
    have ll: "length lits = length lits0" by (simp add: lits_def length_sort_by)
    have t1: "t1 = t\<lparr>heap := (heap t)(next_cref t \<mapsto>
                        \<lparr>c_redundant = True, c_garbage = False, c_reason = False,
                         c_size = length lits, c_glue = glue,
                         c_resolved = conflicts (stats t), c_literals = lits\<rparr>),
                 next_cref := next_cref t + 1,
                 redundant := redundant t @ [next_cref t],
                 all_literal_watches := (\<lambda>l. all_literal_watches t l
                          @ (if l = lits ! 0
                             then [\<lparr>w_blit = lits ! 1, w_size = length lits, w_clause = next_cref t\<rparr>]
                             else [])
                          @ (if l = lits ! 1
                             then [\<lparr>w_blit = lits ! 0, w_size = length lits, w_clause = next_cref t\<rparr>]
                             else []))\<rparr>"
      and r: "r = next_cref t"
      using nl
      by (auto simp: new_learned_clause_def new_clause_def watch_clause_def watch_literal_def
          Let_def t_def lg lits_def[symmetric] watches_def fun_eq_iff
          split: option.splits if_splits)
    have lg': "level_greater_than (s2\<lparr>clause := x, ema := y\<rparr>) = level_greater_than s2" for x y
      by (intro ext) (simp add: level_greater_than_def var_def)
    have "learnt s2 uip (Some r) jmp s7"
      unfolding learnt_def Let_def lits0_def[symmetric] lits_def[symmetric]
      using False ll
      by (simp add: s7_def t1 r t_def s5_def jmp_def lvl_def var_def lg' lits_def[symmetric] glue_def
          cong del: if_weak_cong)
    with b lo bt fin show ?thesis by blast
  qed
qed

lemma analyze_loop_result:
  assumes tr: "trail_inv s" and rs: "reasons_inv s" and st: "store_inv s"
    and sc: "scratch_inv s" and co: "conflict_ok s" and c: "conflict s = Some confl"
    and lp: "0 < level s" and b: "bump_clause s confl = Some s1"
    and lo: "analyze_loop confl 0 (length (trail s1)) s1 = Some (uip, s2)"
  shows "same_core s s2" "seen_frame s1 s2"
    "uip \<in> set (trail s)" "lvl s uip = level s" "- uip \<in> set (seen_literals s2)"
    "distinct (seen_literals s2)"
    "\<forall>idx. v_seen (vars s2 idx) \<longleftrightarrow> idx \<in> vidx ` set (seen_literals s2)"
    "\<forall>l \<in> set (seen_literals s2). valid_lit s l \<and> val s l < 0 \<and> 0 < lvl s l \<and> lvl s l \<le> level s"
    "clause s2 = filter (\<lambda>l. lvl s l < level s) (seen_literals s2)"
    "distinct (seen_levels s2)" "set (seen_levels s2) = lvl s ` set (seen_literals s2)"
    "\<forall>k < length (levels s). l_seen (levels s2 ! k) = 0 \<longleftrightarrow> k \<notin> set (seen_levels s2)"
proof -
  note bc = bump_clause_core[OF b]
  note v1 = same_core_views[OF bc(1)] same_core_lvl_fun[OF bc(1)]
  from tr have li: "levels_inv s" and ai: "assignment_inv s" by (simp_all add: trail_inv_def)
  have tr1: "trail_inv s1" using tr same_core_invs(1)[OF bc(1)] by simp
  have rs1: "reasons_inv s1" using rs same_core_invs(6)[OF bc(1) li] by simp
  have st1: "store_inv s1" using st same_core_invs(3)[OF bc(1)] by simp
  have sc1: "scratch_inv s1" using sc bc by (simp add: scratch_inv_def)
  have f1: "trail s1 = trail s" "level s1 = level s" using bc(1) by (simp_all add: same_core_def)
  from co c have cin: "confl \<in> set (clauses_of s)"
    and cf: "\<forall>l \<in> set (lits_of s confl). val s l < 0"
    and cl: "\<exists>l \<in> set (lits_of s confl). lvl s l = level s"
    by (simp_all add: conflict_ok_def)
  have p: "pos_of (trail s) (- l) < length (trail s)" if "l \<in> set (lits_of s confl)" for l
  proof -
    from store_lits_valid[OF st cin that] cf that have "- l \<in> set (trail s)"
      using assigned_on_trail(2)[OF ai] by blast
    then show ?thesis by (simp add: pos_of_less_iff)
  qed
  have h1: "confl \<in> set (clauses_of s1)" using cin by (simp add: v1)
  have h2: "\<forall>lit \<in> set (lits_of s1 confl).
        (val s1 lit < 0 \<and> pos_of (trail s1) (- lit) < length (trail s1))
        \<or> - lit \<in> set (seen_literals s1)"
    using cf p by (simp add: v1 f1)
  have h3: "0 < (0::int) \<or> (\<exists>lit \<in> set (lits_of s1 confl).
        lvl s1 lit = level s1 \<and> val s1 lit < 0 \<and> pos_of (trail s1) (- lit) < length (trail s1))"
    using cf cl p by (auto simp: v1 f1)
  have lp1: "0 < level s1" using lp by (simp add: f1)
  from analyze_loop_an_inv[OF tr1 rs1 st1 lp1 an_inv_start[OF sc1] h1 h2 h3 lo]
  obtain j where inv: "an_inv s1 j 0 s2" and u: "uip \<in> set (trail s1)" "lvl s1 uip = level s1"
      "- uip \<in> set (seen_literals s2)" by blast
  from inv show f: "seen_frame s1 s2" by (simp add: an_inv_def)
  show "same_core s s2" by (rule same_core_trans[OF bc(1) seen_frame_same_core[OF f]])
  show "uip \<in> set (trail s)" "lvl s uip = level s" "- uip \<in> set (seen_literals s2)"
    using u by (simp_all add: v1 f1)
  from inv show "distinct (seen_literals s2)"
    "\<forall>idx. v_seen (vars s2 idx) \<longleftrightarrow> idx \<in> vidx ` set (seen_literals s2)"
    "distinct (seen_levels s2)"
    by (simp_all add: an_inv_def)
  from inv have pr: "\<forall>l \<in> set (seen_literals s2). valid_lit s l \<and> val s l < 0 \<and> 0 < lvl s l"
    by (simp add: an_inv_def v1)
  show "\<forall>l \<in> set (seen_literals s2). valid_lit s l \<and> val s l < 0 \<and> 0 < lvl s l \<and> lvl s l \<le> level s"
  proof
    fix l assume l: "l \<in> set (seen_literals s2)"
    with pr have a: "valid_lit s l" "val s l < 0" "0 < lvl s l" by simp_all
    from li have "\<forall>x \<in> set (trail s). lvl s x \<le> level s" by (simp add: levels_inv_def)
    from this[rule_format, OF assigned_on_trail(2)[OF ai a(1,2)]]
    have "lvl s (- l) \<le> level s" .
    with a show "valid_lit s l \<and> val s l < 0 \<and> 0 < lvl s l \<and> lvl s l \<le> level s" by simp
  qed
  from inv show "clause s2 = filter (\<lambda>l. lvl s l < level s) (seen_literals s2)"
    "set (seen_levels s2) = lvl s ` set (seen_literals s2)"
    by (simp_all add: an_inv_def v1 f1)
  from inv have "\<forall>k < length (levels s1). l_seen (levels s2 ! k) = 0 \<longleftrightarrow> k \<notin> set (seen_levels s2)"
    by (simp add: an_inv_def)
  then show "\<forall>k < length (levels s). l_seen (levels s2 ! k) = 0 \<longleftrightarrow> k \<notin> set (seen_levels s2)"
    by (simp add: bc)
qed

lemma sort_by_level_desc:
  "sorted_wrt (\<lambda>a b. lvl s b \<le> lvl s a) (sort_by (level_greater_than s) xs)"
proof -
  have "sorted_wrt (\<lambda>x y. \<not> level_greater_than s y x) (sort_by (level_greater_than s) xs)"
    by (rule sorted_sort_by) (auto simp: level_greater_than_def)
  then show ?thesis by (simp add: level_greater_than_def lvl_def not_less)
qed

lemma learned_sorted:
  assumes low: "\<forall>l \<in> set cl. lvl s l < lvl s u" and d: "distinct cl"
  defines "lits \<equiv> sort_by (level_greater_than s) (cl @ [u])"
  shows "lits ! 0 = u" "mset (tl lits) = mset cl" "lits \<noteq> []" "distinct lits"
    "\<forall>l \<in> set (tl lits). lvl s l \<le> lvl s (lits ! 1)" "length lits = length cl + 1"
proof -
  have ms: "mset lits = add_mset u (mset cl)" by (simp add: lits_def mset_sort_by)
  have st: "set lits = insert u (set cl)" by (simp add: lits_def set_sort_by)
  show len: "length lits = length cl + 1" by (simp add: lits_def length_sort_by)
  then show ne: "lits \<noteq> []" by auto
  then obtain a rest where ar: "lits = a # rest" by (cases lits) auto
  have so: "sorted_wrt (\<lambda>a b. lvl s b \<le> lvl s a) lits"
    unfolding lits_def by (rule sort_by_level_desc)
  have "a = u"
  proof (rule ccontr)
    assume n: "a \<noteq> u"
    with st ar have "a \<in> set cl" by auto
    with low have 1: "lvl s a < lvl s u" by simp
    from st ar n have "u \<in> set rest" by auto
    with so ar have "lvl s u \<le> lvl s a" by simp
    with 1 show False by simp
  qed
  with ar show "lits ! 0 = u" by simp
  from ms ar \<open>a = u\<close> show mt: "mset (tl lits) = mset cl" by simp
  from low have "u \<notin> set cl" by auto
  with d have "distinct (cl @ [u])" by simp
  moreover have "mset lits = mset (cl @ [u])" by (simp add: ms)
  ultimately show "distinct lits" using mset_eq_imp_distinct_iff by blast
  show "\<forall>l \<in> set (tl lits). lvl s l \<le> lvl s (lits ! 1)"
  proof (cases rest)
    case Nil
    with ar show ?thesis by simp
  next
    case (Cons b rest')
    with so ar show ?thesis by auto
  qed
qed

subsection \<open>Bumping and clearing\<close>

lemma bump_frame_refl [simp]: "bump_frame s s"
  by (simp add: bump_frame_def)

lemma bump_frame_trans:
  assumes "bump_frame s t" "bump_frame t u"
  shows "bump_frame s u"
proof -
  from assms(2) have "u\<lparr>vars := vars t, queue := queue t, stats := stats t,
        seen_literals := seen_literals t\<rparr> = t" by (simp add: bump_frame_def)
  then have "(u\<lparr>vars := vars t, queue := queue t, stats := stats t,
        seen_literals := seen_literals t\<rparr>)\<lparr>vars := vars s, queue := queue s, stats := stats s,
        seen_literals := seen_literals s\<rparr> = t\<lparr>vars := vars s, queue := queue s, stats := stats s,
        seen_literals := seen_literals s\<rparr>" by (rule arg_cong)
  with assms(1) show ?thesis by (simp add: bump_frame_def)
qed

lemma bump_frame_fields:
  assumes "bump_frame s s'"
  shows "trail s' = trail s" "vals s' = vals s" "level s' = level s" "heap s' = heap s"
    "max_var s' = max_var s" "irredundant s' = irredundant s" "redundant s' = redundant s"
    "all_literal_watches s' = all_literal_watches s" "levels s' = levels s"
    "propagate_next s' = propagate_next s" "conflict s' = conflict s"
    "ema s' = ema s" "limits s' = limits s" "opts s' = opts s" "next_cref s' = next_cref s"
    "phases s' = phases s" "unsat s' = unsat s" "iterating s' = iterating s"
    "inc_reduce_conflicts s' = inc_reduce_conflicts s" "clause s' = clause s"
    "seen_levels s' = seen_levels s"
proof -
  let ?t = "s'\<lparr>vars := vars s, queue := queue s, stats := stats s,
        seen_literals := seen_literals s\<rparr>"
  from assms have e: "?t = s" by (simp add: bump_frame_def)
  show "trail s' = trail s" using arg_cong[OF e, of trail] by simp
  show "vals s' = vals s" using arg_cong[OF e, of vals] by simp
  show "level s' = level s" using arg_cong[OF e, of level] by simp
  show "heap s' = heap s" using arg_cong[OF e, of heap] by simp
  show "max_var s' = max_var s" using arg_cong[OF e, of max_var] by simp
  show "irredundant s' = irredundant s" using arg_cong[OF e, of irredundant] by simp
  show "redundant s' = redundant s" using arg_cong[OF e, of redundant] by simp
  show "all_literal_watches s' = all_literal_watches s"
    using arg_cong[OF e, of all_literal_watches] by simp
  show "levels s' = levels s" using arg_cong[OF e, of levels] by simp
  show "propagate_next s' = propagate_next s" using arg_cong[OF e, of propagate_next] by simp
  show "conflict s' = conflict s" using arg_cong[OF e, of conflict] by simp
  show "ema s' = ema s" using arg_cong[OF e, of ema] by simp
  show "limits s' = limits s" using arg_cong[OF e, of limits] by simp
  show "opts s' = opts s" using arg_cong[OF e, of opts] by simp
  show "next_cref s' = next_cref s" using arg_cong[OF e, of next_cref] by simp
  show "phases s' = phases s" using arg_cong[OF e, of phases] by simp
  show "unsat s' = unsat s" using arg_cong[OF e, of unsat] by simp
  show "iterating s' = iterating s" using arg_cong[OF e, of iterating] by simp
  show "inc_reduce_conflicts s' = inc_reduce_conflicts s"
    using arg_cong[OF e, of inc_reduce_conflicts] by simp
  show "clause s' = clause s" using arg_cong[OF e, of clause] by simp
  show "seen_levels s' = seen_levels s" using arg_cong[OF e, of seen_levels] by simp
qed

lemma dequeue_frame: "bump_frame s (dequeue s idx)"
  by (simp add: dequeue_def Let_def bump_frame_def)

lemma enqueue_frame: "bump_frame s (enqueue s idx)"
  by (simp add: enqueue_def Let_def bump_frame_def)

lemma bump_literal_frame: "bump_frame s (bump_literal u l s)"
proof -
  define s1 where "s1 = s\<lparr>vars := (vars s)(vidx l := (vars s (vidx l))\<lparr>v_seen := False,
      v_minimized := False, v_poison := False\<rparr>)\<rparr>"
  have c1: "bump_frame s s1" by (simp add: s1_def bump_frame_def)
  define s2 where "s2 = (if q_next (queue s1) = vidx l
                      then s1\<lparr>queue := (queue s1)\<lparr>q_next :=
                             (if v_prev (vars s1 (vidx l)) \<noteq> 0 then v_prev (vars s1 (vidx l))
                              else v_next (vars s1 (vidx l)))\<rparr>\<rparr>
                      else s1)"
  have c2: "bump_frame s1 s2" by (simp add: s2_def bump_frame_def)
  define s3 where "s3 = enqueue (dequeue s2 (vidx l)) (vidx l)"
  have c3: "bump_frame s2 s3" unfolding s3_def
    by (rule bump_frame_trans[OF dequeue_frame enqueue_frame])
  define s4 where "s4 = s3\<lparr>stats := (stats s3)\<lparr>bumped := bumped (stats s3) + 1\<rparr>,
      vars := (vars s3)(vidx l := (vars s3 (vidx l))\<lparr>v_bumped := bumped (stats s3) + 1\<rparr>)\<rparr>"
  have c4: "bump_frame s3 s4" by (simp add: s4_def bump_frame_def)
  have c5: "bump_frame s4 (s4\<lparr>queue := (queue s4)\<lparr>q_next := vidx l\<rparr>\<rparr>)"
    by (simp add: bump_frame_def)
  have e: "bump_literal u l s = (if v_next (vars s1 (vidx l)) = 0 then s1
       else if vidx l \<noteq> u \<and> vals s4 (vidx l) = 0
            then s4\<lparr>queue := (queue s4)\<lparr>q_next := vidx l\<rparr>\<rparr> else s4)"
    unfolding bump_literal_def Let_def s1_def s2_def s3_def s4_def by simp
  from c1 c2 have c12: "bump_frame s s2" by (rule bump_frame_trans)
  from c12 c3 have c13: "bump_frame s s3" by (rule bump_frame_trans)
  from c13 c4 have c14: "bump_frame s s4" by (rule bump_frame_trans)
  from c14 c5 have c15: "bump_frame s (s4\<lparr>queue := (queue s4)\<lparr>q_next := vidx l\<rparr>\<rparr>)"
    by (rule bump_frame_trans)
  from c1 c14 c15 show ?thesis unfolding e by simp
qed

lemma fold_bump_literal_frame: "bump_frame s (fold (bump_literal u) ls s)"
proof (induction ls arbitrary: s)
  case Nil
  show ?case by simp
next
  case (Cons l ls)
  from bump_frame_trans[OF bump_literal_frame Cons] show ?case by simp
qed

lemma bump_and_clear_frame: "bump_frame s (bump_and_clear_seen_literals s u)"
proof -
  have a: "bump_frame s (s\<lparr>seen_literals := xs\<rparr>)" for s xs by (simp add: bump_frame_def)
  from bump_frame_trans[OF bump_frame_trans[OF a fold_bump_literal_frame] a]
  show ?thesis by (simp add: bump_and_clear_seen_literals_def Let_def)
qed

lemma clear_levels_loop_frame: "\<exists>lv. clear_levels_loop ls s = s\<lparr>levels := lv\<rparr>"
proof (induction ls arbitrary: s)
  case Nil
  have "s = s\<lparr>levels := levels s\<rparr>" by simp
  then have "\<exists>lv. s = s\<lparr>levels := lv\<rparr>" by (rule exI)
  then show ?case by simp
next
  case (Cons l ls)
  from Cons[of "if l < length (levels s)
        then s\<lparr>levels := (levels s)[l := (levels s ! l)\<lparr>l_seen := 0\<rparr>]\<rparr> else s"]
  obtain lv where "clear_levels_loop (l # ls) s = (if l < length (levels s)
        then s\<lparr>levels := (levels s)[l := (levels s ! l)\<lparr>l_seen := 0\<rparr>]\<rparr> else s)\<lparr>levels := lv\<rparr>"
    by auto
  then have "clear_levels_loop (l # ls) s = s\<lparr>levels := lv\<rparr>" by (simp split: if_splits)
  then show ?case by blast
qed

lemma clear_levels_frame: "\<exists>lv. clear_levels s = s\<lparr>levels := lv, seen_levels := []\<rparr>"
  using clear_levels_loop_frame[of "seen_levels s" s] by (auto simp: clear_levels_def)

lemma trail_inv_cong:
  assumes "trail s' = trail s" "vals s' = vals s" "vars s' = vars s" "levels s' = levels s"
    "level s' = level s" "max_var s' = max_var s"
  shows "trail_inv s' = trail_inv s"
proof -
  have "lvl s' = lvl s" "val s' = val s" "valid_lit s' = valid_lit s"
    using assms by (auto simp: lvl_def var_def val_eq_vals valid_lit_def fun_eq_iff)
  then show ?thesis using assms
    by (simp add: trail_inv_def assignment_inv_def levels_inv_def decisions_inv_def)
qed

lemma cut_takeWhile:
  assumes "trail_inv s" "t < level s"
  shows "take (pos_of (trail s) (l_decision (levels s ! (t + 1)))) (trail s)
     = takeWhile (\<lambda>l. lvl s l \<le> t) (trail s)"
proof -
  define m where "m = pos_of (trail s) (l_decision (levels s ! (t + 1)))"
  note c = cut_levels[OF assms, folded m_def]
  from c(3) have "drop m (trail s) \<noteq> []" by simp
  then obtain x xs where d: "drop m (trail s) = x # xs" by (cases "drop m (trail s)") auto
  with c(2)[of x] have "\<not> lvl s x \<le> t" by simp
  with d have "takeWhile (\<lambda>l. lvl s l \<le> t) (drop m (trail s)) = []" by simp
  moreover have "takeWhile (\<lambda>l. lvl s l \<le> t) (take m (trail s) @ drop m (trail s))
      = take m (trail s) @ takeWhile (\<lambda>l. lvl s l \<le> t) (drop m (trail s))"
    by (rule takeWhile_append2) (use c(1) in auto)
  ultimately show ?thesis by (simp add: m_def)
qed

lemma analyze_tail_core:
  "same_core s9 ((clear_levels ((bump_and_clear_seen_literals s9 u)\<lparr>clause := []\<rparr>))\<lparr>conflict := None\<rparr>)"
proof -
  have a: "same_core t (t\<lparr>clause := x\<rparr>)" "same_core t (t\<lparr>conflict := y\<rparr>)" for t x y
    by (simp_all add: same_core_def)
  show ?thesis
    by (rule same_core_trans[OF same_core_trans[OF same_core_trans[OF
        bump_and_clear_core a(1)] clear_levels_core] a(2)])
qed

lemma analyze_tail_fields:
  defines "fin \<equiv> \<lambda>s9 u. (clear_levels ((bump_and_clear_seen_literals s9 u)\<lparr>clause := []\<rparr>))\<lparr>conflict := None\<rparr>"
  shows "heap (fin s9 u) = heap s9" "conflict (fin s9 u) = None" "clause (fin s9 u) = []"
    "seen_levels (fin s9 u) = []" "unsat (fin s9 u) = unsat s9" "opts (fin s9 u) = opts s9"
    "vars (fin s9 u) = vars (bump_and_clear_seen_literals s9 u)"
    "queue (fin s9 u) = queue (bump_and_clear_seen_literals s9 u)"
    "seen_literals (fin s9 u) = seen_literals (bump_and_clear_seen_literals s9 u)"
    "iterating (fin s9 u) = iterating s9"
proof -
  define s10 where "s10 = bump_and_clear_seen_literals s9 u"
  obtain lv where e: "clear_levels (s10\<lparr>clause := []\<rparr>) = s10\<lparr>clause := [], levels := lv, seen_levels := []\<rparr>"
    using clear_levels_frame[of "s10\<lparr>clause := []\<rparr>"] by auto
  note f = bump_frame_fields[OF bump_and_clear_frame[of s9 u], folded s10_def]
  show "heap (fin s9 u) = heap s9" "conflict (fin s9 u) = None" "clause (fin s9 u) = []"
    "seen_levels (fin s9 u) = []" "unsat (fin s9 u) = unsat s9" "opts (fin s9 u) = opts s9"
    "vars (fin s9 u) = vars (bump_and_clear_seen_literals s9 u)"
    "queue (fin s9 u) = queue (bump_and_clear_seen_literals s9 u)"
    "seen_literals (fin s9 u) = seen_literals (bump_and_clear_seen_literals s9 u)"
    "iterating (fin s9 u) = iterating s9"
    unfolding fin_def s10_def[symmetric] e by (simp_all add: f)
qed

subsection \<open>Restart with trail reuse\<close>

lemma next_decision_variable_frame:
  assumes "next_decision_variable s = Some y"
  shows "heap (snd y) = heap s \<and> irredundant (snd y) = irredundant s
     \<and> redundant (snd y) = redundant s \<and> all_literal_watches (snd y) = all_literal_watches s
     \<and> restarts (stats (snd y)) = restarts (stats s)"
  using assms
proof (induction s y rule: next_decision_variable.raw_induct[rotated 1, consumes 1])
  case (1 ndv s y)
  show ?case
  proof (cases "q_next (queue s) = 0")
    case True
    with 1(2) show ?thesis by (simp add: Let_def)
  next
    case nz: False
    show ?thesis
    proof (cases "val s (int (q_next (queue s))) \<noteq> 0")
      case True
      with nz 1(2) have "ndv (s\<lparr>queue := (queue s)\<lparr>q_next := v_prev (var s (int (q_next (queue s))))\<rparr>,
             stats := (stats s)\<lparr>searched := searched (stats s) + 1\<rparr>\<rparr>) = Some y"
        by (simp add: Let_def)
      from 1(1)[OF this] show ?thesis by simp
    next
      case False
      with nz 1(2) have "y = (q_next (queue s), s)" by (simp add: Let_def)
      then show ?thesis by simp
    qed
  qed
qed

text \<open>
  C7: with \<open>reusetrail\<close> enabled, in a state whose level stack has one entry per level and
  whose trail holds every decision, once each literal, and where the walk of the queue
  finds the next decision candidate \<open>idx\<close>, \<open>restart\<close> returns, and it has backtracked to the
  greatest level \<open>r\<close> such that the decisions of the levels \<open>1..r\<close> all have a larger bump
  time stamp than the candidate: the new level is \<open>r\<close>, the level stack is cut to \<open>r + 1\<close>
  entries, the trail is cut before the decision of level \<open>r + 1\<close>, the variables of the
  literals cut off are unassigned and no others, and \<open>propagate_next\<close> is moved down to the
  new end of the trail if it was beyond it (nothing of this changes when \<open>r\<close> is the
  current level). The reused counter grows by one exactly when \<open>r > 0\<close>, the restart
  counter by one, and the restart limit is set anew.
\<close>

theorem restart_reuses_deepest_prefix:
  assumes "opt_reusetrail (opts s)"
    and "next_decision_variable s = Some (idx, s1)"
    and "length (levels s) = level s + 1"
    and "\<forall>l \<in> {1..level s}. l_decision (levels s ! l) \<in> set (trail s)"
    and "distinct (trail s)"
  shows "\<exists>s' r. restart s = Some s'
           \<and> vals s idx = 0
           \<and> reusable s (v_bumped (vars s idx)) r
           \<and> (\<forall>r'. reusable s (v_bumped (vars s idx)) r' \<longrightarrow> r' \<le> r)
           \<and> level s' = r
           \<and> (if r = level s
               then trail s' = trail s \<and> vals s' = vals s \<and> levels s' = levels s
                  \<and> propagate_next s' = propagate_next s
               else trail s' = take (pos_of (trail s) (l_decision (levels s ! (r + 1)))) (trail s)
                  \<and> vals s' = (\<lambda>i. if i \<in> vidx ` set (drop (pos_of (trail s)
                                    (l_decision (levels s ! (r + 1)))) (trail s))
                                  then 0 else vals s i)
                  \<and> levels s' = take (r + 1) (levels s)
                  \<and> propagate_next s' = min (propagate_next s)
                       (pos_of (trail s) (l_decision (levels s ! (r + 1)))))
           \<and> vars s' = vars s \<and> heap s' = heap s \<and> irredundant s' = irredundant s
           \<and> redundant s' = redundant s \<and> all_literal_watches s' = all_literal_watches s
           \<and> reused (stats s') = reused (stats s) + (if r > 0 then 1 else 0)
           \<and> restarts (stats s') = restarts (stats s) + 1
           \<and> lim_restart_conflicts (limits s') = conflicts (stats s) + restartint (opts s)"
proof -
  let ?s0 = "s\<lparr>stats := (stats s)\<lparr>restarts := restarts (stats s) + 1\<rparr>\<rparr>"
  let ?s1 = "s1\<lparr>stats := (stats s1)\<lparr>restarts := restarts (stats s1) + 1\<rparr>\<rparr>"
  let ?limit = "v_bumped (vars s idx)"
  from next_decision_variable_props[OF assms(2)]
  have p: "vals s idx = 0" "idx \<noteq> 0" "vars s1 = vars s" "levels s1 = levels s" "level s1 = level s"
    "trail s1 = trail s" "opts s1 = opts s" "reused (stats s1) = reused (stats s)"
    "vals s1 = vals s" "propagate_next s1 = propagate_next s"
    "conflicts (stats s1) = conflicts (stats s)"
    by simp_all
  from next_decision_variable_frame[OF assms(2)]
  have q: "heap s1 = heap s" "irredundant s1 = irredundant s" "redundant s1 = redundant s"
    "all_literal_watches s1 = all_literal_watches s" "restarts (stats s1) = restarts (stats s)"
    by simp_all
  from next_decision_variable_restarts[OF assms(2), of 1]
  have ndv: "next_decision_variable ?s0 = Some (idx, ?s1)" by simp
  have lim: "v_bumped (var ?s1 (int idx)) = ?limit" by (simp add: var_def vidx_def p)
  have len1: "length (levels ?s1) = level ?s1 + 1" using assms(3) p by simp
  from reuse_loop_total[OF len1] obtain r where r: "reuse_loop ?s1 ?limit 0 = Some r" by blast
  from reuse_loop_sound[OF r]
  have rs: "r \<le> level s"
    "\<forall>l. 0 < l \<and> l \<le> r \<longrightarrow> v_bumped (var s (l_decision (levels s ! l))) > ?limit"
    "r < level s \<longrightarrow> \<not> v_bumped (var s (l_decision (levels s ! (r + 1)))) > ?limit"
    by (simp_all add: p var_def)
  define s2 where "s2 = (if r \<noteq> 0 then ?s1\<lparr>stats := (stats ?s1)\<lparr>reused := reused (stats ?s1) + 1\<rparr>\<rparr>
       else ?s1)"
  have ru: "reusetrail ?s0 = Some (r, s2)"
    using assms(1) ndv r by (simp add: reusetrail_def lim s2_def)
  have f2: "level s2 = level s" "levels s2 = levels s" "trail s2 = trail s" "vals s2 = vals s"
    "propagate_next s2 = propagate_next s" "vars s2 = vars s" "heap s2 = heap s"
    "irredundant s2 = irredundant s" "redundant s2 = redundant s"
    "all_literal_watches s2 = all_literal_watches s" "opts s2 = opts s"
    "conflicts (stats s2) = conflicts (stats s)"
    "restarts (stats s2) = restarts (stats s) + 1"
    "reused (stats s2) = reused (stats s) + (if r > 0 then 1 else 0)"
    by (simp_all add: p q s2_def)
  have "\<exists>s3. backtrack s2 r = Some s3"
  proof (rule backtrack_total)
    show "r \<le> level s2" using rs(1) f2 by simp
    show "length (levels s2) = level s2 + 1" using assms(3) f2 by simp
    show "l_decision (levels s2 ! (r + 1)) \<in> set (trail s2)" if "r < level s2"
      using that assms(4) f2 by simp
  qed
  then obtain s3 where s3: "backtrack s2 r = Some s3" by blast
  define s' where "s' = s3\<lparr>limits := (limits s3)\<lparr>lim_restart_conflicts :=
                  conflicts (stats s3) + restartint (opts s3)\<rparr>\<rparr>"
  have res: "restart s = Some s'"
    using ru s3 by (simp add: restart_def Let_def s'_def)
  have reu: "reusable s ?limit r"
    using rs by (auto simp: reusable_def)
  have mx: "\<forall>r'. reusable s ?limit r' \<longrightarrow> r' \<le> r"
  proof (intro allI impI)
    fix r' assume a: "reusable s ?limit r'"
    show "r' \<le> r"
    proof (rule ccontr)
      assume "\<not> r' \<le> r"
      then have "r + 1 \<le> r'" "r < level s" using a by (auto simp: reusable_def)
      with a have "v_bumped (var s (l_decision (levels s ! (r + 1)))) > ?limit"
        by (auto simp: reusable_def)
      with rs(3) \<open>r < level s\<close> show False by simp
    qed
  qed
  have eff: "level s3 = r \<and> stats s3 = stats s2 \<and> opts s3 = opts s2 \<and> vars s3 = vars s2
      \<and> heap s3 = heap s2 \<and> irredundant s3 = irredundant s2 \<and> redundant s3 = redundant s2
      \<and> all_literal_watches s3 = all_literal_watches s2
      \<and> (if r = level s
          then trail s3 = trail s \<and> vals s3 = vals s \<and> levels s3 = levels s
             \<and> propagate_next s3 = propagate_next s
          else trail s3 = take (pos_of (trail s) (l_decision (levels s ! (r + 1)))) (trail s)
             \<and> vals s3 = (\<lambda>i. if i \<in> vidx ` set (drop (pos_of (trail s)
                                    (l_decision (levels s ! (r + 1)))) (trail s))
                                  then 0 else vals s i)
             \<and> levels s3 = take (r + 1) (levels s)
             \<and> propagate_next s3 = min (propagate_next s)
                  (pos_of (trail s) (l_decision (levels s ! (r + 1)))))"
  proof (cases "r = level s")
    case True
    with s3 f2 have "s3 = s2" by (simp add: backtrack_def)
    with True f2 show ?thesis by simp
  next
    case False
    then have "r \<noteq> level s2" by (simp add: f2)
    from backtrack_backtracked[OF s3 this] assms(5) have "backtracked s2 r s3" by (simp add: f2)
    from backtracked_fields[OF this] False show ?thesis
      by (simp add: f2 cong del: if_weak_cong)
  qed
  show ?thesis
    using res p(1) reu mx eff f2 by (intro exI[of _ s'] exI[of _ r]) (simp add: s'_def)
qed

lemma reuse_state_fields:
  "opt_reusetrail (opts reuse_state)" "level reuse_state = 2" "trail reuse_state = [- 3, - 1]"
  "levels reuse_state = [\<lparr>l_decision = 0, l_seen = 0\<rparr>, \<lparr>l_decision = - 3, l_seen = 0\<rparr>,
                   \<lparr>l_decision = - 1, l_seen = 0\<rparr>]"
  "q_next (queue reuse_state) = 3" "v_prev (vars reuse_state 3) = 2"
  "vals reuse_state = (\<lambda>_. 0)(3 := - 1, 1 := - 1)"
  "v_bumped (vars reuse_state 3) = 3" "v_bumped (vars reuse_state 2) = 2"
  "v_bumped (vars reuse_state (Suc 0)) = 1" "reused (stats reuse_state) = 0"
  "propagate_next reuse_state = 2"
  by (simp_all add: reuse_state_def init_defs Let_def)

theorem restart_reuses_deepest_prefix_witness:
  "opt_reusetrail (opts reuse_state)
   \<and> next_decision_variable reuse_state =
       Some (2, reuse_state\<lparr>queue := (queue reuse_state)\<lparr>q_next := 2\<rparr>,
                  stats := (stats reuse_state)\<lparr>searched := searched (stats reuse_state) + 1\<rparr>\<rparr>)
   \<and> length (levels reuse_state) = level reuse_state + 1
   \<and> level reuse_state = 2
   \<and> l_decision (levels reuse_state ! 1) \<in> set (trail reuse_state)
   \<and> l_decision (levels reuse_state ! 2) \<in> set (trail reuse_state)
   \<and> distinct (trail reuse_state)
   \<and> (\<exists>s'. restart reuse_state = Some s' \<and> level s' = 1 \<and> trail s' = [- 3]
          \<and> vals s' = (\<lambda>_. 0)(3 := - 1)
          \<and> levels s' = [\<lparr>l_decision = 0, l_seen = 0\<rparr>, \<lparr>l_decision = - 3, l_seen = 0\<rparr>]
          \<and> propagate_next s' = 1
          \<and> reused (stats s') = reused (stats reuse_state) + 1)"
proof -
  note f = reuse_state_fields
  let ?s1 = "reuse_state\<lparr>queue := (queue reuse_state)\<lparr>q_next := 2\<rparr>,
                  stats := (stats reuse_state)\<lparr>searched := searched (stats reuse_state) + 1\<rparr>\<rparr>"
  have h1: "opt_reusetrail (opts reuse_state)" by (rule f)
  have "next_decision_variable ?s1 = Some (2, ?s1)"
    by (subst next_decision_variable.simps) (simp add: Let_def val_def vidx_def f)
  then have h2: "next_decision_variable reuse_state = Some (2, ?s1)"
    by (subst next_decision_variable.simps) (simp add: Let_def val_def var_def vidx_def f)
  have h3: "length (levels reuse_state) = level reuse_state + 1" by (simp add: f)
  have two: "l = 1 \<or> l = 2" if "l \<in> {1..2}" for l :: nat using that by auto
  have h4: "\<forall>l \<in> {1..level reuse_state}. l_decision (levels reuse_state ! l) \<in> set (trail reuse_state)"
  proof
    fix l assume "l \<in> {1..level reuse_state}"
    then have "l = 1 \<or> l = 2" using two by (simp add: f)
    then show "l_decision (levels reuse_state ! l) \<in> set (trail reuse_state)"
      by (auto simp: f)
  qed
  have h5: "distinct (trail reuse_state)" by (simp add: f)
  from restart_reuses_deepest_prefix [OF h1 h2 h3 h4 h5] obtain s' r where
    s': "restart reuse_state = Some s'"
    and reu: "reusable reuse_state (v_bumped (vars reuse_state 2)) r"
    and mx: "\<forall>r'. reusable reuse_state (v_bumped (vars reuse_state 2)) r' \<longrightarrow> r' \<le> r"
    and lev: "level s' = r"
    and eff: "if r = level reuse_state
               then trail s' = trail reuse_state \<and> vals s' = vals reuse_state
                  \<and> levels s' = levels reuse_state
                  \<and> propagate_next s' = propagate_next reuse_state
               else trail s' = take (pos_of (trail reuse_state)
                       (l_decision (levels reuse_state ! (r + 1)))) (trail reuse_state)
                  \<and> vals s' = (\<lambda>i. if i \<in> vidx ` set (drop (pos_of (trail reuse_state)
                                    (l_decision (levels reuse_state ! (r + 1)))) (trail reuse_state))
                                  then 0 else vals reuse_state i)
                  \<and> levels s' = take (r + 1) (levels reuse_state)
                  \<and> propagate_next s' = min (propagate_next reuse_state)
                       (pos_of (trail reuse_state) (l_decision (levels reuse_state ! (r + 1))))"
    and cnt: "reused (stats s') = reused (stats reuse_state) + (if r > 0 then 1 else 0)"
    by blast
  have "reusable reuse_state (v_bumped (vars reuse_state 2)) 1"
    by (simp add: reusable_def f var_def vidx_def)
  with mx have ge: "1 \<le> r" by blast
  have "r \<noteq> 2"
  proof
    assume "r = 2"
    with reu have "\<forall>l \<in> {1..2}. v_bumped (var reuse_state (l_decision (levels reuse_state ! l))) > 2"
      by (simp add: reusable_def f)
    then have "v_bumped (var reuse_state (l_decision (levels reuse_state ! 2))) > 2"
      by (rule bspec) simp
    then show False by (simp add: f var_def vidx_def)
  qed
  moreover from reu have "r \<le> 2" by (simp add: reusable_def f)
  ultimately have r1: "r = 1" using ge by linarith
  from eff have e: "trail s' = [- 3]" "vals s' = (\<lambda>_. 0)(3 := - 1)"
    "levels s' = [\<lparr>l_decision = 0, l_seen = 0\<rparr>, \<lparr>l_decision = - 3, l_seen = 0\<rparr>]"
    "propagate_next s' = 1"
    by (auto simp: r1 f pos_of_def vidx_def fun_eq_iff)
  from s' cnt h1 h2 h3 h5 lev e show ?thesis by (simp add: f r1)
qed

subsection \<open>Rounding to double precision\<close>

lemma binade_from_eq:
  "e0 \<le> e \<Longrightarrow> a < 2 powi (e + 1) \<Longrightarrow> (e0 < e \<Longrightarrow> 2 powi e \<le> a) \<Longrightarrow> nat (e - e0) < n \<Longrightarrow>
   binade_from a e0 n = e"
proof (induction n arbitrary: e0)
  case 0
  then show ?case by simp
next
  case (Suc n)
  show ?case
  proof (cases "e0 = e")
    case True
    with Suc.prems show ?thesis by simp
  next
    case False
    with Suc.prems have lt: "e0 < e" by simp
    then have "(2::real) powi (e0 + 1) \<le> 2 powi e" by (intro power_int_increasing) simp_all
    with Suc.prems(3)[OF lt] have "\<not> a < 2 powi (e0 + 1)" by simp
    moreover have "binade_from a (e0 + 1) n = e"
      using Suc.prems lt by (intro Suc.IH) auto
    ultimately show ?thesis by simp
  qed
qed

lemma round_binary64_scaled:
  assumes lo: "2 ^ 52 \<le> \<bar>x\<bar> * 2 ^ n" and hi: "\<bar>x\<bar> * 2 ^ n < 2 ^ 53" and n: "n \<le> 1074"
  shows "round_binary64 x = of_int (round_even (x * 2 ^ n)) / 2 ^ n"
proof -
  have p: "(2::real) powi (- int n) = 1 / 2 ^ n"
    by (simp add: power_int_minus field_simps)
  have q: "(2::real) powi (52 - int n) = 2 ^ 52 / 2 ^ n"
    "(2::real) powi (52 - int n + 1) = 2 ^ 53 / 2 ^ n"
    by (simp_all add: power_int_diff power_int_add)
  have a: "2 powi (52 - int n) \<le> \<bar>x\<bar>"
    using lo by (simp add: q field_simps)
  have b: "\<bar>x\<bar> < 2 powi (52 - int n + 1)"
    using hi by (simp only: q) (simp add: field_simps)
  have "binade_from \<bar>x\<bar> (- 1022) 2046 = 52 - int n"
    using n a b by (intro binade_from_eq) simp_all
  then have "ulp_exp x = - int n" by (simp add: ulp_exp_def)
  then show ?thesis by (simp add: round_binary64_def p)
qed

lemma ulp_exp_zero: "ulp_exp 0 = - 1074"
  by (simp add: ulp_exp_def eval_nat_numeral)

lemma round_binary64_zero [simp]: "round_binary64 0 = 0"
  by (simp add: round_binary64_def round_even_def)

lemma round_even_of_int [simp]: "round_even (of_int k) = k"
  by (simp add: round_even_def)

lemma to_double_Finite:
  assumes "round_binary64 x = r" "\<bar>r\<bar> < 2 ^ 1024"
  shows "to_double x = Finite r"
  using assms by (simp add: to_double_def Let_def abs_less_iff not_le)

lemma to_double_exact:
  assumes "2 ^ 52 \<le> \<bar>x\<bar> * 2 ^ n" "\<bar>x\<bar> * 2 ^ n < 2 ^ 53" "n \<le> 1074" "x * 2 ^ n = of_int k"
  shows "to_double x = Finite x"
proof -
  from assms(4) have "x = of_int k / 2 ^ n" by (simp add: eq_divide_eq)
  with round_binary64_scaled[OF assms(1-3)] assms(4)
  have r: "round_binary64 x = x" by simp
  have "\<bar>x\<bar> * 1 \<le> \<bar>x\<bar> * 2 ^ n" by (intro mult_left_mono) simp_all
  with assms(2) have "\<bar>x\<bar> < 2 ^ 53" by simp
  also have "(2::real) ^ 53 \<le> 2 ^ 1024" by simp
  finally have "\<bar>x\<bar> < 2 ^ 1024" .
  with r show ?thesis by (rule to_double_Finite)
qed

lemma to_double_zero [simp]: "to_double 0 = Finite 0"
  by (simp add: to_double_def)

lemma to_double_small:
  "to_double 1 = Finite 1" "to_double 2 = Finite 2" "to_double 3 = Finite 3"
  "to_double 5 = Finite 5" "to_double 6 = Finite 6" "to_double 7 = Finite 7"
  "to_double 10 = Finite 10" "to_double (1 / 2) = Finite (1 / 2)"
proof -
  show "to_double 1 = Finite 1"
    by (rule to_double_exact[where n = 52 and k = "2 ^ 52"]) simp_all
  show "to_double 2 = Finite 2"
    by (rule to_double_exact[where n = 51 and k = "2 ^ 52"]) simp_all
  show "to_double 3 = Finite 3"
    by (rule to_double_exact[where n = 51 and k = "3 * 2 ^ 51"]) simp_all
  show "to_double 5 = Finite 5"
    by (rule to_double_exact[where n = 50 and k = "5 * 2 ^ 50"]) simp_all
  show "to_double 6 = Finite 6"
    by (rule to_double_exact[where n = 50 and k = "6 * 2 ^ 50"]) simp_all
  show "to_double 7 = Finite 7"
    by (rule to_double_exact[where n = 50 and k = "7 * 2 ^ 50"]) simp_all
  show "to_double 10 = Finite 10"
    by (rule to_double_exact[where n = 49 and k = "10 * 2 ^ 49"]) simp_all
  show "to_double (1 / 2) = Finite (1 / 2)"
    by (rule to_double_exact[where n = 53 and k = "2 ^ 52"]) simp_all
qed

text \<open>
  The default margin: the literal \<open>0.2\<close> as a double, one plus it, and the limits for the slow
  averages 5 and 3.
\<close>

lemma to_double_fifth: "to_double (1 / 5) = Finite (7205759403792794 / 2 ^ 55)"
proof (rule to_double_Finite)
  have "round_binary64 (1 / 5) = of_int (round_even (1 / 5 * 2 ^ 55)) / 2 ^ 55"
    by (rule round_binary64_scaled) simp_all
  also have "round_even (1 / 5 * 2 ^ 55) = 7205759403792794"
    by (simp add: round_even_def Let_def)
  finally show "round_binary64 (1 / 5) = 7205759403792794 / 2 ^ 55" by simp
qed simp

lemma one_plus_margin:
  "double_add (Finite 1) (to_double (1 / 5)) = Finite (5404319552844595 / 2 ^ 52)"
proof -
  have "to_double (1 + 7205759403792794 / 2 ^ 55) = Finite (5404319552844595 / 2 ^ 52)"
  proof (rule to_double_Finite)
    have "round_binary64 (1 + 7205759403792794 / 2 ^ 55)
        = of_int (round_even ((1 + 7205759403792794 / 2 ^ 55) * 2 ^ 52)) / 2 ^ 52"
      by (rule round_binary64_scaled) simp_all
    also have "round_even ((1 + 7205759403792794 / 2 ^ 55) * 2 ^ 52) = 5404319552844595"
      by (simp add: round_even_def Let_def)
    finally show "round_binary64 (1 + 7205759403792794 / 2 ^ 55) = 5404319552844595 / 2 ^ 52"
      by simp
  qed simp
  then show ?thesis by (simp only: to_double_fifth double_add.simps)
qed

lemma limit_for_five:
  "double_mul (double_add (Finite 1) (to_double (1 / 5))) (Finite 5) = Finite 6"
proof -
  have "to_double (5404319552844595 / 2 ^ 52 * 5) = Finite 6"
  proof (rule to_double_Finite)
    have "round_binary64 (5404319552844595 / 2 ^ 52 * 5)
        = of_int (round_even (5404319552844595 / 2 ^ 52 * 5 * 2 ^ 50)) / 2 ^ 50"
      by (rule round_binary64_scaled) simp_all
    also have "round_even (5404319552844595 / 2 ^ 52 * 5 * 2 ^ 50) = 6755399441055744"
      by (simp add: round_even_def Let_def)
    finally show "round_binary64 (5404319552844595 / 2 ^ 52 * 5) = 6" by simp
  qed simp
  then show ?thesis by (simp only: one_plus_margin double_mul.simps)
qed

lemma limit_for_three:
  "double_mul (double_add (Finite 1) (to_double (1 / 5))) (Finite 3)
   = Finite (8106479329266892 / 2 ^ 51)"
proof -
  have "to_double (5404319552844595 / 2 ^ 52 * 3) = Finite (8106479329266892 / 2 ^ 51)"
  proof (rule to_double_Finite)
    have "round_binary64 (5404319552844595 / 2 ^ 52 * 3)
        = of_int (round_even (5404319552844595 / 2 ^ 52 * 3 * 2 ^ 51)) / 2 ^ 51"
      by (rule round_binary64_scaled) simp_all
    also have "round_even (5404319552844595 / 2 ^ 52 * 3 * 2 ^ 51) = 8106479329266892"
      by (simp add: round_even_def Let_def)
    finally show "round_binary64 (5404319552844595 / 2 ^ 52 * 3) = 8106479329266892 / 2 ^ 51"
      by simp
  qed simp
  then show ?thesis by (simp only: one_plus_margin double_mul.simps)
qed
subsection \<open>Restart policy\<close>

text \<open>
  C6 (as stated, refuted): with the default margin 0.2, slow average 5 and fast average 6
  the limit \<open>(1 + restartmargin) * slow\<close> is 6, in double arithmetic as well as exactly, so
  the fast average equals the limit and does not exceed it; yet \<open>restarting\<close> returns true
  (11 conflicts against the limit 10, level 3 not below half the jump average 2).
\<close>

theorem restarting_equal_limit_counterexample:
  "fst (restarting (ema_state 6 5 2 11 3))
   \<and> glue_fast (ema_state 6 5 2 11 3) = Finite 6
   \<and> restart_limit (ema_state 6 5 2 11 3) = Finite 6
   \<and> \<not> double_less (restart_limit (ema_state 6 5 2 11 3)) (glue_fast (ema_state 6 5 2 11 3))
   \<and> \<not> e_value (learned_glue_fast (ema (ema_state 6 5 2 11 3)))
        > (1 + restartmargin (opts (ema_state 6 5 2 11 3)))
          * e_value (learned_glue_slow (ema (ema_state 6 5 2 11 3)))"
proof -
  have f: "opt_restart (opts (ema_state 6 5 2 11 3))"
    "conflicts (stats (ema_state 6 5 2 11 3)) = 11"
    "lim_restart_conflicts (limits (ema_state 6 5 2 11 3)) = 10"
    "e_value (learned_glue_fast (ema (ema_state 6 5 2 11 3))) = 6"
    "e_value (learned_glue_slow (ema (ema_state 6 5 2 11 3))) = 5"
    "e_value (jump (ema (ema_state 6 5 2 11 3))) = 2"
    "restartmargin (opts (ema_state 6 5 2 11 3)) = 1 / 5"
    "restartdelaylim (opts (ema_state 6 5 2 11 3)) = 1 / 2"
    "restartdelay (opts (ema_state 6 5 2 11 3))"
    "level (ema_state 6 5 2 11 3) = 3"
    by (simp_all add: ema_state_def init_defs Let_def)
  have g: "glue_fast (ema_state 6 5 2 11 3) = Finite 6"
    by (simp add: glue_fast_def f to_double_small)
  have l: "restart_limit (ema_state 6 5 2 11 3) = Finite 6"
    by (simp only: restart_limit_def f to_double_small limit_for_five)
  have d: "double_mul (to_double (1 / 2)) (to_double 2) = Finite 1"
    by (simp add: to_double_small)
  have "fst (restarting (ema_state 6 5 2 11 3))"
    using l[unfolded restart_limit_def f] d
    by (simp add: restarting_def f Let_def to_double_small)
  with g l show ?thesis by (simp add: f)
qed

text \<open>
  C6 (amended): \<open>restarting\<close> returns true exactly when restarts are enabled, the conflict
  count exceeds the restart conflict limit, the fast learned-glue average is not less than
  the limit, the product of \<open>1 + restartmargin\<close> and the slow average as the source
  computes it in double arithmetic, and it is not the case that \<open>restartdelay\<close> is enabled
  with the decision level below \<open>restartdelaylim\<close> times the jump average; in that
  delayed case it returns false, increments the delayed counter and resets the restart
  conflict limit to the conflict count plus \<open>restartint\<close>. When the fast average is below
  the limit it returns false and only resets the restart conflict limit; in all other
  cases the state is unchanged.
\<close>

theorem restarting_forced_iff:
  "(fst (restarting s) \<longleftrightarrow>
      opt_restart (opts s) \<and> conflicts (stats s) > lim_restart_conflicts (limits s)
      \<and> \<not> double_less (glue_fast s) (restart_limit s)
      \<and> \<not> (restartdelay (opts s)
            \<and> double_less (to_double (real (level s))) (delay_limit s)))
   \<and> (opt_restart (opts s) \<and> conflicts (stats s) > lim_restart_conflicts (limits s)
      \<and> \<not> double_less (glue_fast s) (restart_limit s)
      \<and> restartdelay (opts s)
      \<and> double_less (to_double (real (level s))) (delay_limit s)
      \<longrightarrow> restarting s =
            (False, s\<lparr>limits := (limits s)\<lparr>lim_restart_conflicts :=
                          conflicts (stats s) + restartint (opts s)\<rparr>,
                      stats := (stats s)\<lparr>delayed := delayed (stats s) + 1\<rparr>\<rparr>))
   \<and> (opt_restart (opts s) \<and> conflicts (stats s) > lim_restart_conflicts (limits s)
      \<and> double_less (glue_fast s) (restart_limit s)
      \<longrightarrow> restarting s =
            (False, s\<lparr>limits := (limits s)\<lparr>lim_restart_conflicts :=
                          conflicts (stats s) + restartint (opts s)\<rparr>\<rparr>))
   \<and> (\<not> opt_restart (opts s) \<or> conflicts (stats s) \<le> lim_restart_conflicts (limits s)
        \<or> fst (restarting s)
      \<longrightarrow> snd (restarting s) = s)"
  by (auto simp: restarting_def Let_def glue_fast_def restart_limit_def delay_limit_def)

theorem restarting_forced_iff_witness:
  "opt_restart (opts (ema_state 7 5 10 11 3))
   \<and> conflicts (stats (ema_state 7 5 10 11 3)) > lim_restart_conflicts (limits (ema_state 7 5 10 11 3))
   \<and> glue_fast (ema_state 7 5 10 11 3) = Finite 7
   \<and> restart_limit (ema_state 7 5 10 11 3) = Finite 6
   \<and> restartdelay (opts (ema_state 7 5 10 11 3))
   \<and> to_double (real (level (ema_state 7 5 10 11 3))) = Finite 3
   \<and> delay_limit (ema_state 7 5 10 11 3) = Finite 5
   \<and> \<not> fst (restarting (ema_state 7 5 10 11 3))
   \<and> delayed (stats (snd (restarting (ema_state 7 5 10 11 3)))) = 1
   \<and> lim_restart_conflicts (limits (snd (restarting (ema_state 7 5 10 11 3)))) = 21
   \<and> glue_fast (ema_state (8106479329266892 / 2 ^ 51) 3 0 11 3)
        = Finite (8106479329266892 / 2 ^ 51)
   \<and> restart_limit (ema_state (8106479329266892 / 2 ^ 51) 3 0 11 3)
        = Finite (8106479329266892 / 2 ^ 51)
   \<and> delay_limit (ema_state (8106479329266892 / 2 ^ 51) 3 0 11 3) = Finite 0
   \<and> fst (restarting (ema_state (8106479329266892 / 2 ^ 51) 3 0 11 3))
   \<and> snd (restarting (ema_state (8106479329266892 / 2 ^ 51) 3 0 11 3))
        = ema_state (8106479329266892 / 2 ^ 51) 3 0 11 3"
proof -
  let ?a = "ema_state 7 5 10 11 3"
  let ?b = "ema_state (8106479329266892 / 2 ^ 51) 3 0 11 3"
  have f: "opt_restart (opts (ema_state x y z 11 3))"
    "conflicts (stats (ema_state x y z 11 3)) = 11"
    "lim_restart_conflicts (limits (ema_state x y z 11 3)) = 10"
    "e_value (learned_glue_fast (ema (ema_state x y z 11 3))) = x"
    "e_value (learned_glue_slow (ema (ema_state x y z 11 3))) = y"
    "e_value (jump (ema (ema_state x y z 11 3))) = z"
    "restartmargin (opts (ema_state x y z 11 3)) = 1 / 5"
    "restartdelaylim (opts (ema_state x y z 11 3)) = 1 / 2"
    "restartdelay (opts (ema_state x y z 11 3))"
    "level (ema_state x y z 11 3) = 3"
    "restartint (opts (ema_state x y z 11 3)) = 10"
    "delayed (stats (ema_state x y z 11 3)) = 0"
    for x y z
    by (simp_all add: ema_state_def init_defs Let_def)
  have a1: "glue_fast ?a = Finite 7" by (simp add: glue_fast_def f to_double_small)
  have a2: "restart_limit ?a = Finite 6"
    by (simp only: restart_limit_def f to_double_small limit_for_five)
  have a3: "to_double (real (level ?a)) = Finite 3" by (simp add: f to_double_small)
  have "to_double (1 / 2 * 10) = Finite 5" using to_double_small(4) by simp
  then have a4: "delay_limit ?a = Finite 5"
    by (simp add: delay_limit_def f to_double_small)
  have a5: "opt_restart (opts ?a) \<and> conflicts (stats ?a) > lim_restart_conflicts (limits ?a)
      \<and> \<not> double_less (glue_fast ?a) (restart_limit ?a) \<and> restartdelay (opts ?a)
      \<and> double_less (to_double (real (level ?a))) (delay_limit ?a)"
    unfolding a1 a2 a3 a4 by (simp add: f)
  with restarting_forced_iff [of ?a]
  have r: "restarting ?a =
      (False, ?a\<lparr>limits := (limits ?a)\<lparr>lim_restart_conflicts :=
                  conflicts (stats ?a) + restartint (opts ?a)\<rparr>,
              stats := (stats ?a)\<lparr>delayed := delayed (stats ?a) + 1\<rparr>\<rparr>)"
    by blast
  have fb: "to_double (8106479329266892 / 2 ^ 51) = Finite (8106479329266892 / 2 ^ 51)"
    by (rule to_double_exact[where n = 51 and k = 8106479329266892]) simp_all
  have b1: "glue_fast ?b = Finite (8106479329266892 / 2 ^ 51)"
    by (simp only: glue_fast_def f fb)
  have b2: "restart_limit ?b = Finite (8106479329266892 / 2 ^ 51)"
    by (simp only: restart_limit_def f to_double_small limit_for_three)
  have b3: "delay_limit ?b = Finite 0"
    by (simp add: delay_limit_def f to_double_small)
  have b4: "opt_restart (opts ?b) \<and> conflicts (stats ?b) > lim_restart_conflicts (limits ?b)
      \<and> \<not> double_less (glue_fast ?b) (restart_limit ?b)
      \<and> \<not> (restartdelay (opts ?b) \<and> double_less (to_double (real (level ?b))) (delay_limit ?b))"
    unfolding b1 b2 b3 by (simp add: f to_double_small)
  with restarting_forced_iff [of ?b]
  have rb: "fst (restarting ?b)" "snd (restarting ?b) = ?b" by blast+
  have c1: "opt_restart (opts ?a)"
    "conflicts (stats ?a) > lim_restart_conflicts (limits ?a)" "restartdelay (opts ?a)"
    by (simp_all add: f)
  have c2: "\<not> fst (restarting ?a)" "delayed (stats (snd (restarting ?a))) = 1"
    "lim_restart_conflicts (limits (snd (restarting ?a))) = 21"
    unfolding r by (simp_all add: f)
  from c1 a1 a2 a3 a4 c2 b1 b2 b3 rb show ?thesis by blast
qed

subsection \<open>The loop of \<open>analyze\<close> finds the first unique implication point\<close>

lemma analysed_mono:
  assumes "p \<le> q"
  shows "analysed s confl q \<subseteq> analysed s confl p"
proof
  fix l assume "l \<in> analysed s confl q"
  then show "l \<in> analysed s confl p"
  proof (induction rule: analysed.induct)
    case (conflict_lit l)
    then show ?case by (rule analysed.conflict_lit)
  next
    case (reason_lit l r l')
    from reason_lit.hyps(3) assms have "p < pos_of (trail s) (- l)" by simp
    from analysed.reason_lit[OF reason_lit.IH reason_lit.hyps(2) this reason_lit.hyps(4-7)]
    show ?case .
  qed
qed

lemma analysed_core_subset:
  assumes c: "same_core s s'"
  shows "analysed s confl p \<subseteq> analysed s' confl p"
proof
  note v = same_core_views[OF c] same_core_lvl_fun[OF c]
  note f = c[unfolded same_core_def]
  fix l assume "l \<in> analysed s confl p"
  then show "l \<in> analysed s' confl p"
  proof (induction rule: analysed.induct)
    case (conflict_lit l)
    then show ?case by (intro analysed.conflict_lit) (simp_all add: v)
  next
    case (reason_lit l r l')
    have "v_reason (var s' l) = Some r" using reason_lit.hyps(4) by (simp add: v)
    from analysed.reason_lit[OF reason_lit.IH _ _ this, of l'] reason_lit.hyps f
    show ?case by (simp add: v)
  qed
qed

lemma analysed_core: "same_core s s' \<Longrightarrow> analysed s' confl p = analysed s confl p"
  using analysed_core_subset[of s s'] analysed_core_subset[OF same_core_sym, of s s'] by blast

lemma resolvent_core:
  assumes c: "same_core s s'"
  shows "resolvent s' confl p = resolvent s confl p"
  using c[unfolded same_core_def]
  by (simp add: resolvent_def analysed_core[OF c] same_core_lvl_fun[OF c])

lemma uip_at_core:
  assumes c: "same_core s s'"
  shows "uip_at s' confl p = uip_at s confl p"
  using c[unfolded same_core_def]
  by (simp add: uip_at_def resolvent_core[OF c] same_core_lvl_fun[OF c])

lemma first_uip_core:
  assumes c: "same_core s s'"
  shows "first_uip s' confl u = first_uip s confl u"
  using c[unfolded same_core_def]
  by (simp add: first_uip_def uip_at_core[OF c])

lemma analyze_literal_seen:
  assumes "analyze_literal s1 lit = Some (b, s2)"
  shows "seen_literals s2 = (if v_seen (var s1 lit) \<or> v_level (var s1 lit) = 0
      then seen_literals s1 else seen_literals s1 @ [lit])"
  using assms unfolding analyze_literal_def Let_def by (auto split: if_splits)

lemma analyze_literal_level:
  assumes "analyze_literal s1 lit = Some (b, t)"
  shows "v_level (var t l) = v_level (var s1 l)"
  using assms unfolding analyze_literal_def Let_def
  by (auto simp: var_def split: if_splits)

lemma analyze_reason_seen_subset:
  "analyze_reason lits n s1 = Some (m, s2) \<Longrightarrow>
   set (seen_literals s2) \<subseteq> set (seen_literals s1) \<union> {l \<in> set lits. 0 < v_level (var s1 l)}"
proof (induction lits arbitrary: n s1)
  case Nil
  then show ?case by simp
next
  case (Cons lit rest)
  from Cons.prems obtain b t where
    al: "analyze_literal s1 lit = Some (b, t)" and
    ar: "analyze_reason rest (if b then n + 1 else n) t = Some (m, s2)"
    by (auto split: option.splits)
  from analyze_literal_seen[OF al]
  have 1: "set (seen_literals t) \<subseteq> set (seen_literals s1) \<union> {l \<in> {lit}. 0 < v_level (var s1 l)}"
    by (auto split: if_splits)
  from Cons.IH[OF ar] analyze_literal_level[OF al]
  have 2: "set (seen_literals s2) \<subseteq> set (seen_literals t) \<union> {l \<in> set rest. 0 < v_level (var s1 l)}"
    by simp
  from 1 2 show ?case by auto
qed

lemma false_same_var:
  assumes "val s a < 0" "val s b < 0" "vidx a = vidx b"
  shows "a = b"
proof (rule ccontr)
  assume "a \<noteq> b"
  with assms(3) have ab: "a = - b" by (simp add: vidx_eq_cases)
  with \<open>a \<noteq> b\<close> have "b \<noteq> 0" by auto
  with ab show False using assms(1,2) by (simp add: val_uminus)
qed

lemma analyze_reason_seen_eq:
  assumes tr: "trail_inv s" and inv: "an_inv s i opn s1"
    and lits: "\<forall>lit \<in> set lits. valid_lit s lit \<and>
        ((val s lit < 0 \<and> pos_of (trail s) (- lit) < i) \<or> - lit \<in> set (seen_literals s1))"
    and run: "analyze_reason lits n s1 = Some (m, s2)"
  shows "set (seen_literals s2)
     = set (seen_literals s1) \<union> {l \<in> set lits. 0 < lvl s l \<and> val s l < 0}"
proof (intro set_eqI iffI)
  from analyze_reason_an_inv[OF tr inv lits run]
  have inv2: "an_inv s i (opn + int m - int n) s2"
    and sub: "set (seen_literals s1) \<subseteq> set (seen_literals s2)"
    and all: "\<forall>lit \<in> set lits. 0 < lvl s lit \<longrightarrow> vidx lit \<in> vidx ` set (seen_literals s2)"
    by simp_all
  from inv2 have pr: "\<forall>l \<in> set (seen_literals s2). val s l < 0" by (simp add: an_inv_def)
  from inv have f1: "seen_frame s s1" by (simp add: an_inv_def)
  have lv: "v_level (var s1 l) = lvl s l" for l
    using seen_frame_views[OF f1] by (simp add: lvl_def)
  {
    fix x assume x: "x \<in> set (seen_literals s2)"
    with analyze_reason_seen_subset[OF run] lv pr
    show "x \<in> set (seen_literals s1) \<union> {l \<in> set lits. 0 < lvl s l \<and> val s l < 0}" by auto
  next
    fix x assume "x \<in> set (seen_literals s1) \<union> {l \<in> set lits. 0 < lvl s l \<and> val s l < 0}"
    then consider "x \<in> set (seen_literals s1)" | "x \<in> set lits" "0 < lvl s x" "val s x < 0" by auto
    then show "x \<in> set (seen_literals s2)"
    proof cases
      case 1
      with sub show ?thesis by auto
    next
      case 2
      with all obtain y where y: "y \<in> set (seen_literals s2)" "vidx x = vidx y" by auto
      with pr have "val s y < 0" by simp
      from false_same_var[OF 2(3) this y(2)] y(1) show ?thesis by simp
    qed
  }
qed

lemma analyze_loop_first_uip:
  assumes tr: "trail_inv s" and rs: "reasons_inv s" and st: "store_inv s" and lp: "0 < level s"
  shows "an_inv s i opn s1 \<Longrightarrow>
     reason \<in> set (clauses_of s) \<Longrightarrow>
     \<forall>lit \<in> set (lits_of s reason).
        (val s lit < 0 \<and> pos_of (trail s) (- lit) < i) \<or> - lit \<in> set (seen_literals s1) \<Longrightarrow>
     0 < opn \<or> (\<exists>lit \<in> set (lits_of s reason).
        lvl s lit = level s \<and> val s lit < 0 \<and> pos_of (trail s) (- lit) < i) \<Longrightarrow>
     an_entry s confl reason i s1 \<Longrightarrow>
     analyze_loop reason opn i s1 = Some (uip, s2) \<Longrightarrow>
     set (seen_literals s2) = analysed s confl (pos_of (trail s) uip)
     \<and> uip_at s confl (pos_of (trail s) uip)
     \<and> (\<forall>q. pos_of (trail s) uip < q \<and> q < length (trail s) \<longrightarrow> \<not> uip_at s confl q)"
proof (induction reason opn i s1 rule: analyze_loop.induct)
  case (1 reason opn i s1)
  note run = "1.prems"(6) and entry = "1.prems"(5)
  from tr have ai: "assignment_inv s" by (simp add: trail_inv_def)
  from ai have dt: "distinct (trail s)" by (simp add: assignment_inv_def)
  from "1.prems"(1) have f1: "seen_frame s s1" by (simp add: an_inv_def)
  from st "1.prems"(2) have "reason \<in> dom (heap s)" by (simp add: store_inv_def)
  then obtain c where hc: "heap s reason = Some c" by auto
  then have hc1: "heap s1 reason = Some c" using seen_frame_fields[OF f1] by simp
  from hc have lc: "c_literals c = lits_of s reason" by (simp add: lits_of_def)
  from run hc1 obtain n t where
    ar: "analyze_reason (c_literals c) 0 s1 = Some (n, t)"
    by (subst (asm) analyze_loop.simps) (auto split: option.splits)
  from run hc1 ar obtain j where fsn: "find_seen t i = Some j"
    by (subst (asm) analyze_loop.simps) (auto split: option.splits)
  have lits: "\<forall>lit \<in> set (c_literals c). valid_lit s lit \<and>
        ((val s lit < 0 \<and> pos_of (trail s) (- lit) < i) \<or> - lit \<in> set (seen_literals s1))"
    using "1.prems"(3) store_lits_valid[OF st "1.prems"(2)] by (simp add: lc)
  from analyze_reason_an_inv[OF tr "1.prems"(1) lits ar]
  have i2: "an_inv s i (opn + int n) t"
    and all: "\<forall>lit \<in> set (lits_of s reason). 0 < lvl s lit \<longrightarrow> vidx lit \<in> vidx ` set (seen_literals t)"
    by (simp_all add: lc)
  define S where "S = set (seen_literals t)"
  from analyze_reason_seen_eq[OF tr "1.prems"(1) lits ar]
  have S: "S = set (seen_literals s1) \<union> {l \<in> set (lits_of s reason). 0 < lvl s l \<and> val s l < 0}"
    by (simp add: lc S_def)
  from entry have
    ea: "\<forall>j < i. S \<subseteq> analysed s confl j" and
    eb: "{l \<in> set (lits_of s confl). 0 < lvl s l} \<subseteq> S" and
    ec: "\<forall>l \<in> S. \<forall>r. \<forall>l' \<in> set (lits_of s r).
               lvl s l = level s \<and> i \<le> pos_of (trail s) (- l) \<and> v_reason (var s l) = Some r
               \<and> l' \<noteq> - l \<and> 0 < lvl s l' \<longrightarrow> l' \<in> S" and
    ed: "\<forall>q. i \<le> q \<and> q < length (trail s) \<longrightarrow> \<not> uip_at s confl q"
    unfolding an_entry_def Let_def S[symmetric] by blast+
  from i2 have ft: "seen_frame s t"
    and sn: "\<forall>idx. v_seen (vars t idx) \<longleftrightarrow> idx \<in> vidx ` S"
    and pr: "\<forall>l \<in> S. valid_lit s l \<and> val s l < 0 \<and> 0 < lvl s l"
    and cnt: "opn + int n = int (length (filter (\<lambda>l. lvl s l = level s \<and> pos_of (trail s) (- l) < i)
                           (seen_literals t)))"
    by (simp_all add: an_inv_def S_def)
  have pos: "0 < opn + int n"
  proof (cases "0 < opn")
    case True
    then show ?thesis by simp
  next
    case False
    with "1.prems"(4) obtain lit where lit: "lit \<in> set (lits_of s reason)" "lvl s lit = level s"
        "val s lit < 0" "pos_of (trail s) (- lit) < i" by auto
    with lp S have "lit \<in> set (seen_literals t)" by (simp add: S_def)
    with lit have "lit \<in> set (filter (\<lambda>l. lvl s l = level s \<and> pos_of (trail s) (- l) < i)
                           (seen_literals t))" by simp
    then have "0 < length (filter (\<lambda>l. lvl s l = level s \<and> pos_of (trail s) (- l) < i)
                           (seen_literals t))" by (simp only: length_pos_if_in_set)
    with cnt show ?thesis by simp
  qed
  from an_inv_uip[OF tr i2 pos fsn]
  have ji: "j < i" and jl: "j < length (trail s)" and lu: "lvl s (trail s ! j) = level s"
    and mu: "- (trail s ! j) \<in> S"
    and i3: "an_inv s j (opn + int n - 1) t" by (simp_all add: S_def)
  have tt: "trail t = trail s" using seen_frame_fields[OF ft] by simp
  from find_seen_props[OF fsn]
  have gap: "\<forall>k. j < k \<and> k < i \<longrightarrow> \<not> v_seen (var t (trail s ! k))" by (simp add: tt)
  define u where "u = trail s ! j"
  from jl have ut: "u \<in> set (trail s)" by (simp add: u_def)
  have pu: "pos_of (trail s) u = j" unfolding u_def by (rule pos_of_nth_distinct[OF dt jl])
  from trail_lit_props[OF ai ut] have u1: "val s u = 1" "u \<noteq> 0" by simp_all
  have on_trail: "- x \<in> set (trail s)" "trail s ! pos_of (trail s) (- x) = - x" if "x \<in> S" for x
  proof -
    from pr that have "valid_lit s x" "val s x < 0" by simp_all
    from assigned_on_trail(2)[OF ai this] show "- x \<in> set (trail s)" .
    then show "trail s ! pos_of (trail s) (- x) = - x" by (rule pos_of_nth)
  qed
  have G: "i \<le> pos_of (trail s) (- x)" if x: "x \<in> S" and jx: "j < pos_of (trail s) (- x)" for x
  proof (rule ccontr)
    assume "\<not> i \<le> pos_of (trail s) (- x)"
    with jx gap have "\<not> v_seen (var t (trail s ! pos_of (trail s) (- x)))" by simp
    then have "\<not> v_seen (vars t (vidx x))" by (simp add: on_trail(2)[OF x] var_def)
    with sn x show False by auto
  qed
  have c1a: "analysed s confl j \<subseteq> S"
  proof
    fix x assume "x \<in> analysed s confl j"
    then show "x \<in> S"
    proof (induction rule: analysed.induct)
      case (conflict_lit l)
      with eb show ?case by auto
    next
      case (reason_lit l r l')
      from G[OF reason_lit.IH reason_lit.hyps(3)] have "i \<le> pos_of (trail s) (- l)" .
      with ec reason_lit.IH reason_lit.hyps show ?case by blast
    qed
  qed
  with ea ji have c1: "S = analysed s confl j" by blast
  have c2: "\<not> uip_at s confl q" if q: "j < q" "q < length (trail s)" for q
  proof (cases "i \<le> q")
    case True
    with ed q show ?thesis by simp
  next
    case False
    show ?thesis
    proof
      assume "uip_at s confl q"
      then have "- (trail s ! q) \<in> resolvent s confl q" by (auto simp: uip_at_def)
      then have "- (trail s ! q) \<in> analysed s confl q" by (simp add: resolvent_def)
      with analysed_mono[of j q s confl] q c1 have "- (trail s ! q) \<in> S" by auto
      then have "vidx (- (trail s ! q)) \<in> vidx ` S" by (rule imageI)
      with sn have "v_seen (var t (trail s ! q))" by (simp add: var_def)
      with gap q False show False by simp
    qed
  qed
  from i3 have cnt3: "opn + int n - 1 = int (length (filter
      (\<lambda>l. lvl s l = level s \<and> pos_of (trail s) (- l) < j) (seen_literals t)))"
    by (simp add: an_inv_def)
  show ?case
  proof (cases "opn + int n - 1 = 0")
    case True
    with run hc1 ar fsn have res: "uip = u" "s2 = t"
      by (subst (asm) analyze_loop.simps; simp add: tt u_def)+
    from True cnt3 have none: "\<forall>l \<in> S. \<not> (lvl s l = level s \<and> pos_of (trail s) (- l) < j)"
      by (simp add: filter_empty_conv S_def)
    have "{l \<in> resolvent s confl j. lvl s l = level s} = {- u}"
    proof (intro set_eqI iffI)
      fix l assume "l \<in> {l \<in> resolvent s confl j. lvl s l = level s}"
      then have l: "l \<in> S" "lvl s l = level s" "pos_of (trail s) (- l) \<le> j"
        by (auto simp: resolvent_def c1)
      with none have "pos_of (trail s) (- l) = j" by auto
      with on_trail(2)[OF l(1)] have "- l = u" by (simp add: u_def)
      then show "l \<in> {- u}" by auto
    next
      fix l assume "l \<in> {- u}"
      then have "l = - u" by simp
      with mu lu pu show "l \<in> {l \<in> resolvent s confl j. lvl s l = level s}"
        by (simp add: resolvent_def c1[symmetric] u_def)
    qed
    with jl have "uip_at s confl j" by (simp add: uip_at_def u_def)
    with c1 c2 res pu show ?thesis by (simp add: S_def)
  next
    case False
    with run hc1 ar fsn obtain r where
      vr: "v_reason (var t u) = Some r" and
      rec: "analyze_loop r (opn + int n - 1) j t = Some (uip, s2)"
      by (subst (asm) analyze_loop.simps) (auto simp: tt u_def Let_def split: option.splits)
    from vr have vr': "v_reason (var s u) = Some r" using seen_frame_views[OF ft] by simp
    from rs ut lu lp vr' have rc: "r \<in> set (clauses_of s)"
      and others: "\<forall>l' \<in> set (lits_of s r). l' \<noteq> u \<longrightarrow>
                   val s l' < 0 \<and> pos_of (trail s) (- l') < pos_of (trail s) u"
      by (auto simp: reasons_inv_def u_def dest!: bspec)
    have p3: "\<forall>lit \<in> set (lits_of s r).
        (val s lit < 0 \<and> pos_of (trail s) (- lit) < j) \<or> - lit \<in> set (seen_literals t)"
      using others mu pu by (auto simp: u_def S_def)
    from i3 have "0 \<le> opn + int n - 1" by (simp add: an_inv_def)
    with False have p4: "0 < opn + int n - 1" by simp
    with cnt3 have "filter (\<lambda>l. lvl s l = level s \<and> pos_of (trail s) (- l) < j) (seen_literals t) \<noteq> []"
      by auto
    then obtain l0 where l0: "l0 \<in> S" "lvl s l0 = level s" "pos_of (trail s) (- l0) < j"
      by (auto simp: filter_empty_conv S_def)
    have nj: "\<not> uip_at s confl j"
    proof
      assume "uip_at s confl j"
      then have e: "{l \<in> resolvent s confl j. lvl s l = level s} = {- u}"
        by (simp add: uip_at_def u_def)
      from l0 have "l0 \<in> {l \<in> resolvent s confl j. lvl s l = level s}"
        by (simp add: resolvent_def c1[symmetric])
      with e have "l0 = - u" by blast
      with l0(3) pu show False by simp
    qed
    define N where "N = {l \<in> set (lits_of s r). 0 < lvl s l \<and> val s l < 0}"
    have Npos: "pos_of (trail s) (- l) < j" "l \<noteq> u" if "l \<in> N" for l
    proof -
      from that u1 show "l \<noteq> u" by (auto simp: N_def)
      with that others pu show "pos_of (trail s) (- l) < j" by (auto simp: N_def)
    qed
    have vru: "v_reason (var s (- u)) = Some r" using vr' by (simp add: var_def)
    have a': "\<forall>j' < j. S \<union> N \<subseteq> analysed s confl j'"
    proof (intro allI impI subsetI)
      fix j' x assume j': "j' < j" and x: "x \<in> S \<union> N"
      from analysed_mono[of j' j s confl] j' c1 have sub: "S \<subseteq> analysed s confl j'" by auto
      show "x \<in> analysed s confl j'"
      proof (cases "x \<in> S")
        case True
        with sub show ?thesis by auto
      next
        case False
        with x have xn: "x \<in> N" by simp
        from mu sub have "- u \<in> analysed s confl j'" by (auto simp: u_def)
        from analysed.reason_lit[OF this _ _ vru, of x] lu j' pu xn Npos(2)[OF xn]
        show ?thesis by (simp add: u_def N_def)
      qed
    qed
    have c': "\<forall>l \<in> S \<union> N. \<forall>r'. \<forall>l' \<in> set (lits_of s r').
               lvl s l = level s \<and> j \<le> pos_of (trail s) (- l) \<and> v_reason (var s l) = Some r'
               \<and> l' \<noteq> - l \<and> 0 < lvl s l' \<longrightarrow> l' \<in> S \<union> N"
    proof (intro ballI allI impI)
      fix l r' l'
      assume l: "l \<in> S \<union> N" and l': "l' \<in> set (lits_of s r')"
        and h: "lvl s l = level s \<and> j \<le> pos_of (trail s) (- l) \<and> v_reason (var s l) = Some r'
               \<and> l' \<noteq> - l \<and> 0 < lvl s l'"
      from l h Npos(1) have lS: "l \<in> S" by fastforce
      show "l' \<in> S \<union> N"
      proof (cases "pos_of (trail s) (- l) = j")
        case True
        with on_trail(2)[OF lS] have "- l = u" by (simp add: u_def)
        then have lu': "l = - u" by auto
        with h vru have "r' = r" by simp
        with l' h lu' others have "val s l' < 0" by auto
        with l' h \<open>r' = r\<close> show ?thesis by (simp add: N_def)
      next
        case False
        with h have "j < pos_of (trail s) (- l)" by simp
        from G[OF lS this] ec lS l' h show ?thesis by blast
      qed
    qed
    have d': "\<forall>q. j \<le> q \<and> q < length (trail s) \<longrightarrow> \<not> uip_at s confl q"
      using nj c2 by (auto simp: le_less)
    have entry': "an_entry s confl r j t"
      unfolding an_entry_def Let_def S_def[symmetric] N_def[symmetric]
      using a' eb c' d' by blast
    from "1.IH"[OF hc1 ar refl fsn refl refl False _ i3 rc p3 _ _ _] vr rec p4 entry'
    show ?thesis by (simp add: tt u_def)
  qed
qed

subsection \<open>The clause learned by \<open>analyze\<close>\<close>

lemma analyze_loop_finds_first_uip:
  assumes tr: "trail_inv s" and rs: "reasons_inv s" and st: "store_inv s"
    and sc: "scratch_inv s" and co: "conflict_ok s" and c: "conflict s = Some confl"
    and lp: "0 < level s" and b: "bump_clause s confl = Some s1"
    and lo: "analyze_loop confl 0 (length (trail s1)) s1 = Some (uip, s2)"
  shows "first_uip s confl uip"
    "set (seen_literals s2) = analysed s confl (pos_of (trail s) uip)"
proof -
  note bc = bump_clause_core[OF b]
  note v1 = same_core_views[OF bc(1)] same_core_lvl_fun[OF bc(1)]
  from tr have li: "levels_inv s" and ai: "assignment_inv s" by (simp_all add: trail_inv_def)
  have tr1: "trail_inv s1" using tr same_core_invs(1)[OF bc(1)] by simp
  have rs1: "reasons_inv s1" using rs same_core_invs(6)[OF bc(1) li] by simp
  have st1: "store_inv s1" using st same_core_invs(3)[OF bc(1)] by simp
  have sc1: "scratch_inv s1" using sc bc by (simp add: scratch_inv_def)
  have f1: "trail s1 = trail s" "level s1 = level s" using bc(1) by (simp_all add: same_core_def)
  from co c have cin: "confl \<in> set (clauses_of s)"
    and cf: "\<forall>l \<in> set (lits_of s confl). val s l < 0"
    and cl: "\<exists>l \<in> set (lits_of s confl). lvl s l = level s"
    by (simp_all add: conflict_ok_def)
  have p: "pos_of (trail s) (- l) < length (trail s)" if "l \<in> set (lits_of s confl)" for l
  proof -
    from store_lits_valid[OF st cin that] cf that have "- l \<in> set (trail s)"
      using assigned_on_trail(2)[OF ai] by blast
    then show ?thesis by (simp add: pos_of_less_iff)
  qed
  have h1: "confl \<in> set (clauses_of s1)" using cin by (simp add: v1)
  have h2: "\<forall>lit \<in> set (lits_of s1 confl).
        (val s1 lit < 0 \<and> pos_of (trail s1) (- lit) < length (trail s1))
        \<or> - lit \<in> set (seen_literals s1)"
    using cf p by (simp add: v1 f1)
  have h3: "0 < (0::int) \<or> (\<exists>lit \<in> set (lits_of s1 confl).
        lvl s1 lit = level s1 \<and> val s1 lit < 0 \<and> pos_of (trail s1) (- lit) < length (trail s1))"
    using cf cl p by (auto simp: v1 f1)
  have lp1: "0 < level s1" using lp by (simp add: f1)
  from sc1 have e1: "seen_literals s1 = []" by (simp add: scratch_inv_def)
  have entry: "an_entry s1 confl confl (length (trail s1)) s1"
    unfolding an_entry_def Let_def e1
  proof (intro conjI allI impI ballI)
    fix j assume "j < length (trail s1)"
    show "set [] \<union> {l \<in> set (lits_of s1 confl). 0 < lvl s1 l \<and> val s1 l < 0}
        \<subseteq> analysed s1 confl j"
      by (auto intro: analysed.conflict_lit)
  next
    show "{l \<in> set (lits_of s1 confl). 0 < lvl s1 l}
        \<subseteq> set [] \<union> {l \<in> set (lits_of s1 confl). 0 < lvl s1 l \<and> val s1 l < 0}"
      using cf by (auto simp: v1)
  next
    fix l r l'
    assume l: "l \<in> set [] \<union> {l \<in> set (lits_of s1 confl). 0 < lvl s1 l \<and> val s1 l < 0}"
      and h: "lvl s1 l = level s1 \<and> length (trail s1) \<le> pos_of (trail s1) (- l)
            \<and> v_reason (var s1 l) = Some r \<and> l' \<noteq> - l \<and> 0 < lvl s1 l'"
    from l have "l \<in> set (lits_of s confl)" by (simp add: v1)
    from p[OF this] h have False by (simp add: f1)
    then show "l' \<in> set [] \<union> {l \<in> set (lits_of s1 confl). 0 < lvl s1 l \<and> val s1 l < 0}" ..
  next
    fix q assume "length (trail s1) \<le> q \<and> q < length (trail s1)"
    then have False by linarith
    then show "\<not> uip_at s1 confl q" ..
  qed
  from analyze_loop_an_inv[OF tr1 rs1 st1 lp1 an_inv_start[OF sc1] h1 h2 h3 lo]
  have ut: "uip \<in> set (trail s1)" by blast
  from analyze_loop_first_uip[OF tr1 rs1 st1 lp1 an_inv_start[OF sc1] h1 h2 h3 entry lo] ut
  have "first_uip s1 confl uip"
    "set (seen_literals s2) = analysed s1 confl (pos_of (trail s1) uip)"
    by (simp_all add: first_uip_def)
  then show "first_uip s confl uip"
    "set (seen_literals s2) = analysed s confl (pos_of (trail s) uip)"
    by (simp_all add: first_uip_core[OF bc(1)] analysed_core[OF bc(1)] f1)
qed

text \<open>
  C3: let \<open>analyze\<close> return from a conflict above level 0, in a state where the trail,
  the reasons, the clause store and the conflict are in order and the working storage is
  clear. Then there are a literal \<open>uip\<close> and a list \<open>lits\<close> of distinct learned literals such
  that \<open>uip\<close> is the first unique implication point: a literal of the conflict level on
  the trail, the last one for which the resolvent of the conflict clause with the reasons
  of the literals assigned behind it has the complement of that literal as its only
  literal of the conflict level. The learned literals are exactly those of that
  resolvent, with \<open>- uip\<close> at position 0 and, behind it, false literals of lower levels
  above 0, none above the level of position 1. If \<open>lits\<close> has one literal, no clause is
  added, the new level is 0 and \<open>- uip\<close> has no reason. Otherwise one redundant clause with
  the literals \<open>lits\<close> is added at a fresh address, its glue is the number of distinct
  levels of \<open>lits\<close>, the new level is the level of position 1, and the new clause is the
  reason of \<open>- uip\<close>. The solver has backtracked to the new level: the trail is the old one
  up to that level followed by \<open>- uip\<close>, which is true at the new level, every other
  variable keeps its value if its level is at most the new one and is unassigned
  otherwise, the level stack is cut to the new level, and \<open>propagate_next\<close> is not beyond
  the position of \<open>- uip\<close>.
\<close>

theorem analyze_learns_asserting_clause:
  assumes tr: "trail_inv s" and rs: "reasons_inv s" and st: "store_inv s"
    and sc: "scratch_inv s" and co: "conflict_ok s"
    and c: "conflict s = Some confl" and lp: "0 < level s" and a: "analyze s = Some s'"
  shows "\<exists>uip lits.
       uip \<in> set (trail s) \<and> lvl s uip = level s
     \<and> first_uip s confl uip
     \<and> set lits = resolvent s confl (pos_of (trail s) uip)
     \<and> distinct lits \<and> lits \<noteq> [] \<and> lits ! 0 = - uip
     \<and> (\<forall>l \<in> set (tl lits). val s l < 0 \<and> 0 < lvl s l \<and> lvl s l < level s
            \<and> lvl s l \<le> level s')
     \<and> (if length lits = 1
         then level s' = 0 \<and> redundant s' = redundant s \<and> v_reason (var s' (- uip)) = None
         else level s' = lvl s (lits ! 1)
           \<and> (\<exists>r. r \<notin> set (clauses_of s) \<and> redundant s' = redundant s @ [r]
                \<and> heap s' r = Some \<lparr>c_redundant = True, c_garbage = False, c_reason = False,
                      c_size = length lits, c_glue = int (card (lvl s ` set lits)),
                      c_resolved = conflicts (stats s), c_literals = lits\<rparr>
                \<and> v_reason (var s' (- uip)) = Some r))
     \<and> irredundant s' = irredundant s
     \<and> trail s' = takeWhile (\<lambda>l. lvl s l \<le> level s') (trail s) @ [- uip]
     \<and> val s' (- uip) = 1 \<and> lvl s' (- uip) = level s' \<and> conflict s' = None
     \<and> (\<forall>l. valid_lit s l \<and> vidx l \<noteq> vidx uip \<longrightarrow>
            val s' l = (if lvl s l \<le> level s' then val s l else 0))
     \<and> map l_decision (levels s') = take (level s' + 1) (map l_decision (levels s))
     \<and> propagate_next s' = min (propagate_next s) (length (trail s') - 1)"
proof -
  from analyze_stages[OF c lp a] obtain s1 uip s2 drv jmp s7 s8 where
    b: "bump_clause s confl = Some s1" and
    lo: "analyze_loop confl 0 (length (trail s1)) s1 = Some (uip, s2)" and
    le: "learnt s2 uip drv jmp s7" and
    bt: "backtrack s7 jmp = Some s8" and
    fin: "s' = (clear_levels ((bump_and_clear_seen_literals (assign s8 (- uip) drv) uip)
               \<lparr>clause := []\<rparr>))\<lparr>conflict := None\<rparr>"
    by blast
  note R = analyze_loop_result[OF tr rs st sc co c lp b lo]
  from tr have ai: "assignment_inv s" by (simp add: trail_inv_def)
  have lv2: "lvl s2 = lvl s" by (rule same_core_lvl_fun[OF R(1)])
  note f2 = R(1)[unfolded same_core_def]
  define lits where "lits = sort_by (level_greater_than s2) (clause s2 @ [- uip])"
  have low: "\<forall>l \<in> set (clause s2). lvl s2 l < lvl s2 (- uip)"
    using R(4) by (simp add: R(9) lv2)
  have dcl: "distinct (clause s2)" using R(6) by (simp add: R(9))
  note L = learned_sorted[OF low dcl, folded lits_def, unfolded lv2]
  from L(2) have stl: "set (tl lits) = set (clause s2)" by (rule mset_eq_setD)
  have tlp: "\<forall>l \<in> set (tl lits). val s l < 0 \<and> 0 < lvl s l \<and> lvl s l < level s"
    using R(8) by (auto simp: stl R(9))
  from L(1,3) have lits_eq: "lits = - uip # tl lits" by (cases lits) auto
  then have sl: "set lits = insert (- uip) (set (clause s2))" using stl by (metis list.simps(15))
  have glue: "length (seen_levels s2) = card (lvl s ` set lits)"
  proof -
    have "lvl s ` set (seen_literals s2) = lvl s ` set lits"
    proof (intro set_eqI iffI)
      fix k assume "k \<in> lvl s ` set (seen_literals s2)"
      then obtain l where l: "l \<in> set (seen_literals s2)" "k = lvl s l" by auto
      with R(8) have "lvl s l < level s \<or> lvl s l = level s" by auto
      then show "k \<in> lvl s ` set lits"
        using l R(4) by (auto simp: sl R(9) image_iff intro: bexI[of _ "- uip"])
    next
      fix k assume "k \<in> lvl s ` set lits"
      then consider "k = lvl s (- uip)" | l where "l \<in> set (seen_literals s2)" "k = lvl s l"
        by (auto simp: sl R(9))
      then show "k \<in> lvl s ` set (seen_literals s2)"
        using R(5) by cases (auto simp del: lvl_uminus)
    qed
    with R(10,11) show ?thesis by (metis distinct_card)
  qed
  note le' = le[unfolded learnt_def Let_def, folded lits_def]
  have l1: "lits ! 1 \<in> set (tl lits)" if "length lits \<noteq> 1"
  proof -
    from that lits_eq obtain b rest where "tl lits = b # rest" by (cases "tl lits") auto
    with lits_eq have "lits = - uip # b # rest" by simp
    then show ?thesis by (metis One_nat_def list.set_intros(1) list.sel(3) nth_Cons_0 nth_Cons_Suc)
  qed
  have jm: "jmp = (if length lits = 1 then 0 else lvl s (lits ! 1))"
    using le' by (simp add: lv2 split: if_splits)
  have jl: "jmp < level s" using lp tlp l1 by (auto simp: jm)
  have t7: "trail_inv s7"
    using trail_inv_cong[of s7 s2] le' same_core_invs(1)[OF R(1)] tr by simp
  have l7: "level s7 = level s" "trail s7 = trail s" "lvl s7 = lvl s"
    using le' f2 lv2 by (auto simp: lvl_def var_def fun_eq_iff)
  from t7 have d7: "distinct (trail s7)" by (simp add: trail_inv_def assignment_inv_def)
  from jl have "jmp \<noteq> level s7" by (simp add: l7)
  from backtrack_backtracked[OF bt this d7] have bk: "backtracked s7 jmp s8" .
  note BF = backtracked_fields[OF bk]
  define s9 where "s9 = assign s8 (- uip) drv"
  note c9 = analyze_tail_core[of s9 uip, folded fin[unfolded s9_def[symmetric]]]
  note g9 = analyze_tail_fields[of s9 uip, folded fin[unfolded s9_def[symmetric]]]
  note v9 = same_core_views[OF c9]
  note f9 = c9[unfolded same_core_def]
  from trail_lit_props[OF ai R(3)] have u0: "- uip \<noteq> 0" by simp
  have lev: "level s' = jmp" using f9 BF by (simp add: s9_def)
  have tr': "trail s' = takeWhile (\<lambda>l. lvl s l \<le> jmp) (trail s) @ [- uip]"
    using f9 BF(1) cut_takeWhile[of s7 jmp] t7 jl by (simp add: s9_def l7)
  have vr: "v_reason (var s' (- uip)) = drv"
    by (simp add: v9 s9_def assign_views)
  have va: "val s' (- uip) = 1" "lvl s' (- uip) = jmp"
    using assign_new[OF u0, of s8 drv] BF by (simp_all add: v9 s9_def)
  have hp: "heap s' = heap s7" using g9 BF by (simp add: s9_def)
  have rd: "redundant s' = redundant s7" "irredundant s' = irredundant s"
    using f9 BF le' f2 by (simp_all add: s9_def)
  have tl_le: "\<forall>l \<in> set (tl lits). lvl s l \<le> level s'"
  proof (cases "length lits = 1")
    case True
    with lits_eq have "tl lits = []" by (cases "tl lits") auto
    then show ?thesis by simp
  next
    case False
    with L(5) show ?thesis by (simp add: lev jm)
  qed
  have st1: "stats s2 = stats s"
    using seen_frame_fields(12)[OF R(2)] bump_clause_core(9)[OF b] by simp
  have fresh: "next_cref s2 \<notin> set (clauses_of s)"
    using st f2 by (auto simp: store_inv_def)
  have main: "if length lits = 1
         then level s' = 0 \<and> redundant s' = redundant s \<and> v_reason (var s' (- uip)) = None
         else level s' = lvl s (lits ! 1)
           \<and> (\<exists>r. r \<notin> set (clauses_of s) \<and> redundant s' = redundant s @ [r]
                \<and> heap s' r = Some \<lparr>c_redundant = True, c_garbage = False, c_reason = False,
                      c_size = length lits, c_glue = int (card (lvl s ` set lits)),
                      c_resolved = conflicts (stats s), c_literals = lits\<rparr>
                \<and> v_reason (var s' (- uip)) = Some r)"
  proof (cases "length lits = 1")
    case True
    with le' have "drv = None" "redundant s7 = redundant s2" by simp_all
    with True show ?thesis using lev jm vr rd f2 by simp
  next
    case False
    with le' have "drv = Some (next_cref s2)" "redundant s7 = redundant s2 @ [next_cref s2]"
      "heap s7 (next_cref s2) = Some \<lparr>c_redundant = True, c_garbage = False, c_reason = False,
                         c_size = length lits, c_glue = int (length (seen_levels s2)),
                         c_resolved = conflicts (stats s2), c_literals = lits\<rparr>"
      by simp_all
    with False fresh show ?thesis using lev jm vr rd f2 hp glue st1 by auto
  qed
  note U = analyze_loop_finds_first_uip[OF tr rs st sc co c lp b lo]
  define j where "j = pos_of (trail s) uip"
  from U(1) have ua: "{l \<in> resolvent s confl j. lvl s l = level s} = {- uip}"
    using pos_of_nth[OF R(3)] by (simp add: first_uip_def uip_at_def j_def)
  have res: "set lits = resolvent s confl j"
  proof (intro set_eqI iffI)
    fix l assume "l \<in> set lits"
    then consider "l = - uip" | "l \<in> set (seen_literals s2)" "lvl s l < level s"
      by (auto simp: sl R(9))
    then show "l \<in> resolvent s confl j"
    proof cases
      case 1
      with ua show ?thesis by blast
    next
      case 2
      then show ?thesis by (simp add: resolvent_def U(2) j_def)
    qed
  next
    fix l assume l: "l \<in> resolvent s confl j"
    then have ls: "l \<in> set (seen_literals s2)" by (simp add: resolvent_def U(2) j_def)
    with R(8) have "lvl s l < level s \<or> lvl s l = level s" by auto
    then show "l \<in> set lits"
    proof
      assume "lvl s l < level s"
      with ls show ?thesis by (simp add: sl R(9))
    next
      assume "lvl s l = level s"
      with l ua have "l = - uip" by blast
      then show ?thesis by (simp add: sl)
    qed
  qed
  have vals': "\<forall>l. valid_lit s l \<and> vidx l \<noteq> vidx uip \<longrightarrow>
            val s' l = (if lvl s l \<le> level s' then val s l else 0)"
  proof (intro allI impI)
    fix l assume l: "valid_lit s l \<and> vidx l \<noteq> vidx uip"
    have v7: "valid_lit s7 l" using l le' f2 by (simp add: valid_lit_def)
    have e7: "val s7 l = val s l" using le' f2 by (simp add: val_eq_vals)
    from jl have jl7: "jmp < level s7" by (simp add: l7)
    from backtracked_val[OF t7 jl7 bk v7]
    have "val s8 l = (if lvl s l \<le> jmp then val s l else 0)" by (simp add: l7 e7)
    moreover have "val s' l = val s8 l"
      using l u0 by (simp add: v9 s9_def assign_views)
    ultimately show "val s' l = (if lvl s l \<le> level s' then val s l else 0)"
      by (simp add: lev)
  qed
  have lv9: "levels s9 = take (jmp + 1) (levels s2)"
    using BF(4) le' by (simp add: s9_def)
  have levs: "map l_decision (levels s') = take (level s' + 1) (map l_decision (levels s))"
  proof (rule nth_equalityI)
    show "length (map l_decision (levels s'))
        = length (take (level s' + 1) (map l_decision (levels s)))"
      using f9 f2 by (simp add: lv9 lev)
    fix k assume "k < length (map l_decision (levels s'))"
    then have k: "k < jmp + 1" "k < length (levels s)" "k < length (levels s9)"
      using f9 f2 by (simp_all add: lv9)
    with f9 have "l_decision (levels s' ! k) = l_decision (levels s9 ! k)" by simp
    also have "\<dots> = l_decision (levels s2 ! k)" using k f2 by (simp add: lv9)
    also have "\<dots> = l_decision (levels s ! k)" using k f2 by simp
    finally show "map l_decision (levels s') ! k
        = take (level s' + 1) (map l_decision (levels s)) ! k"
      using k f9 by (simp add: lev lv9)
  qed
  from jl have jl7: "jmp < level s7" by (simp add: l7)
  have m: "length (trail s8) = pos_of (trail s7) (l_decision (levels s7 ! (jmp + 1)))"
    using cut_levels(3)[OF t7 jl7] BF(1) by simp
  have pn: "propagate_next s' = min (propagate_next s) (length (trail s') - 1)"
    using f9 BF(6) le' f2 m by (simp add: s9_def)
  from R(3,4) U(1) res L(4,3,1) tlp tl_le main rd(2) tr' va g9(2) lev vals' levs pn
  show ?thesis
    unfolding j_def by (intro exI[of _ uip] exI[of _ lits]) simp
qed


lemma conflict_state_fields:
  "trail conflict_state = [- 3, - 2, 1]" "level conflict_state = 2"
  "levels conflict_state = [\<lparr>l_decision = 0, l_seen = 0\<rparr>, \<lparr>l_decision = - 3, l_seen = 0\<rparr>,
                   \<lparr>l_decision = - 2, l_seen = 0\<rparr>]"
  "vals conflict_state = (\<lambda>_. 0)(1 := 1, 2 := - 1, 3 := - 1)"
  "max_var conflict_state = 3" "conflict conflict_state = Some 1"
  "irredundant conflict_state = [0, 1]" "redundant conflict_state = []"
  "next_cref conflict_state = 2"
  "heap conflict_state = [0 \<mapsto> \<lparr>c_redundant = False, c_garbage = False, c_reason = False, c_size = 3,
                        c_glue = 0, c_resolved = 0, c_literals = [1, 2, 3]\<rparr>,
                  1 \<mapsto> \<lparr>c_redundant = False, c_garbage = False, c_reason = False, c_size = 3,
                        c_glue = 0, c_resolved = 0, c_literals = [- 1, 2, 3]\<rparr>]"
  "clause conflict_state = []" "seen_literals conflict_state = []" "seen_levels conflict_state = []"
  "v_level (vars conflict_state idx) = (if idx = 1 \<or> idx = 2 then 2 else if idx = 3 then 1 else 0)"
  "v_reason (vars conflict_state idx) = (if idx = 1 then Some 0 else None)"
  "v_seen (vars conflict_state idx) = False"
  by (simp_all add: conflict_state_def init_defs Let_def)


theorem analyze_learns_asserting_clause_witness:
  "trail_inv conflict_state \<and> reasons_inv conflict_state \<and> store_inv conflict_state
   \<and> scratch_inv conflict_state \<and> conflict_ok conflict_state
   \<and> conflict conflict_state = Some 1 \<and> 0 < level conflict_state
   \<and> (\<exists>s'. analyze conflict_state = Some s'
       \<and> trail s' = [- 3, 2] \<and> level s' = 1 \<and> redundant s' = [2]
       \<and> map_option c_literals (heap s' 2) = Some [2, 3]
       \<and> map_option c_glue (heap s' 2) = Some 2
       \<and> (\<exists>uip lits.
       uip \<in> set (trail conflict_state) \<and> lvl conflict_state uip = level conflict_state
     \<and> first_uip conflict_state 1 uip
     \<and> set lits = resolvent conflict_state 1 (pos_of (trail conflict_state) uip)
     \<and> distinct lits \<and> lits \<noteq> [] \<and> lits ! 0 = - uip
     \<and> (\<forall>l \<in> set (tl lits). val conflict_state l < 0 \<and> 0 < lvl conflict_state l
            \<and> lvl conflict_state l < level conflict_state \<and> lvl conflict_state l \<le> level s')
     \<and> (if length lits = 1
         then level s' = 0 \<and> redundant s' = redundant conflict_state
            \<and> v_reason (var s' (- uip)) = None
         else level s' = lvl conflict_state (lits ! 1)
           \<and> (\<exists>r. r \<notin> set (clauses_of conflict_state)
                \<and> redundant s' = redundant conflict_state @ [r]
                \<and> heap s' r = Some \<lparr>c_redundant = True, c_garbage = False, c_reason = False,
                      c_size = length lits, c_glue = int (card (lvl conflict_state ` set lits)),
                      c_resolved = conflicts (stats conflict_state), c_literals = lits\<rparr>
                \<and> v_reason (var s' (- uip)) = Some r))
     \<and> irredundant s' = irredundant conflict_state
     \<and> trail s' = takeWhile (\<lambda>l. lvl conflict_state l \<le> level s') (trail conflict_state) @ [- uip]
     \<and> val s' (- uip) = 1 \<and> lvl s' (- uip) = level s' \<and> conflict s' = None
     \<and> (\<forall>l. valid_lit conflict_state l \<and> vidx l \<noteq> vidx uip \<longrightarrow>
            val s' l = (if lvl conflict_state l \<le> level s' then val conflict_state l else 0))
     \<and> map l_decision (levels s') = take (level s' + 1) (map l_decision (levels conflict_state))
     \<and> propagate_next s' = min (propagate_next conflict_state) (length (trail s') - 1)))"
proof -
  note f = conflict_state_fields
  have e3: "{Suc 0..3} = {1, 2, 3}" by auto
  have e2: "{Suc 0..2} = {1, 2}" by auto
  have lv: "lvl conflict_state l = (if vidx l = 1 \<or> vidx l = 2 then 2 else if vidx l = 3 then 1 else 0)"
    for l by (simp add: lvl_def var_def f)
  have h1: "trail_inv conflict_state"
    by (simp add: trail_inv_def assignment_inv_def levels_inv_def decisions_inv_def f e3 e2
        valid_lit_def val_def vidx_def lv pos_of_def)
  have h2: "reasons_inv conflict_state"
    by (simp add: reasons_inv_def f lv vidx_def var_def clauses_of_def lits_of_def val_def pos_of_def)
  have h3: "store_inv conflict_state"
    by (auto simp: store_inv_def f clauses_of_def lits_of_def valid_lit_def vidx_def)
  have h4: "scratch_inv conflict_state" by (simp add: scratch_inv_def f)
  have h5: "conflict_ok conflict_state"
    by (simp add: conflict_ok_def f clauses_of_def lits_of_def val_def vidx_def lv)
  have h6: "conflict conflict_state = Some 1" by (simp add: f)
  have h7: "0 < level conflict_state" by (simp add: f)
  have "case analyze conflict_state of None \<Rightarrow> False
     | Some s' \<Rightarrow> trail s' = [- 3, 2] \<and> level s' = 1 \<and> redundant s' = [2]
         \<and> map_option c_literals (heap s' 2) = Some [2, 3]
         \<and> map_option c_glue (heap s' 2) = Some 2"
    by code_simp
  then obtain s' where a: "analyze conflict_state = Some s'"
    and v: "trail s' = [- 3, 2]" "level s' = 1" "redundant s' = [2]"
      "map_option c_literals (heap s' 2) = Some [2, 3]" "map_option c_glue (heap s' 2) = Some 2"
    by (auto split: option.splits)
  from analyze_learns_asserting_clause[OF h1 h2 h3 h4 h5 h6 h7 a] h1 h2 h3 h4 h5 h6 h7 a v
  show ?thesis by blast
qed

subsection \<open>Propagation: elementary steps\<close>

lemma swap_lits_nth:
  "i < length xs \<Longrightarrow> j < length xs \<Longrightarrow>
   swap_lits i j xs ! n = (if n = j then xs ! i else if n = i then xs ! j else xs ! n)"
  by (auto simp: swap_lits_def nth_list_update)

lemma swap_lits_set [simp]: "i < length xs \<Longrightarrow> j < length xs \<Longrightarrow> set (swap_lits i j xs) = set xs"
  by (simp add: swap_lits_def set_swap)

lemma swap_lits_length [simp]: "length (swap_lits i j xs) = length xs"
  by (simp add: swap_lits_def)

lemma wanted_swap01:
  "2 \<le> length lits \<Longrightarrow> wanted (swap_lits 0 1 lits) l = wanted lits l"
proof -
  assume "2 \<le> length lits"
  then have a: "0 < length lits" "Suc 0 < length lits" by arith+
  have "swap_lits 0 (Suc 0) lits ! 0 = lits ! Suc 0" "swap_lits 0 (Suc 0) lits ! Suc 0 = lits ! 0"
    using a by (simp_all add: swap_lits_nth)
  then show ?thesis by (auto simp: wanted_def)
qed

lemma set_lits_fields [simp]:
  "trail (set_lits s r lits) = trail s" "vals (set_lits s r lits) = vals s"
  "vars (set_lits s r lits) = vars s" "level (set_lits s r lits) = level s"
  "levels (set_lits s r lits) = levels s" "propagate_next (set_lits s r lits) = propagate_next s"
  "irredundant (set_lits s r lits) = irredundant s" "redundant (set_lits s r lits) = redundant s"
  "all_literal_watches (set_lits s r lits) = all_literal_watches s"
  "queue (set_lits s r lits) = queue s" "clause (set_lits s r lits) = clause s"
  "seen_literals (set_lits s r lits) = seen_literals s"
  "seen_levels (set_lits s r lits) = seen_levels s" "conflict (set_lits s r lits) = conflict s"
  "max_var (set_lits s r lits) = max_var s" "next_cref (set_lits s r lits) = next_cref s"
  "heap (set_lits s r lits) = (heap s)(r \<mapsto> (the (heap s r))\<lparr>c_literals := lits\<rparr>)"
  "phases (set_lits s r lits) = phases s" "unsat (set_lits s r lits) = unsat s"
  by (simp_all add: set_lits_def)

lemma set_lits_views:
  "val (set_lits s r lits) l = val s l" "lvl (set_lits s r lits) l = lvl s l"
  "var (set_lits s r lits) l = var s l"
  "clauses_of (set_lits s r lits) = clauses_of s"
  "lits_of (set_lits s r lits) c = (if c = r then lits else lits_of s c)"
  "watches (set_lits s r lits) l = watches s l"
  "valid_lit (set_lits s r lits) l = valid_lit s l"
  "wcount (set_lits s r lits) l c = wcount s l c"
  "root_sat (set_lits s r lits) ls = root_sat s ls"
  by (simp_all add: val_eq_vals lvl_def var_def clauses_of_def lits_of_def watches_def
      valid_lit_def wcount_def root_sat_def)

lemma set_lits_lvl_fun [simp]: "lvl (set_lits s r lits) = lvl s"
  by (rule ext) (simp add: set_lits_views)

lemma set_lits_simple_invs:
  "assignment_inv (set_lits s r lits) = assignment_inv s"
  "levels_inv (set_lits s r lits) = levels_inv s"
  "decisions_inv (set_lits s r lits) = decisions_inv s"
  "trail_inv (set_lits s r lits) = trail_inv s"
  "pending_inv (set_lits s r lits) = pending_inv s"
  "queue_inv (set_lits s r lits) = queue_inv s"
  "scratch_inv (set_lits s r lits) = scratch_inv s"
  by (simp_all add: assignment_inv_def levels_inv_def decisions_inv_def trail_inv_def
      pending_inv_def queue_inv_def scratch_inv_def set_lits_views)

lemma store_inv_set_lits:
  assumes "store_inv s" "r \<in> set (clauses_of s)" "set lits = set (lits_of s r)"
    "length lits = length (lits_of s r)"
  shows "store_inv (set_lits s r lits)"
proof -
  from assms(1,2) have "heap s r \<noteq> None" by (auto simp: store_inv_def)
  then have d: "dom (heap (set_lits s r lits)) = dom (heap s)" by auto
  have h: "the (heap (set_lits s r lits) c) =
      (if c = r then (the (heap s r))\<lparr>c_literals := lits\<rparr> else the (heap s c))" for c
    by simp
  show ?thesis
    using assms unfolding store_inv_def d
    by (simp add: set_lits_views h lits_of_def[of s r, symmetric])
qed

lemma reasons_inv_set_lits:
  assumes "reasons_inv s" "set lits = set (lits_of s r)"
  shows "reasons_inv (set_lits s r lits)"
  unfolding reasons_inv_def
proof (intro ballI impI)
  fix l assume l: "l \<in> set (trail (set_lits s r lits))" "0 < lvl (set_lits s r lits) l"
  with assms(1) have a: "case v_reason (var s l) of
           None \<Rightarrow> l = l_decision (levels s ! lvl s l)
         | Some c \<Rightarrow>
             c \<in> set (clauses_of s) \<and> l \<in> set (lits_of s c)
             \<and> (\<forall>l' \<in> set (lits_of s c). l' \<noteq> l \<longrightarrow>
                   val s l' < 0 \<and> pos_of (trail s) (- l') < pos_of (trail s) l)"
    by (simp add: reasons_inv_def set_lits_views)
  have e: "set (lits_of (set_lits s r lits) c) = set (lits_of s c)" for c
    using assms(2) by (simp add: set_lits_views)
  from a show "case v_reason (var (set_lits s r lits) l) of
           None \<Rightarrow> l = l_decision (levels (set_lits s r lits) ! lvl (set_lits s r lits) l)
         | Some c \<Rightarrow>
             c \<in> set (clauses_of (set_lits s r lits)) \<and> l \<in> set (lits_of (set_lits s r lits) c)
             \<and> (\<forall>l' \<in> set (lits_of (set_lits s r lits) c). l' \<noteq> l \<longrightarrow>
                   val (set_lits s r lits) l' < 0
                   \<and> pos_of (trail (set_lits s r lits)) (- l') < pos_of (trail (set_lits s r lits)) l)"
    by (simp add: e set_lits_views(1-4) split: option.splits)
qed

lemma conflict_ok_set_lits:
  assumes "conflict_ok s" "set lits = set (lits_of s r)"
  shows "conflict_ok (set_lits s r lits)"
proof -
  have e: "set (lits_of (set_lits s r lits) c) = set (lits_of s c)" for c
    using assms(2) by (simp add: set_lits_views)
  from assms(1) show ?thesis
    by (simp add: conflict_ok_def e set_lits_views(1-4) split: option.splits)
qed

lemma guarded_set_lits:
  assumes "set lits = set (lits_of s r)"
  shows "guarded (set_lits s r lits) c = guarded s c"
proof -
  have e: "set (lits_of (set_lits s r lits) c) = set (lits_of s c)" for c
    using assms by (simp add: set_lits_views)
  show ?thesis by (simp add: guarded_def e set_lits_views(1-4))
qed

subsection \<open>Changes of the watch lists and of the conflict\<close>

lemma watches_update_views:
  "val (s\<lparr>all_literal_watches := f\<rparr>) l = val s l"
  "lvl (s\<lparr>all_literal_watches := f\<rparr>) l = lvl s l"
  "var (s\<lparr>all_literal_watches := f\<rparr>) l = var s l"
  "clauses_of (s\<lparr>all_literal_watches := f\<rparr>) = clauses_of s"
  "lits_of (s\<lparr>all_literal_watches := f\<rparr>) c = lits_of s c"
  "valid_lit (s\<lparr>all_literal_watches := f\<rparr>) l = valid_lit s l"
  "root_sat (s\<lparr>all_literal_watches := f\<rparr>) ls = root_sat s ls"
  "watches (s\<lparr>all_literal_watches := f\<rparr>) l = f l"
  "watch_ok (s\<lparr>all_literal_watches := f\<rparr>) l w = watch_ok s l w"
  "guarded (s\<lparr>all_literal_watches := f\<rparr>) c = guarded s c"
  by (simp_all add: val_eq_vals lvl_def var_def clauses_of_def lits_of_def watches_def
      valid_lit_def root_sat_def watch_ok_def guarded_def)

lemma watches_update_lvl_fun [simp]: "lvl (s\<lparr>all_literal_watches := f\<rparr>) = lvl s"
  by (rule ext) (simp add: watches_update_views)

lemma watches_update_invs:
  "trail_inv (s\<lparr>all_literal_watches := f\<rparr>) = trail_inv s"
  "pending_inv (s\<lparr>all_literal_watches := f\<rparr>) = pending_inv s"
  "queue_inv (s\<lparr>all_literal_watches := f\<rparr>) = queue_inv s"
  "store_inv (s\<lparr>all_literal_watches := f\<rparr>) = store_inv s"
  "reasons_inv (s\<lparr>all_literal_watches := f\<rparr>) = reasons_inv s"
  "scratch_inv (s\<lparr>all_literal_watches := f\<rparr>) = scratch_inv s"
  "conflict_ok (s\<lparr>all_literal_watches := f\<rparr>) = conflict_ok s"
  "watched_inv (s\<lparr>all_literal_watches := f\<rparr>) n = watched_inv s n"
  by (simp_all add: trail_inv_def assignment_inv_def levels_inv_def decisions_inv_def
      pending_inv_def queue_inv_def store_inv_def reasons_inv_def scratch_inv_def
      conflict_ok_def watched_inv_def watches_update_views cong: option.case_cong)

lemma conflict_update_views:
  "val (s\<lparr>conflict := c\<rparr>) l = val s l"
  "lvl (s\<lparr>conflict := c\<rparr>) l = lvl s l"
  "var (s\<lparr>conflict := c\<rparr>) l = var s l"
  "clauses_of (s\<lparr>conflict := c\<rparr>) = clauses_of s"
  "lits_of (s\<lparr>conflict := c\<rparr>) r = lits_of s r"
  "valid_lit (s\<lparr>conflict := c\<rparr>) l = valid_lit s l"
  "root_sat (s\<lparr>conflict := c\<rparr>) ls = root_sat s ls"
  "watches (s\<lparr>conflict := c\<rparr>) l = watches s l"
  "watch_ok (s\<lparr>conflict := c\<rparr>) l w = watch_ok s l w"
  "wcount (s\<lparr>conflict := c\<rparr>) l r = wcount s l r"
  by (simp_all add: val_eq_vals lvl_def var_def clauses_of_def lits_of_def watches_def
      valid_lit_def root_sat_def watch_ok_def wcount_def)

lemma conflict_update_lvl_fun [simp]: "lvl (s\<lparr>conflict := c\<rparr>) = lvl s"
  by (rule ext) (simp add: conflict_update_views)

lemma conflict_update_invs:
  "trail_inv (s\<lparr>conflict := c\<rparr>) = trail_inv s"
  "pending_inv (s\<lparr>conflict := c\<rparr>) = pending_inv s"
  "queue_inv (s\<lparr>conflict := c\<rparr>) = queue_inv s"
  "store_inv (s\<lparr>conflict := c\<rparr>) = store_inv s"
  "reasons_inv (s\<lparr>conflict := c\<rparr>) = reasons_inv s"
  "scratch_inv (s\<lparr>conflict := c\<rparr>) = scratch_inv s"
  "watches_inv (s\<lparr>conflict := c\<rparr>) = watches_inv s"
  "watched_inv (s\<lparr>conflict := c\<rparr>) n = watched_inv s n"
  by (simp_all add: trail_inv_def assignment_inv_def levels_inv_def decisions_inv_def
      pending_inv_def queue_inv_def store_inv_def reasons_inv_def scratch_inv_def
      watches_inv_def watched_inv_def conflict_update_views cong: option.case_cong)

subsection \<open>Propagation: setting the conflict, assigning a unit, swapping the watched literals\<close>

lemma inner_inv_conflict:
  assumes i: "inner_inv lit s" and r: "r \<in> set (clauses_of s)"
    and f: "\<forall>l \<in> set (lits_of s r). val s l < 0" and m: "- lit \<in> set (lits_of s r)"
  shows "inner_inv lit (s\<lparr>conflict := Some r\<rparr>)"
proof -
  from i have lv: "lvl s lit = level s" by (simp add: inner_inv_def)
  with m have "\<exists>l \<in> set (lits_of s r). lvl s l = level s" by (intro bexI[of _ "- lit"]) simp_all
  with r f have "conflict_ok (s\<lparr>conflict := Some r\<rparr>)"
    by (simp add: conflict_ok_def conflict_update_views)
  with i show ?thesis
    by (simp add: inner_inv_def conflict_update_invs)
qed

lemma inner_inv_assign:
  assumes i: "inner_inv lit s" and c: "conflict s = None" and x: "val s x = 0"
    and r: "r \<in> set (clauses_of s)" and xr: "x \<in> set (lits_of s r)"
    and o: "\<forall>l' \<in> set (lits_of s r). l' \<noteq> x \<longrightarrow> val s l' < 0"
  shows "inner_inv lit (assign s x (Some r))"
proof -
  from i have tr: "trail_inv s" and pe: "pending_inv s" and qu: "queue_inv s"
    and st: "store_inv s" and wa: "watches_inv s" and re: "reasons_inv s"
    and sc: "scratch_inv s" and pn: "0 < propagate_next s"
    and tl: "trail s ! (propagate_next s - 1) = lit" and lv: "lvl s lit = level s"
    and wd: "watched_inv s (propagate_next s - 1)"
    by (simp_all add: inner_inv_def)
  from tr have ai: "assignment_inv s" and li: "levels_inv s" and di: "decisions_inv s"
    by (simp_all add: trail_inv_def)
  from store_lits_valid[OF st r xr] have vx: "valid_lit s x" .
  then have x0: "x \<noteq> 0" by (simp add: valid_lit_def)
  from pe have ple: "propagate_next s \<le> length (trail s)" by (simp add: pending_inv_def)
  with pn have lt: "propagate_next s - 1 < length (trail s)" by simp
  with tl have lin: "lit \<in> set (trail s)" by (metis nth_mem)
  have new: "level s > 0 \<Longrightarrow>
      (case Some r of
         None \<Rightarrow> x = l_decision (levels s ! level s)
       | Some c \<Rightarrow> c \<in> set (clauses_of s) \<and> x \<in> set (lits_of s c)
           \<and> (\<forall>l' \<in> set (lits_of s c). l' \<noteq> x \<longrightarrow> val s l' < 0 \<and> - l' \<in> set (trail s)))"
    using r xr o store_lits_valid[OF st r] assigned_on_trail(2)[OF ai] by auto
  have "trail_inv (assign s x (Some r))"
    using assignment_inv_assign[OF ai vx x] levels_inv_assign[OF ai li x x0]
      decisions_inv_assign[OF ai di x x0] by (simp add: trail_inv_def)
  moreover have "conflict_ok (assign s x (Some r))" using c by (simp add: conflict_ok_def)
  moreover have "trail (assign s x (Some r)) ! (propagate_next (assign s x (Some r)) - 1) = lit"
    using lt tl by (simp add: nth_append)
  moreover have "lvl (assign s x (Some r)) lit = level (assign s x (Some r))"
    using assign_trail_old(2)[OF ai x x0 lin] lv by simp
  moreover have "watched_inv (assign s x (Some r)) (propagate_next (assign s x (Some r)) - 1)"
    using watched_inv_assign[OF ai wd x x0] lt by simp
  ultimately show ?thesis
    using pending_inv_assign[OF ai pe x x0] queue_inv_assign[OF qu] store_inv_assign[OF st]
      watches_inv_assign[OF wa x x0] reasons_inv_assign[OF ai re x x0 new]
      scratch_inv_assign[OF sc] pn
    by (simp add: inner_inv_def)
qed

lemma swap01_nth:
  assumes "2 \<le> length lits"
  shows "swap_lits 0 (Suc 0) lits ! 0 = lits ! Suc 0" "swap_lits 0 (Suc 0) lits ! Suc 0 = lits ! 0"
    "set (swap_lits 0 (Suc 0) lits) = set lits"
proof -
  from assms have a: "0 < length lits" "Suc 0 < length lits" by arith+
  then show "swap_lits 0 (Suc 0) lits ! 0 = lits ! Suc 0"
    "swap_lits 0 (Suc 0) lits ! Suc 0 = lits ! 0"
    by (simp_all add: swap_lits_nth)
  from a show "set (swap_lits 0 (Suc 0) lits) = set lits" by simp
qed

lemma swap01_state:
  assumes st: "store_inv s" and r: "r \<in> set (clauses_of s)"
  defines "s' \<equiv> set_lits s r (swap_lits 0 1 (lits_of s r))"
  shows "val s' l = val s l" "lvl s' l = lvl s l" "clauses_of s' = clauses_of s"
    "trail s' = trail s" "watches s' l = watches s l" "wcount s' l c = wcount s l c"
    "set (lits_of s' c) = set (lits_of s c)"
    "lits_of s' c ! 0 = (if c = r then lits_of s c ! 1 else lits_of s c ! 0)"
    "lits_of s' c ! 1 = (if c = r then lits_of s c ! 0 else lits_of s c ! 1)"
    "c_size (the (heap s' c)) = c_size (the (heap s c))"
    "wanted (lits_of s' c) l = wanted (lits_of s c) l"
    "root_sat s' (lits_of s' c) = root_sat s (lits_of s c)"
proof -
  note n = swap01_nth[OF store_len[OF st r]]
  show "val s' l = val s l" "lvl s' l = lvl s l" "clauses_of s' = clauses_of s"
    "trail s' = trail s" "watches s' l = watches s l" "wcount s' l c = wcount s l c"
    by (simp_all add: s'_def set_lits_views)
  show e: "set (lits_of s' c) = set (lits_of s c)" using n(3) by (simp add: s'_def set_lits_views)
  show "lits_of s' c ! 0 = (if c = r then lits_of s c ! 1 else lits_of s c ! 0)"
    "lits_of s' c ! 1 = (if c = r then lits_of s c ! 0 else lits_of s c ! 1)"
    using n by (simp_all add: s'_def set_lits_views)
  from st r have "heap s r \<noteq> None" by (auto simp: store_inv_def)
  then show "c_size (the (heap s' c)) = c_size (the (heap s c))" by (auto simp: s'_def)
  show "wanted (lits_of s' c) l = wanted (lits_of s c) l"
    using wanted_swap01[OF store_len[OF st r]] by (simp add: s'_def set_lits_views)
  show "root_sat s' (lits_of s' c) = root_sat s (lits_of s c)"
    unfolding root_sat_def e by (simp add: s'_def set_lits_views)
qed

lemma watches_inv_swap01:
  assumes wa: "watches_inv s" and st: "store_inv s" and r: "r \<in> set (clauses_of s)"
  shows "watches_inv (set_lits s r (swap_lits 0 1 (lits_of s r)))"
proof -
  define s' where "s' = set_lits s r (swap_lits 0 1 (lits_of s r))"
  note v = swap01_state[OF st r, folded s'_def]
  have ok: "watch_ok s' l w" if "watch_ok s l w" for l w
    using that unfolding watch_ok_def v(3,7,10)
    by (auto simp: v(8,9)[unfolded One_nat_def])
  from wa have "watches_inv s'"
    unfolding watches_inv_def v(3,5,6,11,12) using ok by blast
  then show ?thesis by (simp add: s'_def)
qed

lemma watched_inv_swap01:
  assumes wd: "watched_inv s n" and st: "store_inv s" and r: "r \<in> set (clauses_of s)"
  shows "watched_inv (set_lits s r (swap_lits 0 1 (lits_of s r))) n"
proof -
  define s' where "s' = set_lits s r (swap_lits 0 1 (lits_of s r))"
  note v = swap01_state[OF st r, folded s'_def]
  have "watched_inv s' n"
    unfolding watched_inv_def
  proof (intro ballI impI)
    fix c p
    assume c: "c \<in> set (clauses_of s')" and nr: "\<not> root_sat s' (lits_of s' c)"
      and p: "p \<in> {0, 1::nat}"
      and h: "val s' (lits_of s' c ! p) < 0 \<and> pos_of (trail s') (- (lits_of s' c ! p)) < n"
    from c have c': "c \<in> set (clauses_of s)" by (simp add: v)
    from nr have nr': "\<not> root_sat s (lits_of s c)" by (simp add: v)
    define q where "q = (if c = r then 1 - p else p)"
    from p have q: "q \<in> {0, 1::nat}" by (auto simp: q_def)
    have e: "lits_of s' c ! p = lits_of s c ! q"
      using p v(8,9)[of c] by (auto simp: q_def)
    from h have "val s (lits_of s c ! q) < 0 \<and> pos_of (trail s) (- (lits_of s c ! q)) < n"
      by (simp add: e v)
    with wd c' nr' q have "\<exists>t \<in> set (lits_of s c). val s t > 0 \<and> lvl s t \<le> lvl s (lits_of s c ! q)"
      unfolding watched_inv_def by blast
    then show "\<exists>t \<in> set (lits_of s' c). val s' t > 0 \<and> lvl s' t \<le> lvl s' (lits_of s' c ! p)"
      unfolding e v(1,2,7) .
  qed
  then show ?thesis by (simp add: s'_def)
qed

lemma inner_inv_swap01:
  assumes i: "inner_inv lit s" and r: "r \<in> set (clauses_of s)"
  shows "inner_inv lit (set_lits s r (swap_lits 0 1 (lits_of s r)))"
proof -
  from i have st: "store_inv s" by (simp add: inner_inv_def)
  note n = swap01_nth[OF store_len[OF st r]]
  have len: "length (swap_lits 0 1 (lits_of s r)) = length (lits_of s r)" by simp
  have n3: "set (swap_lits 0 1 (lits_of s r)) = set (lits_of s r)" using n(3) by simp
  from i show ?thesis
    unfolding inner_inv_def
    using store_inv_set_lits[OF st r n3 len] watches_inv_swap01[OF _ st r]
      watched_inv_swap01[OF _ st r] reasons_inv_set_lits[OF _ n3]
      conflict_ok_set_lits[OF _ n3]
    by (simp add: set_lits_simple_invs)
qed

subsection \<open>Propagation: refreshing a blocking literal, moving a watch\<close>

lemma wcount_watches_update:
  "wcount (s\<lparr>all_literal_watches := f\<rparr>) l c = length (filter (\<lambda>w. w_clause w = c) (f l))"
  by (simp add: wcount_def watches_def)

lemma inner_inv_refresh:
  assumes i: "inner_inv lit s" and ws: "watches s l0 = kept @ w # rest"
    and b: "b \<in> set (lits_of s (w_clause w))" and sz: "w_size w \<noteq> 2"
  shows "inner_inv lit (s\<lparr>all_literal_watches :=
            (all_literal_watches s)(l0 := kept @ w\<lparr>w_blit := b\<rparr> # rest)\<rparr>)"
proof -
  let ?f = "(all_literal_watches s)(l0 := kept @ w\<lparr>w_blit := b\<rparr> # rest)"
  from i have wa: "watches_inv s" by (simp add: inner_inv_def)
  from wa ws have okw: "watch_ok s l0 w" by (auto simp: watches_inv_def)
  then have okw': "watch_ok s l0 (w\<lparr>w_blit := b\<rparr>)" using b sz by (simp add: watch_ok_def)
  have ok: "\<forall>l. \<forall>x \<in> set (?f l). watch_ok s l x"
    using wa ws okw' by (auto simp: watches_inv_def watches_def)
  have cnt: "length (filter (\<lambda>w. w_clause w = c) (?f l)) = wcount s l c" for l c
    using ws by (auto simp: wcount_def watches_def)
  have "watches_inv (s\<lparr>all_literal_watches := ?f\<rparr>)"
    unfolding watches_inv_def watches_update_views wcount_watches_update cnt
    using wa ok by (simp add: watches_inv_def)
  with i show ?thesis
    by (simp add: inner_inv_def watches_update_invs)
qed

lemma swap1k:
  assumes "2 \<le> k" "k < length lits"
  shows "swap_lits 1 k lits ! 0 = lits ! 0" "swap_lits 1 k lits ! 1 = lits ! k"
    "set (swap_lits 1 k lits) = set lits" "length (swap_lits 1 k lits) = length lits"
proof -
  from assms have a: "Suc 0 < length lits" "k \<noteq> 0" "k \<noteq> Suc 0" by arith+
  with assms show "swap_lits 1 k lits ! 0 = lits ! 0" "swap_lits 1 k lits ! 1 = lits ! k"
    by (simp_all add: swap_lits_nth)
  from a assms show "set (swap_lits 1 k lits) = set lits" by simp
  show "length (swap_lits 1 k lits) = length lits" by simp
qed

lemma inner_inv_migrate:
  assumes i: "inner_inv lit s" and ws: "watches s (- lit) = kept @ w # rest"
    and l1: "lits_of s (w_clause w) ! 1 = - lit"
    and k: "2 \<le> k" "k < length (lits_of s (w_clause w))"
    and vk: "val s (lits_of s (w_clause w) ! k) = 0" and sz: "2 < w_size w"
  shows "inner_inv lit ((set_lits s (w_clause w) (swap_lits 1 k (lits_of s (w_clause w))))
      \<lparr>all_literal_watches := ((all_literal_watches s)(- lit := kept @ rest))
         (lits_of s (w_clause w) ! k :=
            ((all_literal_watches s)(- lit := kept @ rest)) (lits_of s (w_clause w) ! k)
            @ [\<lparr>w_blit = - lit, w_size = c_size (the (heap s (w_clause w))),
                w_clause = w_clause w\<rparr>])\<rparr>)"
proof -
  define r where "r = w_clause w"
  define lits where "lits = lits_of s r"
  define lits' where "lits' = swap_lits 1 k lits"
  define x where "x = lits ! k"
  define nw where "nw = \<lparr>w_blit = - lit, w_size = c_size (the (heap s r)), w_clause = r\<rparr>"
  define f where "f = ((all_literal_watches s)(- lit := kept @ rest))
         (x := ((all_literal_watches s)(- lit := kept @ rest)) x @ [nw])"
  define s1 where "s1 = set_lits s r lits'"
  define s' where "s' = s1\<lparr>all_literal_watches := f\<rparr>"
  from i have tr: "trail_inv s" and pe: "pending_inv s" and st: "store_inv s"
    and wa: "watches_inv s" and re: "reasons_inv s" and co: "conflict_ok s"
    and pn: "0 < propagate_next s" and tl: "trail s ! (propagate_next s - 1) = lit"
    and wd: "watched_inv s (propagate_next s - 1)"
    by (simp_all add: inner_inv_def)
  from tr have ai: "assignment_inv s" by (simp add: trail_inv_def)
  from pe have "propagate_next s \<le> length (trail s)" by (simp add: pending_inv_def)
  with pn have "propagate_next s - 1 < length (trail s)" by arith
  with tl have lin: "lit \<in> set (trail s)" by (metis nth_mem)
  from trail_lit_props[OF ai lin] have vl: "val s (- lit) = - 1" by blast
  with vk have xl: "x \<noteq> - lit" by (auto simp: x_def lits_def r_def)
  from wa ws have okw: "watch_ok s (- lit) w" by (auto simp: watches_inv_def)
  then have rin: "r \<in> set (clauses_of s)" and wsz: "w_size w = c_size (the (heap s r))"
    by (simp_all add: watch_ok_def r_def)
  have n: "lits' ! 0 = lits ! 0" "lits' ! 1 = x" "set lits' = set lits"
    "length lits' = length lits"
    using swap1k[OF k] by (simp_all add: lits'_def lits_def r_def x_def)
  have v: "val s' l = val s l" "lvl s' l = lvl s l" "clauses_of s' = clauses_of s"
    "trail s' = trail s" "watches s' l = f l" "propagate_next s' = propagate_next s"
    "lits_of s' c = (if c = r then lits' else lits_of s c)" for l c
    by (simp_all add: s'_def s1_def set_lits_views watches_update_views)
  have sl: "set (lits_of s' c) = set (lits_of s c)" for c
    using n(3) by (simp add: v lits_def)
  from st rin have "heap s r \<noteq> None" by (auto simp: store_inv_def)
  then have csz: "c_size (the (heap s' c)) = c_size (the (heap s c))" for c
    by (auto simp: s'_def s1_def)
  have rs: "root_sat s' (lits_of s' c) = root_sat s (lits_of s c)" for c
    unfolding root_sat_def sl by (simp add: v)
  have fl: "f l = (if l = x then watches s l @ [nw] else if l = - lit then kept @ rest
      else watches s l)" for l
    using xl by (simp add: f_def watches_def)
  have okold: "watch_ok s' l y" if y: "watch_ok s l y" for l y
  proof -
    have "w_size y = 2 \<Longrightarrow> w_clause y \<noteq> r"
      using y sz wsz by (auto simp: watch_ok_def)
    with y show ?thesis
      unfolding watch_ok_def v(3) sl csz by (auto simp: v(7))
  qed
  have oknw: "watch_ok s' x nw"
    using rin sz wsz l1 store_nth01[OF st rin, of 1]
    by (simp add: watch_ok_def nw_def v(3) sl csz r_def)
  have ok: "\<forall>l. \<forall>y \<in> set (watches s' l). watch_ok s' l y"
  proof (intro allI ballI)
    fix l y assume "y \<in> set (watches s' l)"
    then have "y \<in> set (watches s l) \<or> (l = x \<and> y = nw)"
      using ws by (auto simp: v fl split: if_splits)
    with wa okold oknw show "watch_ok s' l y" by (auto simp: watches_inv_def)
  qed
  have wc: "wcount s' l c + (if l = - lit \<and> c = r then 1 else 0)
      = wcount s l c + (if l = x \<and> c = r then 1 else 0)" for l c
    using ws xl by (auto simp: wcount_def v fl nw_def r_def)
  have wn: "wanted (lits_of s' c) l + (if l = - lit \<and> c = r then 1 else 0)
      = wanted (lits_of s c) l + (if l = x \<and> c = r then 1 else 0)" for l c
    using n(1,2) l1 by (auto simp: wanted_def v lits_def r_def)
  have wa': "watches_inv s'"
    unfolding watches_inv_def
  proof (intro conjI ballI allI impI)
    show "\<And>l y. y \<in> set (watches s' l) \<Longrightarrow> watch_ok s' l y" using ok by blast
  next
    fix c l assume c: "c \<in> set (clauses_of s')"
    with wa have "wcount s l c \<le> wanted (lits_of s c) l" by (simp add: watches_inv_def v)
    with wc[of l c] wn[of c l] show "wcount s' l c \<le> wanted (lits_of s' c) l" by arith
  next
    fix c l assume c: "c \<in> set (clauses_of s')" and "\<not> root_sat s' (lits_of s' c)"
    then have "c \<in> set (clauses_of s)" "\<not> root_sat s (lits_of s c)"
      unfolding rs v(3) by blast+
    with wa have "wcount s l c = wanted (lits_of s c) l" by (simp add: watches_inv_def)
    with wc[of l c] wn[of c l] show "wcount s' l c = wanted (lits_of s' c) l" by arith
  qed
  have wd': "watched_inv s' (propagate_next s' - 1)"
    unfolding watched_inv_def
  proof (intro ballI impI)
    fix c p
    assume c: "c \<in> set (clauses_of s')" and nr: "\<not> root_sat s' (lits_of s' c)"
      and p: "p \<in> {0, 1::nat}"
      and h: "val s' (lits_of s' c ! p) < 0
        \<and> pos_of (trail s') (- (lits_of s' c ! p)) < propagate_next s' - 1"
    have e: "lits_of s' c ! p = lits_of s c ! p"
    proof (cases "c = r")
      case False
      then show ?thesis by (simp add: v)
    next
      case True
      show ?thesis
      proof (cases "p = 0")
        case True
        with \<open>c = r\<close> n(1) show ?thesis by (simp add: v lits_def)
      next
        case False
        with p have "p = 1" by simp
        with \<open>c = r\<close> n(2) have "lits_of s' c ! p = x" by (simp add: v)
        with h vk have False by (simp add: v x_def lits_def r_def)
        then show ?thesis ..
      qed
    qed
    from h have h': "val s (lits_of s c ! p) < 0
        \<and> pos_of (trail s) (- (lits_of s c ! p)) < propagate_next s - 1"
      unfolding e v(1,4,6) .
    from c nr have c': "c \<in> set (clauses_of s)" "\<not> root_sat s (lits_of s c)"
      unfolding rs v(3) by blast+
    with wd h' p have "\<exists>t \<in> set (lits_of s c). val s t > 0 \<and> lvl s t \<le> lvl s (lits_of s c ! p)"
      unfolding watched_inv_def by blast
    then show "\<exists>t \<in> set (lits_of s' c). val s' t > 0 \<and> lvl s' t \<le> lvl s' (lits_of s' c ! p)"
      unfolding e sl v(1,2) .
  qed
  have sl1: "set lits' = set (lits_of s r)" "length lits' = length (lits_of s r)"
    using n(3,4) by (simp_all add: lits_def)
  have "inner_inv lit s1"
    if "watches_inv s1" "watched_inv s1 (propagate_next s1 - 1)"
    using that i store_inv_set_lits[OF st rin sl1] reasons_inv_set_lits[OF re sl1(1)]
      conflict_ok_set_lits[OF co sl1(1)]
    unfolding inner_inv_def s1_def by (simp add: set_lits_simple_invs)
  have "inner_inv lit s'"
    unfolding inner_inv_def
    using wa' wd' i store_inv_set_lits[OF st rin sl1] reasons_inv_set_lits[OF re sl1(1)]
      conflict_ok_set_lits[OF co sl1(1)]
    by (simp add: s'_def s1_def watches_update_invs set_lits_simple_invs inner_inv_def)
  then show ?thesis
    by (simp add: s'_def s1_def f_def nw_def x_def lits'_def lits_def r_def)
qed

subsection \<open>Propagation: the visit of a watch and the list under compaction\<close>

lemma live_fields [simp]:
  "trail (live s lit ws) = trail s" "vals (live s lit ws) = vals s"
  "heap (live s lit ws) = heap s" "conflict (live s lit ws) = conflict s"
  "propagate_next (live s lit ws) = propagate_next s" "level (live s lit ws) = level s"
  "all_literal_watches (live s lit ws) = (all_literal_watches s)(- lit := ws)"
  by (simp_all add: live_def)

lemma live_views:
  "val (live s lit ws) l = val s l" "lvl (live s lit ws) l = lvl s l"
  "clauses_of (live s lit ws) = clauses_of s" "lits_of (live s lit ws) c = lits_of s c"
  "watches (live s lit ws) l = (if l = - lit then ws else watches s l)"
  "guarded (live s lit ws) c = guarded s c"
  by (simp_all add: live_def watches_update_views watches_def)

lemma live_commute:
  "live (set_lits s r lits) lit ws = set_lits (live s lit ws) r lits"
  "live (assign s x rs) lit ws = assign (live s lit ws) x rs"
  "live (s\<lparr>conflict := c\<rparr>) lit ws = (live s lit ws)\<lparr>conflict := c\<rparr>"
  "(live s lit ws)\<lparr>all_literal_watches := (all_literal_watches (live s lit ws))(- lit := ws')\<rparr>
     = live s lit ws'"
  by (simp_all add: live_def set_lits_def assign_def Let_def)

lemma set_lits_same:
  assumes "heap s r = Some c" "lits = c_literals c"
  shows "set_lits s r lits = s"
proof -
  have "(heap s)(r \<mapsto> c) = heap s" using assms(1) by (rule map_upd_triv)
  with assms show ?thesis by (simp add: set_lits_def)
qed

lemma set_lits_twice:
  "set_lits (set_lits s r lits) r lits' = set_lits s r lits'"
  by (simp add: set_lits_def)

lemma head_two:
  assumes "2 \<le> length (lits :: int list)"
  shows "set lits = {lits ! 0, lits ! 1} \<union> set (drop 2 lits)"
proof -
  from assms obtain a b rest where "lits = a # b # rest"
    by (cases lits; cases "tl lits") auto
  then show ?thesis by auto
qed

text \<open>The visit of a watch of a clause with more than two literals, case by case.\<close>

lemma visit_watch_long:
  assumes nb: "\<not> val s (w_blit w) > 0" and sz: "w_size w > 2"
    and hp: "heap s (w_clause w) = Some c" and len0: "length (c_literals c) = w_size w"
    and m: "c_literals c ! 0 = - L \<or> c_literals c ! 1 = - L" and negL: "val s (- L) < 0"
  defines "lits \<equiv> (if c_literals c ! 1 \<noteq> - L then swap_lits 0 1 (c_literals c) else c_literals c)"
  defines "k \<equiv> 2 + length (takeWhile (\<lambda>l. val s l < 0) (drop 2 lits))"
  shows "lits ! 1 = - L"
    and "visit_watch L w s =
             (if val s (lits ! 0) > 0
                then Some ([w\<lparr>w_blit := lits ! 0\<rparr>], [], set_lits s (w_clause w) lits)
              else if k < length lits \<and> val s (lits ! k) > 0
                then Some ([w\<lparr>w_blit := lits ! k\<rparr>], [], set_lits s (w_clause w) lits)
              else if k < length lits
                then Some ([], [],
                  (set_lits s (w_clause w) (swap_lits 1 k lits))
                   \<lparr>all_literal_watches := (all_literal_watches s)
                      (lits ! k := watches s (lits ! k)
                         @ [\<lparr>w_blit = - L, w_size = c_size c, w_clause = w_clause w\<rparr>])\<rparr>)
              else if val s (lits ! 0) = 0
                then Some ([w], [], assign (set_lits s (w_clause w) lits) (lits ! 0) (Some (w_clause w)))
              else Some ([w], [], (set_lits s (w_clause w) lits)\<lparr>conflict := Some (w_clause w)\<rparr>))"
    and "2 \<le> k" and "k < length lits \<Longrightarrow> 0 \<le> val s (lits ! k)"
    and "\<not> k < length lits \<Longrightarrow> \<forall>l \<in> set (drop 2 lits). val s l < 0"
proof -
  define s1 where "s1 = s\<lparr>heap := (heap s)(w_clause w \<mapsto> c\<lparr>c_literals := lits\<rparr>)\<rparr>"
  have s1: "set_lits s (w_clause w) l' = s\<lparr>heap := (heap s)(w_clause w \<mapsto> c\<lparr>c_literals := l'\<rparr>)\<rparr>"
    for l'
    using hp by (simp add: set_lits_def)
  have len: "length lits = w_size w" using len0 by (simp add: lits_def swap_lits_def)
  have l2: "\<not> length (c_literals c) < 2" "w_size w \<noteq> 2" using sz len0 by simp_all
  show l1: "lits ! 1 = - L"
    using sz len0 m by (auto simp: lits_def swap_lits_def)
  have "2 \<le> length lits" using len sz by simp
  have vs: "val s1 = val s" by (rule ext) (simp add: s1_def)
  note st = scan_lits_takeWhile[OF \<open>2 \<le> length lits\<close>, of s1 0, unfolded vs, folded k_def, unfolded len]
  from st obtain v where
    sc: "scan_lits s1 lits (w_size w) 2 0 = Some (k, v)"
    and v0: "if k < w_size w then v = val s (lits ! k) \<and> 0 \<le> v
            else if 2 < w_size w then v < 0 else v = 0"
    by blast
  have v: "if k < length lits then v = val s (lits ! k) \<and> 0 \<le> v
            else if 2 < length lits then v < 0 else v = 0"
    using v0 unfolding len .
  from v show "k < length lits \<Longrightarrow> 0 \<le> val s (lits ! k)" by simp
  show k2: "2 \<le> k" by (simp add: k_def)
  show "\<forall>l \<in> set (drop 2 lits). val s l < 0" if "\<not> k < length lits"
  proof -
    from that have "length (takeWhile (\<lambda>l. val s l < 0) (drop 2 lits)) = length (drop 2 lits)"
      using length_takeWhile_le[of "\<lambda>l. val s l < 0" "drop 2 lits"] by (simp add: k_def)
    then have "takeWhile (\<lambda>l. val s l < 0) (drop 2 lits) = drop 2 lits"
      by (metis takeWhile_eq_take take_all order_refl)
    then show ?thesis by (metis set_takeWhileD)
  qed
  have kne: "lits ! k \<noteq> - L" if "k < length lits" "val s (lits ! k) = 0"
    using that negL by auto
  have sw1: "swap_lits 1 k lits ! 1 = lits ! k" if "k < length lits"
    using that k2 len sz by (simp add: swap_lits_def)
  show "visit_watch L w s =
             (if val s (lits ! 0) > 0
                then Some ([w\<lparr>w_blit := lits ! 0\<rparr>], [], set_lits s (w_clause w) lits)
              else if k < length lits \<and> val s (lits ! k) > 0
                then Some ([w\<lparr>w_blit := lits ! k\<rparr>], [], set_lits s (w_clause w) lits)
              else if k < length lits
                then Some ([], [],
                  (set_lits s (w_clause w) (swap_lits 1 k lits))
                   \<lparr>all_literal_watches := (all_literal_watches s)
                      (lits ! k := watches s (lits ! k)
                         @ [\<lparr>w_blit = - L, w_size = c_size c, w_clause = w_clause w\<rparr>])\<rparr>)
              else if val s (lits ! 0) = 0
                then Some ([w], [], assign (set_lits s (w_clause w) lits) (lits ! 0) (Some (w_clause w)))
              else Some ([w], [], (set_lits s (w_clause w) lits)\<lparr>conflict := Some (w_clause w)\<rparr>))"
    unfolding s1 s1_def[symmetric]
  proof (cases "val s (lits ! 0) > 0")
    case True
    then show "visit_watch L w s =
             (if val s (lits ! 0) > 0
                then Some ([w\<lparr>w_blit := lits ! 0\<rparr>], [], s1)
              else if k < length lits \<and> val s (lits ! k) > 0
                then Some ([w\<lparr>w_blit := lits ! k\<rparr>], [], s1)
              else if k < length lits
                then Some ([], [],
                  s\<lparr>heap := (heap s)(w_clause w \<mapsto> c\<lparr>c_literals := swap_lits 1 k lits\<rparr>),
                    all_literal_watches := (all_literal_watches s)
                      (lits ! k := watches s (lits ! k)
                         @ [\<lparr>w_blit = - L, w_size = c_size c, w_clause = w_clause w\<rparr>])\<rparr>)
              else if val s (lits ! 0) = 0
                then Some ([w], [], assign s1 (lits ! 0) (Some (w_clause w)))
              else Some ([w], [], s1\<lparr>conflict := Some (w_clause w)\<rparr>))"
      using nb hp l2 unfolding visit_watch_def s1_def lits_def
      by (simp add: Let_def)
  next
    case u: False
    have base: "visit_watch L w s =
        (if v > 0 then Some ([w\<lparr>w_blit := lits ! k\<rparr>], [], s1)
         else if v = 0 then
           (if k < length lits then
              (let lits' = swap_lits 1 k lits;
                   s2 = s1\<lparr>heap := (heap s1)(w_clause w \<mapsto> c\<lparr>c_literals := lits'\<rparr>)\<rparr>;
                   nw = \<lparr>w_blit = - L, w_size = c_size c, w_clause = w_clause w\<rparr>
               in if lits' ! 1 = - L then Some ([], [nw], s2)
                  else Some ([], [], s2\<lparr>all_literal_watches := (all_literal_watches s2)
                           (lits' ! 1 := watches s2 (lits' ! 1) @ [nw])\<rparr>))
            else None)
         else if val s (lits ! 0) = 0 then Some ([w], [], assign s1 (lits ! 0) (Some (w_clause w)))
         else Some ([w], [], s1\<lparr>conflict := Some (w_clause w)\<rparr>))"
      using nb hp l2 u sc unfolding visit_watch_def s1_def lits_def
      by (simp add: Let_def)
    show "visit_watch L w s =
             (if val s (lits ! 0) > 0
                then Some ([w\<lparr>w_blit := lits ! 0\<rparr>], [], s1)
              else if k < length lits \<and> val s (lits ! k) > 0
                then Some ([w\<lparr>w_blit := lits ! k\<rparr>], [], s1)
              else if k < length lits
                then Some ([], [],
                  s\<lparr>heap := (heap s)(w_clause w \<mapsto> c\<lparr>c_literals := swap_lits 1 k lits\<rparr>),
                    all_literal_watches := (all_literal_watches s)
                      (lits ! k := watches s (lits ! k)
                         @ [\<lparr>w_blit = - L, w_size = c_size c, w_clause = w_clause w\<rparr>])\<rparr>)
              else if val s (lits ! 0) = 0
                then Some ([w], [], assign s1 (lits ! 0) (Some (w_clause w)))
              else Some ([w], [], s1\<lparr>conflict := Some (w_clause w)\<rparr>))"
    proof (cases "k < length lits")
      case False
      with v len sz have "v < 0" by simp
      with False u show ?thesis unfolding base by simp
    next
      case kl: True
      with v have vk: "v = val s (lits ! k)" "0 \<le> v" by simp_all
      show ?thesis
      proof (cases "v > 0")
        case True
        with u kl vk show ?thesis unfolding base by simp
      next
        case False
        with vk have v0: "v = 0" "val s (lits ! k) = 0" by simp_all
        from kne[OF kl v0(2)] sw1[OF kl] have ne: "swap_lits 1 k lits ! 1 \<noteq> - L" by simp
        show ?thesis unfolding base
          using u kl v0 ne sw1[OF kl] by (simp add: Let_def s1_def watches_def)
      qed
    qed
  qed
qed

lemma guarded_assign:
  assumes "guarded s c" "val s x = 0" "x \<noteq> 0"
  shows "guarded (assign s x rs) c"
proof -
  have "val (assign s x rs) t > 0" if "val s t > 0" for t
    using assign_old(1)[OF assms(2) _ assms(3), of t rs] that by simp
  with assms(1) show ?thesis
    unfolding guarded_def by (auto simp: assign_views)
qed

lemma guarded_conflict:
  assumes "guarded s c" "conflict s = None"
  shows "guarded (s\<lparr>conflict := x\<rparr>) c"
  using assms unfolding guarded_def by (auto simp: conflict_update_views)

text \<open>What the invariant says about the watch that the inner loop visits next.\<close>

lemma visit_inv_head:
  assumes vi: "visit_inv lit kept (w # todo) s"
  shows "w_clause w \<in> set (clauses_of s)"
    and "w_size w = c_size (the (heap s (w_clause w)))"
    and "w_blit w \<in> set (lits_of s (w_clause w))"
    and "w_size w = 2 \<Longrightarrow>
          (- lit = lits_of s (w_clause w) ! 0 \<and> w_blit w = lits_of s (w_clause w) ! 1)
          \<or> (- lit = lits_of s (w_clause w) ! 1 \<and> w_blit w = lits_of s (w_clause w) ! 0)"
    and "lits_of s (w_clause w) ! 0 = - lit \<or> lits_of s (w_clause w) ! 1 = - lit"
    and "\<exists>c. heap s (w_clause w) = Some c \<and> c_literals c = lits_of s (w_clause w)"
    and "w_size w = length (lits_of s (w_clause w))" and "2 \<le> length (lits_of s (w_clause w))"
    and "val s (- lit) < 0" and "lit \<noteq> 0"
proof -
  define L where "L = live s lit (kept @ w # todo)"
  from vi have i: "inner_inv lit L" by (simp add: visit_inv_def L_def)
  then have wa: "watches_inv L" and st: "store_inv L" and tr: "trail_inv L"
    and pe: "pending_inv L" and pn: "0 < propagate_next L"
    and tl: "trail L ! (propagate_next L - 1) = lit"
    by (simp_all add: inner_inv_def)
  have ws: "watches L (- lit) = kept @ w # todo" by (simp add: L_def live_views)
  with wa have ok: "watch_ok L (- lit) w" by (auto simp: watches_inv_def)
  then show rin: "w_clause w \<in> set (clauses_of s)"
    and sz: "w_size w = c_size (the (heap s (w_clause w)))"
    and "w_blit w \<in> set (lits_of s (w_clause w))"
    by (simp_all add: watch_ok_def L_def live_views)
  from ok show "w_size w = 2 \<Longrightarrow>
          (- lit = lits_of s (w_clause w) ! 0 \<and> w_blit w = lits_of s (w_clause w) ! 1)
          \<or> (- lit = lits_of s (w_clause w) ! 1 \<and> w_blit w = lits_of s (w_clause w) ! 0)"
    by (simp add: watch_ok_def L_def live_views)
  from rin have rin': "w_clause w \<in> set (clauses_of L)" by (simp add: L_def live_views)
  have "0 < wcount L (- lit) (w_clause w)" by (simp add: wcount_def ws)
  moreover from wa rin' have "wcount L (- lit) (w_clause w) \<le> wanted (lits_of L (w_clause w)) (- lit)"
    by (simp add: watches_inv_def)
  ultimately have "0 < wanted (lits_of s (w_clause w)) (- lit)" by (simp add: L_def live_views)
  then show "lits_of s (w_clause w) ! 0 = - lit \<or> lits_of s (w_clause w) ! 1 = - lit"
    by (auto simp: wanted_def split: if_splits)
  from st rin' have "w_clause w \<in> dom (heap L)" by (simp add: store_inv_def)
  then show "\<exists>c. heap s (w_clause w) = Some c \<and> c_literals c = lits_of s (w_clause w)"
    by (auto simp: L_def lits_of_def)
  from st rin' have "c_size (the (heap L (w_clause w))) = length (lits_of L (w_clause w))"
    by (simp add: store_inv_def)
  with sz show "w_size w = length (lits_of s (w_clause w))" by (simp add: L_def live_views)
  from store_len[OF st rin'] show "2 \<le> length (lits_of s (w_clause w))"
    by (simp add: L_def live_views)
  from tr have ai: "assignment_inv L" by (simp add: trail_inv_def)
  from pe have "propagate_next L \<le> length (trail L)" by (simp add: pending_inv_def)
  with pn have "propagate_next L - 1 < length (trail L)" by arith
  with tl have lin: "lit \<in> set (trail L)" by (metis nth_mem)
  from trail_lit_props[OF ai lin] show "val s (- lit) < 0" "lit \<noteq> 0"
    by (simp_all add: L_def live_views)
qed

lemma visit_watch_inv_short:
  assumes vi: "visit_inv lit kept (w # todo) s" and nc: "conflict s = None"
    and vw: "visit_watch lit w s = Some (k, a, s')"
    and sh: "val s (w_blit w) > 0 \<or> w_size w = 2"
  shows "visit_inv lit (kept @ k) (todo @ a) s'"
proof -
  define L where "L = live s lit (kept @ w # todo)"
  define r where "r = w_clause w"
  from vi have i: "inner_inv lit L" and g: "\<forall>x \<in> set kept. guarded s (w_clause x)"
    by (simp_all add: visit_inv_def L_def)
  note h = visit_inv_head[OF vi, folded r_def]
  show ?thesis
  proof (cases "val s (w_blit w) > 0")
    case True
    with vw have e: "k = [w]" "a = []" "s' = s" by (simp_all add: visit_watch_def Let_def)
    from h(3) True have "guarded s r" by (auto simp: guarded_def)
    with i g show ?thesis by (simp add: visit_inv_def e L_def r_def)
  next
    case nb: False
    with sh have s2: "w_size w = 2" by simp
    with h(7) have len: "length (lits_of s r) = 2" by simp
    from head_two[of "lits_of s r"] len
    have set2: "set (lits_of s r) = {lits_of s r ! 0, lits_of s r ! 1}" by simp
    from h(4)[OF s2] set2 have set2': "set (lits_of s r) = {- lit, w_blit w}" by auto
    have rin: "r \<in> set (clauses_of L)" using h(1) by (simp add: L_def live_views)
    show ?thesis
    proof (cases "val s (w_blit w) < 0")
      case True
      with nb s2 vw have e: "k = [w]" "a = []" "s' = s\<lparr>conflict := Some r\<rparr>"
        by (simp_all add: visit_watch_def Let_def r_def)
      have f: "\<forall>l \<in> set (lits_of L r). val L l < 0"
        using set2' True h(9) by (simp add: L_def live_views)
      have m: "- lit \<in> set (lits_of L r)" using set2' by (simp add: L_def live_views)
      from inner_inv_conflict[OF i rin f m]
      have "inner_inv lit (live s' lit ((kept @ k) @ todo @ a))"
        by (simp add: e L_def live_commute)
      moreover have "guarded s' r" by (simp add: guarded_def e)
      moreover have "\<forall>x \<in> set kept. guarded s' (w_clause x)"
        using g guarded_conflict[OF _ nc] by (simp add: e)
      ultimately show ?thesis by (simp add: visit_inv_def e r_def)
    next
      case False
      with nb have b0: "val s (w_blit w) = 0" by simp
      with nb s2 vw have e: "k = [w]" "a = []" "s' = assign s (w_blit w) (Some r)"
        by (simp_all add: visit_watch_def Let_def r_def)
      have c: "conflict L = None" using nc by (simp add: L_def)
      have x: "val L (w_blit w) = 0" using b0 by (simp add: L_def live_views)
      have xr: "w_blit w \<in> set (lits_of L r)" using set2' by (simp add: L_def live_views)
      have o: "\<forall>l' \<in> set (lits_of L r). l' \<noteq> w_blit w \<longrightarrow> val L l' < 0"
        using set2' h(9) by (simp add: L_def live_views)
      from inner_inv_assign[OF i c x rin xr o]
      have "inner_inv lit (live s' lit ((kept @ k) @ todo @ a))"
        by (simp add: e L_def live_commute)
      moreover from store_lits_valid[of L r "w_blit w"] i rin xr have "w_blit w \<noteq> 0"
        by (simp add: inner_inv_def valid_lit_def)
      then have "val s' (w_blit w) > 0" by (simp add: e assign_new)
      with xr have "guarded s' r"
        by (auto simp: guarded_def e L_def live_views assign_views)
      moreover from store_lits_valid[of L r "w_blit w"] i rin xr have x0: "w_blit w \<noteq> 0"
        by (simp add: inner_inv_def valid_lit_def)
      have "\<forall>x \<in> set kept. guarded s' (w_clause x)"
        using g guarded_assign[OF _ b0 x0] by (simp add: e)
      ultimately show ?thesis by (simp add: visit_inv_def e r_def)
    qed
  qed
qed

end
